(* ===== verification/Dbt_Prelude.thy ===== *)
theory Dbt_Prelude imports Main "HOL-Library.Char_ord" "HOL-Library.List_Lexorder" begin

text \<open>
  The vocabulary the component theories share.

  \<^item> Rust strings are lists of characters with codes below 256, read as the code points
    U+0000 to U+00FF; the order on them is Rust's order on \<^verbatim>\<open>str\<close>.
  \<^item> \<^verbatim>\<open>Result\<close> with the error type of the code is the sum type \<open>failure + 'a\<close>; a panic is a
    failure of its own, so that it is never confused with an error the caller can handle.
  \<^item> \<^verbatim>\<open>BTreeSet\<close> is a strictly ascending list, \<^verbatim>\<open>BTreeMap\<close> an association list with
    strictly ascending keys; both are iterated in list order, as the Rust containers are.
  \<^item> The named collections \<open>bset\<close> (facts that turn container operations into set and map
    operations) and \<open>result\<close> (facts about results) carry the component proofs.
\<close>

named_theorems bset
named_theorems result

section \<open>Results and panics\<close>

datatype error_code = SelectorError | RuntimeError | DependencyNotFound | CyclicDependency
  | OperationCanceled | InvalidColumnSelector | SelectionOverrideActive | JsonInvalid | InvalidConfig
  | MissingArgument | FileNotFound | Unexpected

datatype failure = Err error_code string | Panic string

type_synonym 'a fs_result = "failure + 'a"

definition rbind :: "'e + 'a \<Rightarrow> ('a \<Rightarrow> 'e + 'b) \<Rightarrow> 'e + 'b" where
  "rbind r f = (case r of Inl e \<Rightarrow> Inl e | Inr a \<Rightarrow> f a)"

definition rmap :: "('a \<Rightarrow> 'b) \<Rightarrow> 'e + 'a \<Rightarrow> 'e + 'b" where
  "rmap f r = (case r of Inl e \<Rightarrow> Inl e | Inr a \<Rightarrow> Inr (f a))"

definition is_ok :: "'e + 'a \<Rightarrow> bool" where
  "is_ok r = (case r of Inl _ \<Rightarrow> False | Inr _ \<Rightarrow> True)"

text \<open>\<^verbatim>\<open>iter().map(f).collect::<Result<Vec<_>, _>>()\<close>: the first error in order wins.\<close>

fun collect_results :: "('a \<Rightarrow> 'e + 'b) \<Rightarrow> 'a list \<Rightarrow> 'e + 'b list" where
  "collect_results f [] = Inr []"
| "collect_results f (x # xs) =
     (case f x of Inl e \<Rightarrow> Inl e
      | Inr y \<Rightarrow> (case collect_results f xs of Inl e \<Rightarrow> Inl e | Inr ys \<Rightarrow> Inr (y # ys)))"

lemma rbind_simps [simp, result]:
  "rbind (Inl e) f = Inl e" "rbind (Inr a) f = f a"
  by (simp_all add: rbind_def)

lemma rmap_simps [simp, result]:
  "rmap f (Inl e) = Inl e" "rmap f (Inr a) = Inr (f a)"
  by (simp_all add: rmap_def)

lemma is_ok_simps [simp, result]: "is_ok (Inl e) = False" "is_ok (Inr a) = True"
  by (simp_all add: is_ok_def)

lemma rbind_eq_Inr [result]: "rbind r f = Inr b \<longleftrightarrow> (\<exists>a. r = Inr a \<and> f a = Inr b)"
  by (cases r) auto

lemma rmap_eq_Inr [result]: "rmap f r = Inr b \<longleftrightarrow> (\<exists>a. r = Inr a \<and> b = f a)"
  by (cases r) auto

lemma rbind_cong [fundef_cong]:
  "r = r' \<Longrightarrow> (\<And>a. r' = Inr a \<Longrightarrow> f a = g a) \<Longrightarrow> rbind r f = rbind r' g"
  by (cases r') auto

lemma collect_results_cong [fundef_cong]:
  "xs = ys \<Longrightarrow> (\<And>x. x \<in> set ys \<Longrightarrow> f x = g x) \<Longrightarrow> collect_results f xs = collect_results g ys"
proof (induction ys arbitrary: xs)
  case (Cons y ys)
  then have "collect_results f ys = collect_results g ys" and "f y = g y" by auto
  with Cons.prems show ?case by (cases "g y") auto
qed simp

lemma collect_results_Inr [result]:
  "collect_results f xs = Inr ys \<longleftrightarrow> list_all2 (\<lambda>x y. f x = Inr y) xs ys"
proof (induction xs arbitrary: ys)
  case Nil
  then show ?case by auto
next
  case (Cons x xs)
  then show ?case
    by (cases ys; cases "f x"; cases "collect_results f xs") auto
qed

lemma collect_results_map: "(\<And>x. x \<in> set xs \<Longrightarrow> f x = Inr (g x)) \<Longrightarrow> collect_results f xs = Inr (map g xs)"
  by (induction xs) auto

section \<open>Characters and strings\<close>

definition char_code :: "char \<Rightarrow> nat" where
  "char_code c = of_char c"

definition is_ascii_digit :: "char \<Rightarrow> bool" where
  "is_ascii_digit c \<longleftrightarrow> 48 \<le> char_code c \<and> char_code c \<le> 57"

definition is_ascii_upper :: "char \<Rightarrow> bool" where
  "is_ascii_upper c \<longleftrightarrow> 65 \<le> char_code c \<and> char_code c \<le> 90"

definition is_ascii_lower :: "char \<Rightarrow> bool" where
  "is_ascii_lower c \<longleftrightarrow> 97 \<le> char_code c \<and> char_code c \<le> 122"

definition is_ascii_alphabetic :: "char \<Rightarrow> bool" where
  "is_ascii_alphabetic c \<longleftrightarrow> is_ascii_upper c \<or> is_ascii_lower c"

definition is_ascii_alphanumeric :: "char \<Rightarrow> bool" where
  "is_ascii_alphanumeric c \<longleftrightarrow> is_ascii_alphabetic c \<or> is_ascii_digit c"

text \<open>\<^verbatim>\<open>char::is_whitespace\<close> and \<^verbatim>\<open>char::is_alphanumeric\<close> on U+0000 to U+00FF.\<close>

definition is_whitespace :: "char \<Rightarrow> bool" where
  "is_whitespace c \<longleftrightarrow>
     (let n = char_code c in (9 \<le> n \<and> n \<le> 13) \<or> n = 32 \<or> n = 133 \<or> n = 160)"

definition is_alphanumeric :: "char \<Rightarrow> bool" where
  "is_alphanumeric c \<longleftrightarrow> is_ascii_alphanumeric c \<or>
     char_code c \<in> {170, 178, 179, 181, 185, 186, 188, 189, 190} \<or>
     (192 \<le> char_code c \<and> char_code c \<noteq> 215 \<and> char_code c \<noteq> 247)"

text \<open>\<^verbatim>\<open>\w\<close> of the regex crate (alphabetic, mark, decimal number, connector) on the same range.\<close>

definition is_regex_word :: "char \<Rightarrow> bool" where
  "is_regex_word c \<longleftrightarrow> is_ascii_alphanumeric c \<or> c = CHR ''_'' \<or>
     char_code c \<in> {170, 181, 186} \<or>
     (192 \<le> char_code c \<and> char_code c \<noteq> 215 \<and> char_code c \<noteq> 247)"

definition ascii_lower :: "char \<Rightarrow> char" where
  "ascii_lower c = (if is_ascii_upper c then char_of (char_code c + 32) else c)"

definition to_ascii_lowercase :: "string \<Rightarrow> string" where
  "to_ascii_lowercase s = map ascii_lower s"

definition eq_ignore_ascii_case :: "string \<Rightarrow> string \<Rightarrow> bool" where
  "eq_ignore_ascii_case s t \<longleftrightarrow> to_ascii_lowercase s = to_ascii_lowercase t"

text \<open>\<^verbatim>\<open>str::len\<close> counts UTF-8 bytes: one below U+0080, two from there to U+00FF.\<close>

definition str_len :: "string \<Rightarrow> nat" where
  "str_len s = sum_list (map (\<lambda>c. if char_code c < 128 then 1 else 2) s)"

definition starts_with :: "string \<Rightarrow> string \<Rightarrow> bool" where
  "starts_with s p \<longleftrightarrow> take (length p) s = p"

definition ends_with :: "string \<Rightarrow> string \<Rightarrow> bool" where
  "ends_with s p \<longleftrightarrow> starts_with (rev s) (rev p)"

text \<open>\<^verbatim>\<open>str::contains\<close> for a text.\<close>

fun str_contains :: "string \<Rightarrow> string \<Rightarrow> bool" where
  "str_contains [] p = (p = [])"
| "str_contains (c # s) p = (starts_with (c # s) p \<or> str_contains s p)"

text \<open>\<^verbatim>\<open>str::split(c)\<close>: never empty, keeps empty pieces.\<close>

fun split_on :: "char \<Rightarrow> string \<Rightarrow> string list" where
  "split_on c [] = [[]]"
| "split_on c (x # xs) =
     (if x = c then [] # split_on c xs
      else (case split_on c xs of [] \<Rightarrow> [[x]] | p # ps \<Rightarrow> (x # p) # ps))"

fun join :: "string \<Rightarrow> string list \<Rightarrow> string" where
  "join sep [] = []"
| "join sep [x] = x"
| "join sep (x # y # ys) = x @ sep @ join sep (y # ys)"

text \<open>\<^verbatim>\<open>split_once(c)\<close> and the two pieces of \<^verbatim>\<open>rsplitn(2, c)\<close> (tail after the last \<open>c\<close> first).\<close>

definition split_once :: "char \<Rightarrow> string \<Rightarrow> (string \<times> string) option" where
  "split_once c s =
     (if c \<in> set s then Some (takeWhile (\<lambda>x. x \<noteq> c) s, tl (dropWhile (\<lambda>x. x \<noteq> c) s)) else None)"

definition rsplit_once :: "char \<Rightarrow> string \<Rightarrow> (string \<times> string) option" where
  "rsplit_once c s =
     (case split_once c (rev s) of None \<Rightarrow> None | Some (tail, head) \<Rightarrow> Some (rev head, rev tail))"

definition trim :: "string \<Rightarrow> string" where
  "trim s = rev (dropWhile is_whitespace (rev (dropWhile is_whitespace s)))"

lemma split_on_not_Nil [simp]: "split_on c s \<noteq> []"
  by (induction s) (auto split: list.splits)

lemma join_split_on [simp]: "join [c] (split_on c s) = s"
proof (induction s)
  case Nil
  then show ?case by simp
next
  case (Cons x xs)
  obtain p ps where s: "split_on c xs = p # ps"
    by (cases "split_on c xs") auto
  then show ?case
    using Cons by (cases ps) auto
qed

lemma split_on_pieces: "p \<in> set (split_on c s) \<Longrightarrow> c \<notin> set p"
  by (induction s arbitrary: p) (auto split: list.splits if_splits)

lemma split_once_Some [bset]: "split_once c s = Some (a, b) \<Longrightarrow> s = a @ c # b \<and> c \<notin> set a"
proof -
  assume h: "split_once c s = Some (a, b)"
  then have c: "c \<in> set s" and a: "a = takeWhile (\<lambda>x. x \<noteq> c) s"
    and b: "b = tl (dropWhile (\<lambda>x. x \<noteq> c) s)"
    by (auto simp: split_once_def split: if_splits)
  from c have "dropWhile (\<lambda>x. x \<noteq> c) s \<noteq> []" by (simp add: dropWhile_eq_Nil_conv)
  then have "dropWhile (\<lambda>x. x \<noteq> c) s = c # b"
    using hd_dropWhile [of "\<lambda>x. x \<noteq> c" s] b by (cases "dropWhile (\<lambda>x. x \<noteq> c) s") auto
  then have "s = a @ c # b" using a by (metis takeWhile_dropWhile_id)
  moreover have "c \<notin> set a" using a by (auto dest: set_takeWhileD)
  ultimately show ?thesis by blast
qed

lemma split_once_intro: "c \<notin> set a \<Longrightarrow> split_once c (a @ c # b) = Some (a, b)"
proof -
  assume h: "c \<notin> set a"
  then have "dropWhile (\<lambda>x. x \<noteq> c) a = []" by (auto simp: dropWhile_eq_Nil_conv)
  with h show ?thesis
    by (auto simp: split_once_def takeWhile_tail dropWhile_append3 takeWhile_eq_all_conv)
qed

lemma rsplit_once_Some [bset]: "rsplit_once c s = Some (a, b) \<Longrightarrow> s = a @ c # b \<and> c \<notin> set b"
proof -
  assume "rsplit_once c s = Some (a, b)"
  then have "split_once c (rev s) = Some (rev b, rev a)"
    by (auto simp: rsplit_once_def split: option.splits)
  then have "rev s = rev b @ c # rev a \<and> c \<notin> set (rev b)" by (rule split_once_Some)
  then show ?thesis by (metis rev_append rev_rev_ident rev.simps(2) append.assoc append_Cons append_Nil set_rev)
qed

lemma rsplit_once_intro: "c \<notin> set b \<Longrightarrow> rsplit_once c (a @ c # b) = Some (a, b)"
  using split_once_intro [of c "rev b" "rev a"] by (simp add: rsplit_once_def)

lemma rsplit_once_None [simp]: "rsplit_once c s = None \<longleftrightarrow> c \<notin> set s"
  by (auto simp: rsplit_once_def split_once_def split: option.splits)

lemma rsplit_once_notin [simp]: "c \<notin> set s \<Longrightarrow> rsplit_once c s = None"
  by (rule rsplit_once_None [THEN iffD2])

lemma split_on_subset: "p \<in> set (split_on c s) \<Longrightarrow> set p \<subseteq> set s"
proof (induction s arbitrary: p)
  case (Cons x xs)
  obtain q qs where q: "split_on c xs = q # qs" by (cases "split_on c xs") auto
  have "set r \<subseteq> set xs" if "r \<in> set (q # qs)" for r using Cons.IH [of r] that q by simp
  moreover have "p = x # q \<or> p = [] \<or> p \<in> set (q # qs)" using Cons.prems q by (auto split: if_splits)
  ultimately show ?case by fastforce
qed simp

section \<open>Decimal numbers\<close>

definition digit_val :: "char \<Rightarrow> nat" where
  "digit_val c = char_code c - 48"

definition dec_val :: "string \<Rightarrow> nat" where
  "dec_val s = foldl (\<lambda>n c. 10 * n + digit_val c) 0 s"

text \<open>
  \<^verbatim>\<open>str::parse\<close> to an unsigned integer with largest value \<open>mx\<close>: an optional plus sign and at
  least one digit; \<open>None\<close> for anything else and for a value out of range.
\<close>

definition parse_uint :: "nat \<Rightarrow> string \<Rightarrow> nat option" where
  "parse_uint mx s =
     (let d = (case s of c # r \<Rightarrow> if c = CHR ''+'' then r else s | [] \<Rightarrow> s)
      in if d \<noteq> [] \<and> list_all is_ascii_digit d \<and> dec_val d \<le> mx then Some (dec_val d) else None)"

abbreviation u32_max :: nat where "u32_max \<equiv> 4294967295"
abbreviation u64_max :: nat where "u64_max \<equiv> 18446744073709551615"

definition digit_char :: "nat \<Rightarrow> char" where
  "digit_char d = char_of (48 + d)"

fun show_nat :: "nat \<Rightarrow> string" where
  "show_nat n = (if n < 10 then [digit_char n] else show_nat (n div 10) @ [digit_char (n mod 10)])"

declare show_nat.simps [simp del]

lemma char_code_digit_char [simp]: "d < 10 \<Longrightarrow> char_code (digit_char d) = 48 + d"
  by (simp add: char_code_def digit_char_def)

lemma digit_char_props [simp]:
  "d < 10 \<Longrightarrow> digit_val (digit_char d) = d" "d < 10 \<Longrightarrow> is_ascii_digit (digit_char d)"
  by (simp_all add: digit_val_def is_ascii_digit_def)

lemma dec_val_snoc [simp]: "dec_val (s @ [c]) = 10 * dec_val s + digit_val c"
  by (simp add: dec_val_def)

lemma show_nat_digits: "show_nat n \<noteq> [] \<and> list_all is_ascii_digit (show_nat n) \<and> dec_val (show_nat n) = n"
proof (induction n rule: show_nat.induct)
  case (1 n)
  show ?case
  proof (cases "n < 10")
    case True
    then show ?thesis by (simp add: show_nat.simps [of n] dec_val_def)
  next
    case False
    with 1 show ?thesis by (subst (1 2 3) show_nat.simps) simp
  qed
qed

lemma is_ascii_digit_plus [simp]: "\<not> is_ascii_digit (CHR ''+'')"
  by (simp add: is_ascii_digit_def char_code_def)

lemma parse_uint_digits:
  "d \<noteq> [] \<Longrightarrow> list_all is_ascii_digit d \<Longrightarrow>
   parse_uint mx d = (if dec_val d \<le> mx then Some (dec_val d) else None)"
  by (cases d) (auto simp: parse_uint_def)

lemma parse_uint_show_nat: "n \<le> mx \<Longrightarrow> parse_uint mx (show_nat n) = Some n"
  using show_nat_digits [of n] by (simp add: parse_uint_digits)

text \<open>A numeral without a leading zero is the numeral that is printed for its value.\<close>

lemma digit_char_val: "is_ascii_digit c \<Longrightarrow> digit_char (digit_val c) = c"
  by (simp add: digit_char_def digit_val_def is_ascii_digit_def char_code_def)

lemma digit_val_less: "is_ascii_digit c \<Longrightarrow> digit_val c < 10"
  by (auto simp: digit_val_def is_ascii_digit_def)

lemma digit_char_0: "digit_char 0 = CHR ''0''"
  by (simp add: digit_char_def char_of_def bit_iff_odd)

lemma digit_val_0: "is_ascii_digit c \<Longrightarrow> digit_val c = 0 \<longleftrightarrow> c = CHR ''0''"
  using digit_char_val [of c] digit_char_0 by (auto simp: digit_val_def char_code_def)

lemma show_nat_dec_val:
  "s \<noteq> [] \<Longrightarrow> list_all is_ascii_digit s \<Longrightarrow> length s = 1 \<or> hd s \<noteq> CHR ''0'' \<Longrightarrow>
   show_nat (dec_val s) = s \<and> (hd s \<noteq> CHR ''0'' \<longrightarrow> 0 < dec_val s)"
proof (induction s rule: rev_induct)
  case (snoc c s)
  have c: "is_ascii_digit c" using snoc.prems(2) by simp
  show ?case
  proof (cases "s = []")
    case True
    then show ?thesis
      using c digit_val_less [OF c] digit_char_val [OF c] digit_val_0 [OF c]
      by (auto simp: dec_val_def show_nat.simps)
  next
    case False
    then have "hd s \<noteq> CHR ''0''" using snoc.prems(3) by (cases s) auto
    then have "show_nat (dec_val s) = s" "0 < dec_val s"
      using snoc.IH False snoc.prems(2) by auto
    then show ?thesis
      using digit_val_less [OF c] digit_char_val [OF c] by (subst show_nat.simps) simp
  qed
qed simp

section \<open>Comparison\<close>

text \<open>\<^verbatim>\<open>std::cmp::Ordering\<close> and \<^verbatim>\<open>Ord::cmp\<close> of a primitive type or string.\<close>

datatype ordering = Less | Equal | Greater

definition compare :: "'a::linorder \<Rightarrow> 'a \<Rightarrow> ordering" where
  "compare a b = (if a < b then Less else if b < a then Greater else Equal)"

text \<open>\<^verbatim>\<open>Ord\<close> of \<^verbatim>\<open>Option\<close>: \<^verbatim>\<open>None\<close> is below every \<^verbatim>\<open>Some\<close>.\<close>

fun compare_option :: "'a::linorder option \<Rightarrow> 'a option \<Rightarrow> ordering" where
  "compare_option None None = Equal"
| "compare_option None (Some b) = Less"
| "compare_option (Some a) None = Greater"
| "compare_option (Some a) (Some b) = compare a b"

fun ordering_reverse :: "ordering \<Rightarrow> ordering" where
  "ordering_reverse Less = Greater"
| "ordering_reverse Equal = Equal"
| "ordering_reverse Greater = Less"

lemma compare_simps [simp]:
  "compare a b = Equal \<longleftrightarrow> a = b" "compare a b = Less \<longleftrightarrow> a < b" "compare a b = Greater \<longleftrightarrow> b < a"
  "compare a a = Equal"
  by (auto simp: compare_def)

lemma compare_reverse: "compare b a = ordering_reverse (compare a b)"
  by (auto simp: compare_def)

lemma compare_option_Equal [simp]: "compare_option a b = Equal \<longleftrightarrow> a = b"
  by (cases a; cases b) auto

lemma compare_option_reverse: "compare_option b a = ordering_reverse (compare_option a b)"
  by (cases a; cases b) (auto intro: compare_reverse)

text \<open>
  \<^verbatim>\<open>slice::sort\<close> is a stable sort; its result is specified when the comparison is a total order,
  and insertion sort gives that result.
\<close>

fun insert_by :: "('a \<Rightarrow> 'a \<Rightarrow> ordering) \<Rightarrow> 'a \<Rightarrow> 'a list \<Rightarrow> 'a list" where
  "insert_by c x [] = [x]"
| "insert_by c x (y # ys) = (if c y x = Less then y # insert_by c x ys else x # y # ys)"

definition sort_by :: "('a \<Rightarrow> 'a \<Rightarrow> ordering) \<Rightarrow> 'a list \<Rightarrow> 'a list" where
  "sort_by c xs = foldr (insert_by c) xs []"

lemma set_insert_by [simp]: "set (insert_by c x ys) = insert x (set ys)"
  by (induction ys) auto

lemma set_sort_by [simp]: "set (sort_by c xs) = set xs"
  unfolding sort_by_def by (induction xs) auto

lemma length_sort_by [simp]: "length (sort_by c xs) = length xs"
proof -
  have "length (insert_by c x ys) = Suc (length ys)" for x ys by (induction ys) auto
  then show ?thesis unfolding sort_by_def by (induction xs) auto
qed

text \<open>A comparison that is a total preorder on the values \<open>S\<close>, as \<^verbatim>\<open>Ord\<close> asks of it.\<close>

locale total_comparison =
  fixes S :: "'a set" and cmp :: "'a \<Rightarrow> 'a \<Rightarrow> ordering"
  assumes reversed: "a \<in> S \<Longrightarrow> b \<in> S \<Longrightarrow> cmp b a = ordering_reverse (cmp a b)"
    and transitive: "a \<in> S \<Longrightarrow> b \<in> S \<Longrightarrow> d \<in> S \<Longrightarrow> cmp a b \<noteq> Greater \<Longrightarrow> cmp b d \<noteq> Greater \<Longrightarrow>
      cmp a d \<noteq> Greater"
begin

lemma sorted_insert_by:
  assumes "set ys \<subseteq> S" and "x \<in> S" and "sorted_wrt (\<lambda>a b. cmp a b \<noteq> Greater) ys"
  shows "sorted_wrt (\<lambda>a b. cmp a b \<noteq> Greater) (insert_by cmp x ys)"
  using assms(1,3)
proof (induction ys)
  case (Cons y ys)
  have y: "y \<in> S" using Cons.prems(1) by simp
  show ?case
  proof (cases "cmp y x = Less")
    case True
    then show ?thesis using Cons by auto
  next
    case False
    then have xy: "cmp x y \<noteq> Greater" using reversed [OF y assms(2)] by (cases "cmp y x") auto
    have "cmp x z \<noteq> Greater" if "z \<in> set ys" for z
      using transitive [OF assms(2) y _ xy, of z] Cons.prems that by auto
    then show ?thesis using Cons.prems False xy by simp
  qed
qed simp

lemma sorted_sort_by:
  assumes "set xs \<subseteq> S"
  shows "sorted_wrt (\<lambda>a b. cmp a b \<noteq> Greater) (sort_by cmp xs)"
proof -
  have "set ys \<subseteq> set xs \<Longrightarrow> sorted_wrt (\<lambda>a b. cmp a b \<noteq> Greater) (foldr (insert_by cmp) ys []) \<and>
      set (foldr (insert_by cmp) ys []) = set ys" for ys
    using assms by (induction ys) (auto intro!: sorted_insert_by)
  then show ?thesis by (simp add: sort_by_def)
qed

end

text \<open>The order of a type satisfies the contract.\<close>

interpretation primitive: total_comparison UNIV compare
  by unfold_locales (rule compare_reverse, auto)

section \<open>Ordered sets and maps\<close>

type_synonym 'a bset = "'a list"
type_synonym ('k, 'v) bmap = "('k \<times> 'v) list"

definition bset_wf :: "'a::linorder bset \<Rightarrow> bool" where
  "bset_wf s \<longleftrightarrow> sorted_wrt (<) s"

definition bs_insert :: "'a::linorder \<Rightarrow> 'a bset \<Rightarrow> 'a bset" where
  "bs_insert x s = (if x \<in> set s then s else takeWhile (\<lambda>y. y < x) s @ x # dropWhile (\<lambda>y. y < x) s)"

definition bs_remove :: "'a::linorder \<Rightarrow> 'a bset \<Rightarrow> 'a bset" where
  "bs_remove x s = filter (\<lambda>y. y \<noteq> x) s"

definition bs_extend :: "'a::linorder bset \<Rightarrow> 'a list \<Rightarrow> 'a bset" where
  "bs_extend s xs = fold bs_insert xs s"

definition bs_of_list :: "'a::linorder list \<Rightarrow> 'a bset" where
  "bs_of_list xs = bs_extend [] xs"

definition bs_inter :: "'a::linorder bset \<Rightarrow> 'a bset \<Rightarrow> 'a bset" where
  "bs_inter s t = filter (\<lambda>x. x \<in> set t) s"

definition bs_diff :: "'a::linorder bset \<Rightarrow> 'a bset \<Rightarrow> 'a bset" where
  "bs_diff s t = filter (\<lambda>x. x \<notin> set t) s"

definition bs_subset :: "'a::linorder bset \<Rightarrow> 'a bset \<Rightarrow> bool" where
  "bs_subset s t \<longleftrightarrow> list_all (\<lambda>x. x \<in> set t) s"

fun bm_insert :: "'k::linorder \<Rightarrow> 'v \<Rightarrow> ('k, 'v) bmap \<Rightarrow> ('k, 'v) bmap" where
  "bm_insert k v [] = [(k, v)]"
| "bm_insert k v ((k', v') # m) =
     (if k = k' then (k, v) # m
      else if k < k' then (k, v) # (k', v') # m else (k', v') # bm_insert k v m)"

definition bm_remove :: "'k::linorder \<Rightarrow> ('k, 'v) bmap \<Rightarrow> ('k, 'v) bmap" where
  "bm_remove k m = filter (\<lambda>(k', _). k' \<noteq> k) m"

definition bm_keys :: "('k, 'v) bmap \<Rightarrow> 'k list" where
  "bm_keys m = map fst m"

definition bmap_wf :: "('k::linorder, 'v) bmap \<Rightarrow> bool" where
  "bmap_wf m \<longleftrightarrow> sorted_wrt (<) (map fst m)"

lemma set_bs_insert [simp, bset]: "set (bs_insert x s) = insert x (set s)"
proof (cases "x \<in> set s")
  case False
  have "set s = set (takeWhile (\<lambda>y. y < x) s) \<union> set (dropWhile (\<lambda>y. y < x) s)"
    by (metis set_append takeWhile_dropWhile_id)
  with False show ?thesis by (simp add: bs_insert_def)
qed (auto simp: bs_insert_def)

lemma set_bs_remove [simp, bset]: "set (bs_remove x s) = set s - {x}"
  by (auto simp: bs_remove_def)

lemma set_bs_extend [simp, bset]: "set (bs_extend s xs) = set s \<union> set xs"
  unfolding bs_extend_def by (induction xs arbitrary: s) auto

lemma set_bs_of_list [simp, bset]: "set (bs_of_list xs) = set xs"
  by (simp add: bs_of_list_def)

lemma set_bs_inter [simp, bset]: "set (bs_inter s t) = set s \<inter> set t"
  by (auto simp: bs_inter_def)

lemma set_bs_diff [simp, bset]: "set (bs_diff s t) = set s - set t"
  by (auto simp: bs_diff_def)

lemma bs_subset_iff [simp, bset]: "bs_subset s t \<longleftrightarrow> set s \<subseteq> set t"
  by (auto simp: bs_subset_def list_all_iff)

lemma bset_wf_Nil [simp]: "bset_wf []"
  by (simp add: bset_wf_def)

lemma bset_wf_distinct: "bset_wf s \<Longrightarrow> distinct s"
  by (simp add: bset_wf_def strict_sorted_iff)

lemma bset_wf_insert [simp]:
  fixes s :: "'a::linorder bset"
  assumes "bset_wf s"
  shows "bset_wf (bs_insert x s)"
proof (cases "x \<in> set s")
  case False
  let ?a = "takeWhile (\<lambda>y. y < x) s" and ?b = "dropWhile (\<lambda>y. y < x) s"
  have wf: "sorted_wrt (<) (?a @ ?b)" using assms by (simp add: bset_wf_def)
  have a: "\<forall>y \<in> set ?a. y < x" by (auto dest: set_takeWhileD)
  have b: "\<forall>y \<in> set ?b. x < y"
  proof (cases ?b)
    case (Cons z zs)
    then have "\<not> z < x" using hd_dropWhile [of "\<lambda>y. y < x" s] by auto
    moreover have "z \<in> set s" using Cons by (metis list.set_intros(1) set_dropWhileD)
    ultimately have "x < z" using False by (metis not_less_iff_gr_or_eq)
    moreover have "\<forall>y \<in> set zs. z < y" using wf Cons by (simp add: sorted_wrt_append)
    ultimately show ?thesis using Cons by auto
  next
    case Nil
    show ?thesis unfolding Nil by simp
  qed
  show ?thesis
    using False a b wf by (auto simp: bs_insert_def bset_wf_def sorted_wrt_append dest: less_trans)
qed (use assms in \<open>simp add: bs_insert_def\<close>)

lemma bset_wf_remove [simp]: "bset_wf s \<Longrightarrow> bset_wf (bs_remove x s)"
  by (simp add: bset_wf_def bs_remove_def sorted_wrt_filter)

lemma bset_wf_extend [simp]: "bset_wf s \<Longrightarrow> bset_wf (bs_extend s xs)"
  unfolding bs_extend_def by (induction xs arbitrary: s) auto

lemma bset_wf_of_list [simp]: "bset_wf (bs_of_list xs)"
  by (simp add: bs_of_list_def)

lemma bset_wf_filter [simp]: "bset_wf s \<Longrightarrow> bset_wf (filter P s)"
  by (simp add: bset_wf_def sorted_wrt_filter)

lemma bset_wf_inter_diff [simp]:
  "bset_wf s \<Longrightarrow> bset_wf (bs_inter s t)" "bset_wf s \<Longrightarrow> bset_wf (bs_diff s t)"
  by (simp_all add: bs_inter_def bs_diff_def)

lemma bset_wf_eq: "bset_wf s \<Longrightarrow> bset_wf t \<Longrightarrow> set s = set t \<Longrightarrow> s = t"
  by (simp add: bset_wf_def strict_sorted_equal)

lemma keys_bm_insert [bset]: "fst ` set (bm_insert k v m) = insert k (fst ` set m)"
  by (induction m rule: bm_insert.induct) (auto simp: image_iff)

lemma bmap_wf_Nil [simp]: "bmap_wf []"
  by (simp add: bmap_wf_def)

lemma bmap_wf_Cons [simp]:
  "bmap_wf ((k, v) # m) \<longleftrightarrow> (\<forall>k' \<in> fst ` set m. k < k') \<and> bmap_wf m"
  by (simp add: bmap_wf_def)

lemma bmap_wf_insert [simp]: "bmap_wf m \<Longrightarrow> bmap_wf (bm_insert k v m)"
proof (induction k v m rule: bm_insert.induct)
  case (2 k v k' v' m)
  show ?case
  proof (cases "k < k' \<or> k = k'")
    case True
    with 2 show ?thesis by (auto dest: less_trans)
  next
    case False
    then have "k' < k" by auto
    with False 2 have "bmap_wf (bm_insert k v m)" by simp
    with False \<open>k' < k\<close> 2 show ?thesis by (simp add: keys_bm_insert)
  qed
qed simp

lemma map_of_bm_insert [simp, bset]: "map_of (bm_insert k v m) = (map_of m)(k \<mapsto> v)"
  by (induction k v m rule: bm_insert.induct) (auto simp: fun_eq_iff)

lemma bmap_wf_distinct: "bmap_wf m \<Longrightarrow> distinct (map fst m)"
  by (simp add: bmap_wf_def strict_sorted_iff)

lemma bmap_wf_filter [simp]: "bmap_wf m \<Longrightarrow> bmap_wf (filter P m)"
  by (induction m) auto

lemma map_of_bm_remove [simp, bset]: "map_of (bm_remove k m) = (map_of m)(k := None)"
  by (induction m) (auto simp: bm_remove_def fun_eq_iff)

lemma bmap_wf_remove [simp]: "bmap_wf m \<Longrightarrow> bmap_wf (bm_remove k m)"
  by (simp add: bm_remove_def)

lemma set_bm_keys [simp, bset]: "set (bm_keys m) = dom (map_of m)"
  by (simp add: bm_keys_def dom_map_of_conv_image_fst)

lemma bmap_wf_map_of: "bmap_wf m \<Longrightarrow> (k, v) \<in> set m \<longleftrightarrow> map_of m k = Some v"
  using bmap_wf_distinct by (metis map_of_eq_Some_iff)

end
