(* ===== verification/Dag_Closure.thy ===== *)
theory Dag_Closure imports Dag_Reach begin

text \<open>
  What the traversals of \<open>Dag_Reach\<close> return: the reachability closure of their roots, and for
  \<open>restrict_with_transitive\<close> the nearest included ancestors of every included node.
\<close>

section \<open>Closures\<close>

lemma slice_loop_inv:
  "search_inv (succs d) S (set included) (set queue) \<Longrightarrow>
   set (slice_loop d included queue) = reach (succs d) S"
proof (induction d included queue rule: slice_loop.induct)
  case (1 d included)
  then show ?case using fifo.search_done [of "succs d" S "set included" "[]"] by (simp add: pop_front_def)
next
  case (2 d included element queue)
  have p: "pop_front (element # queue) = Some (element, queue)" by (simp add: pop_front_def)
  show ?case
  proof (cases "element \<in> set included")
    case True
    with 2 show ?thesis using fifo.search_known [OF "2.prems" p] by simp
  next
    case False
    with 2 show ?thesis using fifo.search_fresh [OF "2.prems" p] by simp
  qed
qed

lemma set_slice_loop: "set (slice_loop d [] queue) = reach (succs d) (set queue)"
  using slice_loop_inv [of d "set queue" "[]" queue] fifo.search_start [of "succs d" queue] by simp

lemma map_of_filter_fst: "map_of (filter (\<lambda>(k, v). P k) m) k = (if P k then map_of m k else None)"
  by (induction m) auto

lemma map_of_slice: "map_of (slice d snks) = map_of d |` reach (succs d) (set snks)"
  by (rule ext) (simp add: slice_def map_of_filter_fst set_slice_loop restrict_map_def)

lemma slice_cmp_loop_eq:
  "slice_cmp_loop n (=) d included queue = Some r \<Longrightarrow> r = slice_loop d included queue"
proof (induction d included queue arbitrary: n rule: slice_loop.induct)
  case (1 d included)
  then show ?case by (cases n) auto
next
  case (2 d included element queue)
  have c: "compare_any (=) included element \<longleftrightarrow> element \<in> set included"
    by (auto simp: compare_any_def list_ex_iff)
  show ?case using 2 by (cases n) (auto simp: c split: if_splits)
qed

lemma slice_cmp_loop_returns: "\<exists>n. slice_cmp_loop n (=) d included queue \<noteq> None"
proof (induction d included queue rule: slice_loop.induct)
  case (1 d included)
  have "slice_cmp_loop (Suc 0) (=) d included [] \<noteq> None" by simp
  then show ?case by blast
next
  case (2 d included element queue)
  have c: "compare_any (=) included element \<longleftrightarrow> element \<in> set included"
    by (auto simp: compare_any_def list_ex_iff)
  show ?case
  proof (cases "element \<in> set included")
    case True
    with 2 obtain n where "slice_cmp_loop n (=) d included queue \<noteq> None" by blast
    then have "slice_cmp_loop (Suc n) (=) d included (element # queue) \<noteq> None" using True by (simp add: c)
    then show ?thesis by blast
  next
    case False
    with 2 obtain n where
      "slice_cmp_loop n (=) d (bs_insert element included) (push_all queue (succs d element)) \<noteq> None" by blast
    then have "slice_cmp_loop (Suc n) (=) d included (element # queue) \<noteq> None" using False by (simp add: c)
    then show ?thesis by blast
  qed
qed

lemma slice_with_compare_eq:
  "\<exists>fuel. slice_with_compare fuel (=) d snks = Some (slice d snks)"
proof -
  obtain n r where n: "slice_cmp_loop n (=) d [] snks = Some r"
    using slice_cmp_loop_returns [of d "[]" snks] by blast
  have "compare_any (=) r = (\<lambda>k. k \<in> set r)" by (auto simp: compare_any_def list_ex_iff)
  with n slice_cmp_loop_eq [OF n] have "slice_with_compare n (=) d snks = Some (slice d snks)"
    by (simp add: slice_with_compare_def slice_def Let_def)
  then show ?thesis by blast
qed

lemma upstream_loop_inv:
  "search_inv (succs d) S (set visited) (set queue) \<Longrightarrow> bmap_wf result \<Longrightarrow>
   map_of result = (\<lambda>x. if x \<in> set visited then Some (succs d x) else None) \<Longrightarrow>
   map_of (upstream_loop d result visited queue) =
     (\<lambda>x. if x \<in> reach (succs d) S then Some (succs d x) else None)"
proof (induction d result visited queue rule: upstream_loop.induct)
  case (1 d result visited)
  then show ?case using fifo.search_done [of "succs d" S "set visited" "[]"] by (simp add: pop_front_def)
next
  case (2 d result visited node queue)
  have p: "pop_front (node # queue) = Some (node, queue)" by (simp add: pop_front_def)
  show ?case
  proof (cases "node \<in> set visited")
    case True
    with 2 show ?thesis using fifo.search_known [OF "2.prems"(1) p] by simp
  next
    case False
    note inv = fifo.search_fresh [OF "2.prems"(1) p]
    show ?thesis
    proof (cases "map_of d node")
      case None
      show ?thesis
        using False None "2.IH"(2) [OF False None] inv "2.prems"(2,3) by (simp add: push_all_def fun_eq_iff)
    next
      case (Some vs)
      show ?thesis
        using False Some "2.IH"(3) [OF False Some] inv "2.prems"(2,3) by (simp add: fun_eq_iff)
    qed
  qed
qed

lemma map_of_get_all_upstream_deps:
  "map_of (get_all_upstream_deps d roots) =
     (\<lambda>x. if x \<in> reach (succs d) (set roots) then Some (succs d x) else None)"
  unfolding get_all_upstream_deps_def
  by (rule upstream_loop_inv) (use fifo.search_start [of "succs d" roots] in auto)

lemma find_upstream_loop_inv:
  "search_inv (succs d) S (set all_deps) (set stack) \<Longrightarrow>
   set (find_upstream_loop d all_deps stack) = reach (succs d) S"
proof (induction d all_deps stack rule: find_upstream_loop.induct)
  case (1 d all_deps stack)
  show ?case
  proof (cases "vec_pop stack")
    case None
    with 1 show ?thesis using lifo.search_done by (fastforce simp: find_upstream_loop.simps [of d all_deps])
  next
    case (Some p)
    obtain x s' where p: "p = (x, s')" by (cases p)
    note pop = Some [unfolded p]
    show ?thesis
    proof (cases "x \<in> set all_deps")
      case True
      with 1 pop show ?thesis
        using lifo.search_known [OF "1.prems" pop] by (simp add: find_upstream_loop.simps [of d all_deps])
    next
      case False
      with 1 pop show ?thesis
        using lifo.search_fresh [OF "1.prems" pop] by (simp add: find_upstream_loop.simps [of d all_deps])
    qed
  qed
qed

lemma set_find_all_upstream_deps:
  "set (find_all_upstream_deps node d) = reach (succs d) (set (succs d node))"
  unfolding find_all_upstream_deps_def
  by (rule find_upstream_loop_inv) (use lifo.search_start [of "succs d" "succs d node"] in simp)

lemma upstreams_loop_inv:
  assumes "f = (\<lambda>x. filter (\<lambda>y. y \<notin> set targets) (succs d x))"
  shows "search_inv f S (set visited) (set stack - set targets) \<Longrightarrow>
   set (upstreams_loop d targets visited stack) = reach f S"
  using assms
proof (induction d targets visited stack rule: upstreams_loop.induct)
  case (1 d targets visited stack)
  show ?case
  proof (cases "vec_pop stack")
    case None
    then have "stack = []" by (auto simp: vec_pop_def split: if_splits)
    with 1 show ?thesis
      using lifo.search_done [of f S "set visited" "[]"]
      by (simp add: upstreams_loop.simps [of d targets visited] vec_pop_def)
  next
    case (Some p)
    obtain x s' where p: "p = (x, s')" by (cases p)
    note pop = Some [unfolded p]
    have st: "set stack = insert x (set s')" using lifo.pop_Some [OF pop] .
    consider (target) "x \<in> set targets" | (known) "x \<notin> set targets" "x \<in> set visited"
      | (fresh) "x \<notin> set targets" "x \<notin> set visited" by blast
    then show ?thesis
    proof cases
      case target
      with 1 pop st show ?thesis by (simp add: upstreams_loop.simps [of d targets visited])
    next
      case known
      then have "search_inv f S (set visited) (set s' - set targets)"
        using 1(4) st by (auto simp: search_inv_def)
      with 1 pop known show ?thesis by (simp add: upstreams_loop.simps [of d targets visited])
    next
      case fresh
      have "x \<in> reach f S" using 1(4) st fresh by (auto simp: search_inv_def)
      then have "set (f x) \<subseteq> reach f S" by (rule reach_step)
      then have "search_inv f S (insert x (set visited)) (set (push_all s' (succs d x)) - set targets)"
        using 1(4,5) st fresh by (auto simp: search_inv_def push_all_def)
      with 1 pop fresh show ?thesis by (simp add: upstreams_loop.simps [of d targets visited])
    qed
  qed
qed

lemma set_get_upstreams:
  "set (get_upstreams d targets) = reach (succs d) (set targets) - set targets"
proof -
  define f where "f = (\<lambda>x. filter (\<lambda>y. y \<notin> set targets) (succs d x))"
  define S where "S = (\<Union>t \<in> set targets. set (succs d t)) - set targets"
  have "search_inv f S {} S" using reach_base [of S f] by (auto simp: search_inv_def)
  then have eq: "set (get_upstreams d targets) = reach f S"
    unfolding get_upstreams_def using upstreams_loop_inv [OF f_def, of S "[]"] by (simp add: S_def)
  have up: "reach f S \<subseteq> reach (succs d) (set targets) - set targets"
  proof (rule reach_least)
    show "S \<subseteq> reach (succs d) (set targets) - set targets"
      using reach_base [of "set targets" "succs d"] reach_step [of _ "succs d" "set targets"]
      by (auto simp: S_def)
    show "set (f x) \<subseteq> reach (succs d) (set targets) - set targets"
      if "x \<in> reach (succs d) (set targets) - set targets" for x
      using that reach_step [of x "succs d" "set targets"] by (auto simp: f_def)
  qed
  have "reach (succs d) (set targets) \<subseteq> reach f S \<union> set targets"
  proof (rule reach_least)
    show "set (succs d x) \<subseteq> reach f S \<union> set targets" if "x \<in> reach f S \<union> set targets" for x
    proof (cases "x \<in> set targets")
      case True
      then show ?thesis using reach_base [of S f] by (auto simp: S_def)
    next
      case False
      then have "set (f x) \<subseteq> reach f S" using that reach_step [of x f S] by blast
      then show ?thesis by (auto simp: f_def)
    qed
  qed simp
  with eq up show ?thesis by blast
qed

lemma sinks_loop_inv:
  "mark_inv (succs r) S (set visited) (set queue) \<Longrightarrow>
   set snks \<subseteq> {x \<in> set visited. succs r x = []} \<Longrightarrow>
   {x \<in> set visited. succs r x = []} \<subseteq> set snks \<union> set queue \<Longrightarrow>
   sinks_loop r visited snks queue = (v, s) \<Longrightarrow>
   set v = reach (succs r) S \<and> set s = {x \<in> reach (succs r) S. succs r x = []}"
proof (induction r visited snks queue arbitrary: v s rule: sinks_loop.induct)
  case (1 r visited snks)
  then show ?case using fifo.mark_done [of "succs r" S "set visited" "[]"] by (auto simp: pop_front_def)
next
  case (2 r visited snks elem queue)
  have p: "pop_front (elem # queue) = Some (elem, queue)" by (simp add: pop_front_def)
  have el: "elem \<in> set visited" using "2.prems"(1) by (auto simp: mark_inv_def)
  show ?case
  proof (cases "succs r elem = []")
    case True
    have step: "mark_inv (succs r) S (set visited) (set queue)"
      using "2.prems"(1) True by (auto simp: mark_inv_def)
    have "sinks_loop r (bs_insert elem visited) (bs_insert elem snks) queue = (v, s)"
      using "2.prems"(4) True by (auto simp: succs_def split: option.splits)
    moreover have "map_of r elem = None \<or> map_of r elem = Some []"
      using True by (auto simp: succs_def split: option.splits)
    ultimately show ?thesis
      using "2.IH"(1,2) step "2.prems"(2,3) el True by (auto simp: insert_absorb)
  next
    case False
    then obtain vs where vs: "map_of r elem = Some vs" "vs \<noteq> []"
      by (auto simp: succs_def split: option.splits)
    obtain new where new: "mark_push vs visited queue = (fst (mark_push vs visited queue), queue @ new)"
        "set new = set vs - set visited" "set (fst (mark_push vs visited queue)) = set visited \<union> set vs"
      using mark_push_spec by blast
    have "set new = set (succs r elem) - set visited" using new(2) vs by simp
    note step = fifo.mark_step [OF "2.prems"(1) p this]
    have q: "snd (mark_push vs visited queue) = queue @ new" by (subst new(1)) simp
    have v: "set visited \<union> set new = set (fst (mark_push vs visited queue))" using new(2,3) by auto
    let ?vq = "mark_push vs visited queue"
    have "mark_inv (succs r) S (set (fst ?vq)) (set (snd ?vq))"
      using step unfolding push_all_def q v by (simp add: ac_simps)
    moreover have "set snks \<subseteq> {x \<in> set (fst ?vq). succs r x = []}"
      using "2.prems"(2) new(3) by auto
    moreover have "{x \<in> set (fst ?vq). succs r x = []} \<subseteq> set snks \<union> set (snd ?vq)"
      using "2.prems"(3) new(2,3) q False by auto
    moreover have "sinks_loop r (fst ?vq) snks (snd ?vq) = (v, s)"
      using "2.prems"(4) vs by (simp add: Let_def)
    ultimately show ?thesis by (rule "2.IH"(3) [OF vs refl])
  qed
qed

lemma set_sinks:
  "set (sinks r roots all_nodes) =
     (if all_nodes then reach (succs r) (set roots)
      else {x \<in> reach (succs r) (set roots). succs r x = []})"
proof -
  obtain v s where vs: "sinks_loop r (bs_of_list roots) [] roots = (v, s)" by fastforce
  have "mark_inv (succs r) (set roots) (set (bs_of_list roots)) (set roots)"
    using fifo.mark_start [of "succs r" roots] by simp
  from sinks_loop_inv [OF this _ _ vs] show ?thesis by (auto simp: sinks_def vs)
qed

section \<open>Reversal\<close>

lemma succs_bm_insert [simp]:
  "succs (bm_insert v y r) x = (if x = v then y else succs r x)"
  by (auto simp: succs_def)

lemma reverse_insert_eq: "reverse_insert k v r = bm_insert v (bs_insert k (succs r v)) r"
  by (simp add: reverse_insert_def succs_def split: option.splits)

lemma set_succs_reverse_insert:
  "bmap_wf r \<Longrightarrow>
   set (succs (reverse_insert k v r) x) = (if x = v then insert k (set (succs r x)) else set (succs r x))"
  by (simp add: reverse_insert_eq)

lemma reverse_insert_wf: "bmap_wf r \<Longrightarrow> bmap_wf (reverse_insert k v r)"
  by (auto simp: reverse_insert_def split: option.splits)

lemma reverse_inner:
  "bmap_wf r \<Longrightarrow> bmap_wf (fold (reverse_insert k) vs r) \<and>
   set (succs (fold (reverse_insert k) vs r) x) =
     (if x \<in> set vs then insert k (set (succs r x)) else set (succs r x))"
  by (induction vs arbitrary: r) (auto simp: set_succs_reverse_insert reverse_insert_wf)

lemma reverse_dependencies_spec:
  "bmap_wf r \<Longrightarrow> bmap_wf (reverse_dependencies d r) \<and>
   set (succs (reverse_dependencies d r) x) = {k. \<exists>vs. (k, vs) \<in> set d \<and> x \<in> set vs} \<union> set (succs r x)"
  unfolding reverse_dependencies_def
proof (induction d arbitrary: r)
  case (Cons kv d)
  obtain k vs where kv: "kv = (k, vs)" by (cases kv)
  have "bmap_wf (fold (reverse_insert k) vs r)" using reverse_inner [OF Cons.prems] by blast
  from Cons.IH [OF this] reverse_inner [OF Cons.prems, of k vs x] show ?case by (auto simp: kv)
qed simp

lemma reverse_wf [simp]: "bmap_wf (reverse d)"
  using reverse_dependencies_spec [of "[]" d] by (simp add: reverse_def)

lemma set_succs_reverse:
  assumes "distinct (map fst d)"
  shows "set (succs (reverse d) x) = {k. x \<in> set (succs d k)}"
proof -
  have "set (succs (reverse d) x) = {k. \<exists>vs. (k, vs) \<in> set d \<and> x \<in> set vs}"
    using reverse_dependencies_spec [of "[]" d x] by (simp add: reverse_def)
  also have "\<dots> = {k. x \<in> set (succs d k)}"
    using assms by (auto simp: succs_def dest: map_of_SomeD split: option.splits)
  finally show ?thesis .
qed

lemma edges_reverse:
  assumes "distinct (map fst d)"
  shows "edges (succs (reverse d)) = (edges (succs d))\<inverse>"
  using set_succs_reverse [OF assms] by (auto simp: edges_def)

section \<open>Completion\<close>

lemma fold_extend_set: "set (fold (\<lambda>(_, vs) s. bs_extend s vs) d s) = \<Union> (set ` snd ` set d) \<union> set s"
  by (induction d arbitrary: s) auto

lemma fold_define:
  "bmap_wf m \<Longrightarrow> bmap_wf (fold (\<lambda>n res. bm_insert n [] res) ns m) \<and>
   map_of (fold (\<lambda>n res. bm_insert n [] res) ns m) x = (if x \<in> set ns then Some [] else map_of m x)"
  by (induction ns arbitrary: m) auto

lemma ensure_all_nodes_defined_spec:
  assumes "bmap_wf d"
  shows "bmap_wf (ensure_all_nodes_defined d)"
    and "succs (ensure_all_nodes_defined d) = succs d"
    and "dom (map_of (ensure_all_nodes_defined d)) = dom (map_of d) \<union> \<Union> (set ` snd ` set d)"
proof -
  let ?ns = "bs_diff (fold (\<lambda>(_, vs) s. bs_extend s vs) d []) (bs_of_list (bm_keys d))"
  have ns: "set ?ns = \<Union> (set ` snd ` set d) - dom (map_of d)" by (simp add: fold_extend_set)
  have e: "ensure_all_nodes_defined d = fold (\<lambda>n res. bm_insert n [] res) ?ns d"
    by (simp add: ensure_all_nodes_defined_def Let_def)
  note f = fold_define [OF assms, of ?ns, folded e]
  show "bmap_wf (ensure_all_nodes_defined d)" using f by blast
  show "succs (ensure_all_nodes_defined d) = succs d"
    using f ns by (auto simp: succs_def fun_eq_iff split: option.splits)
  show "dom (map_of (ensure_all_nodes_defined d)) = dom (map_of d) \<union> \<Union> (set ` snd ` set d)"
    using f ns by (auto simp: dom_def)
qed

section \<open>Restriction\<close>

text \<open>\<open>first_up d sel n p\<close>: \<open>p\<close> is included and a path of excluded nodes leads from \<open>n\<close> to it.\<close>

inductive first_up :: "'a deps \<Rightarrow> 'a set \<Rightarrow> 'a \<Rightarrow> 'a \<Rightarrow> bool" for d sel where
  direct: "p \<in> set (succs d n) \<Longrightarrow> p \<in> sel \<Longrightarrow> first_up d sel n p"
| climb: "q \<in> set (succs d n) \<Longrightarrow> q \<notin> sel \<Longrightarrow> first_up d sel q p \<Longrightarrow> first_up d sel n p"

lemma first_up_iff:
  "first_up d sel n p \<longleftrightarrow>
   (p \<in> set (succs d n) \<and> p \<in> sel) \<or> (\<exists>q \<in> set (succs d n). q \<notin> sel \<and> first_up d sel q p)"
  by (subst first_up.simps) auto

lemma first_up_included: "first_up d sel n p \<Longrightarrow> p \<in> sel"
  by (induction rule: first_up.induct) auto

lemma first_up_path: "first_up d sel n p \<Longrightarrow> (n, p) \<in> (edges (succs d))\<^sup>+"
  by (induction rule: first_up.induct) (auto intro: trancl_into_trancl2)

definition memo_ok :: "'a::linorder deps \<Rightarrow> 'a set \<Rightarrow> 'a deps \<Rightarrow> bool" where
  "memo_ok d sel memo \<longleftrightarrow>
     bmap_wf memo \<and> (\<forall>n r. map_of memo n = Some r \<longrightarrow> set r = {p. first_up d sel n p})"

lemma first_upstream_correct:
  assumes "acyclic (edges (succs d))"
  shows "memo_ok d (set sel) memo \<Longrightarrow> (\<forall>v \<in> set visiting. (v, node) \<in> (edges (succs d))\<^sup>+) \<Longrightarrow>
      first_upstream d sel memo visiting node = (r, memo') \<Longrightarrow>
      set r = {p. first_up d (set sel) node p} \<and> memo_ok d (set sel) memo'"
    and "memo_ok d (set sel) memo \<Longrightarrow>
      (\<forall>v \<in> set visiting. \<forall>q \<in> set ps. (v, q) \<in> (edges (succs d))\<^sup>+) \<Longrightarrow>
      first_upstream_parents d sel memo visiting ps acc = (r, memo') \<Longrightarrow>
      set r = set acc \<union> {p. \<exists>q \<in> set ps. (p = q \<and> q \<in> set sel) \<or> (q \<notin> set sel \<and> first_up d (set sel) q p)}
        \<and> memo_ok d (set sel) memo'"
  using assms
proof (induction d sel memo visiting node and d sel memo visiting ps acc
    arbitrary: r memo' and r memo' rule: first_upstream_first_upstream_parents.induct)
  case (1 d sel memo visiting node)
  show ?case
  proof (cases "map_of memo node")
    case (Some cached)
    with 1 show ?thesis by (auto simp: memo_ok_def)
  next
    case None
    have nv: "node \<notin> set visiting" using "1.prems"(2,4) by (auto simp: acyclic_def)
    show ?thesis
    proof (cases "map_of d node")
      case None
      have "{p. first_up d (set sel) node p} = {}" using None by (subst first_up_iff) simp
      with 1 nv None \<open>map_of memo node = None\<close> show ?thesis by (auto simp: memo_ok_def split: if_splits)
    next
      case (Some parents)
      obtain res m where rm: "first_upstream_parents d sel memo (bs_insert node visiting) parents [] = (res, m)"
        by fastforce
      have e: "(node, q) \<in> (edges (succs d))\<^sup>+" if "q \<in> set parents" for q
        using that Some by (auto simp: edges_def intro: r_into_trancl)
      have "\<forall>v \<in> set (bs_insert node visiting). \<forall>q \<in> set parents. (v, q) \<in> (edges (succs d))\<^sup>+"
        using "1.prems"(2) e by (auto intro: trancl_trans)
      from "1.IH" [OF None nv Some "1.prems"(1) this rm "1.prems"(4)]
      have "set res = {p. first_up d (set sel) node p}" and "memo_ok d (set sel) m"
        using Some by (auto simp: first_up_iff [of d "set sel" node])
      with "1.prems"(3) None nv Some rm show ?thesis by (auto simp: memo_ok_def split: if_splits)
    qed
  qed
next
  case (2 d sel memo visiting result)
  then show ?case by auto
next
  case (3 d sel memo visiting parent parents result)
  show ?case
  proof (cases "parent \<in> set sel")
    case True
    have "\<forall>v \<in> set visiting. \<forall>q \<in> set parents. (v, q) \<in> (edges (succs d))\<^sup>+" using "3.prems"(2) by auto
    with "3.IH"(1) [OF True "3.prems"(1) this _ "3.prems"(4)] "3.prems"(3) True show ?thesis by auto
  next
    case False
    obtain up m where um: "first_upstream d sel memo visiting parent = (up, m)" by fastforce
    have "\<forall>v \<in> set visiting. (v, parent) \<in> (edges (succs d))\<^sup>+" using "3.prems"(2) by auto
    from "3.IH"(2) [OF False "3.prems"(1) this um "3.prems"(4)]
    have up: "set up = {p. first_up d (set sel) parent p}" and m: "memo_ok d (set sel) m" by auto
    have "\<forall>v \<in> set visiting. \<forall>q \<in> set parents. (v, q) \<in> (edges (succs d))\<^sup>+" using "3.prems"(2) by auto
    from "3.IH"(3) [OF False um [symmetric] m this _ "3.prems"(4)] "3.prems"(3) False um up
    show ?thesis by auto
  qed
qed

lemma restrict_fold:
  assumes "acyclic (edges (succs d))"
  shows "memo_ok d (set sel) memo \<Longrightarrow> bmap_wf out \<Longrightarrow>
   fold (\<lambda>node (memo, out). case first_upstream d sel memo [] node of
      (parents, memo') \<Rightarrow> (memo', bm_insert node parents out)) ns (memo, out) = (memo', out') \<Longrightarrow>
   bmap_wf out' \<and>
   (\<forall>n. map_option set (map_of out' n) =
      (if n \<in> set ns then Some {p. first_up d (set sel) n p} else map_option set (map_of out n)))"
proof (induction ns arbitrary: memo out)
  case (Cons n ns)
  obtain ps m where pm: "first_upstream d sel memo [] n = (ps, m)" by fastforce
  have "set ps = {p. first_up d (set sel) n p}" and m: "memo_ok d (set sel) m"
    using first_upstream_correct(1) [OF assms Cons.prems(1) _ pm] by auto
  with Cons.IH [OF m bmap_wf_insert [OF Cons.prems(2), of n ps]] Cons.prems(2,3) pm show ?case by auto
qed simp

lemma map_of_restrict:
  assumes "acyclic (edges (succs d))"
  shows "map_option set (map_of (restrict_with_transitive d sel) n) =
     (if n \<in> set sel then Some {p. first_up d (set sel) n p} else None)"
proof -
  obtain memo' out' where f: "fold (\<lambda>node (memo, out). case first_upstream d sel memo [] node of
      (parents, memo') \<Rightarrow> (memo', bm_insert node parents out)) sel ([], []) = (memo', out')" by fastforce
  have "memo_ok d (set sel) []" by (simp add: memo_ok_def)
  from restrict_fold [OF assms this _ f] f show ?thesis by (simp add: restrict_with_transitive_def)
qed

lemma set_succs_restrict:
  assumes "acyclic (edges (succs d))"
  shows "set (succs (restrict_with_transitive d sel) n) =
     (if n \<in> set sel then {p. first_up d (set sel) n p} else {})"
  using map_of_restrict [OF assms, of sel n] by (auto simp: succs_def split: option.splits if_splits)

lemma restrict_acyclic:
  assumes "acyclic (edges (succs d))"
  shows "acyclic (edges (succs (restrict_with_transitive d sel)))"
proof -
  have "edges (succs (restrict_with_transitive d sel)) \<subseteq> (edges (succs d))\<^sup>+"
    using first_up_path by (auto simp: edges_def set_succs_restrict [OF assms] split: if_splits)
  moreover have "acyclic ((edges (succs d))\<^sup>+)" using assms by (simp add: acyclic_def)
  ultimately show ?thesis by (rule acyclic_subset [rotated])
qed

end
