(* ===== verification/Dag_Order.thy ===== *)
theory Dag_Order imports Dag_Closure begin

text \<open>
  The topological sort of \<^verbatim>\<open>crates/dbt-dag/src/deps_mgmt.rs\<close>: Kahn's algorithm with a binary heap
  of the nodes no counted edge leads to. The heap is a list whose greatest element is popped.
\<close>

section \<open>Topological sort\<close>

text \<open>\<^verbatim>\<open>in_degree\<close> counts, for every node, the edges that point to it.\<close>

definition deg_of :: "('a, nat) bmap \<Rightarrow> 'a \<Rightarrow> nat" where
  "deg_of m x = (case map_of m x of None \<Rightarrow> 0 | Some k \<Rightarrow> k)"

definition count_edge :: "'a::linorder \<Rightarrow> ('a, nat) bmap \<Rightarrow> ('a, nat) bmap" where
  "count_edge n m = bm_insert n (deg_of m n + 1) m"

definition in_degrees :: "'a::linorder deps \<Rightarrow> ('a, nat) bmap" where
  "in_degrees d =
     fold (\<lambda>(node, neighbors) m. fold count_edge neighbors
             (if map_of m node = None then bm_insert node 0 m else m)) d []"

text \<open>\<^verbatim>\<open>BinaryHeap::pop\<close> returns the greatest element.\<close>

definition heap_pop :: "'a::linorder list \<Rightarrow> ('a \<times> 'a list) option" where
  "heap_pop q = (case q of [] \<Rightarrow> None | x # xs \<Rightarrow> (let m = fold max xs x in Some (m, remove1 m q)))"

text \<open>The decrement of an unsigned counter at zero is a panic of its own.\<close>

fun release :: "'a::linorder list \<Rightarrow> ('a, nat) bmap \<Rightarrow> 'a list \<Rightarrow> failure + ('a, nat) bmap \<times> 'a list" where
  "release [] m q = Inr (m, q)"
| "release (n # ns) m q =
     (case map_of m n of
        None \<Rightarrow> release ns m q
      | Some deg \<Rightarrow>
          if deg = 0 then Inl (Panic ''attempt to subtract with overflow'')
          else release ns (bm_insert n (deg - 1) m) (if deg - 1 = 0 then q @ [n] else q))"

definition degree_sum :: "('a, nat) bmap \<Rightarrow> nat" where
  "degree_sum m = (\<Sum>k \<in> fst ` set m. deg_of m k)"

lemma deg_of_insert [simp]: "deg_of (bm_insert n k m) x = (if x = n then k else deg_of m x)"
  by (simp add: deg_of_def)

lemma degree_sum_insert:
  assumes "map_of m n = Some (Suc k)"
  shows "degree_sum (bm_insert n k m) < degree_sum m"
proof -
  have n: "n \<in> fst ` set m" using assms by (metis map_of_eq_None_iff option.distinct(1))
  have "degree_sum (bm_insert n k m) = (\<Sum>x \<in> fst ` set m. if x = n then k else deg_of m x)"
    using n by (simp add: degree_sum_def keys_bm_insert insert_absorb)
  also have "\<dots> < degree_sum m"
    unfolding degree_sum_def using n assms
    by (intro sum_strict_mono_ex1) (auto simp: deg_of_def)
  finally show ?thesis .
qed

lemma release_measure:
  "release ns m q = Inr (m', q') \<Longrightarrow> degree_sum m' + length q' \<le> degree_sum m + length q"
proof (induction ns m q rule: release.induct)
  case (2 n ns m q)
  show ?case
  proof (cases "map_of m n")
    case (Some deg)
    then obtain k where k: "deg = Suc k" using 2 by (cases deg) auto
    have "degree_sum (bm_insert n k m) < degree_sum m"
      using degree_sum_insert Some k by blast
    with 2 Some k show ?thesis by (auto split: if_splits)
  qed (use 2 in auto)
qed simp

lemma fold_max_in: "fold max xs x \<in> set (x # xs)"
  by (induction xs arbitrary: x) (auto simp: max_def)

lemma heap_pop_Some:
  "heap_pop q = Some (x, q') \<Longrightarrow> x \<in> set q \<and> q' = remove1 x q"
  using fold_max_in by (fastforce simp: heap_pop_def Let_def split: list.splits)

lemma heap_pop_length: "heap_pop q = Some (x, q') \<Longrightarrow> length q' < length q"
  using heap_pop_Some [of q x q'] by (auto simp: length_remove1 dest: length_pos_if_in_set)

function kahn :: "'a::linorder deps \<Rightarrow> ('a, nat) bmap \<Rightarrow> 'a list \<Rightarrow> 'a list \<Rightarrow> failure + 'a list" where
  "kahn d m q out =
     (case heap_pop q of
        None \<Rightarrow> Inr out
      | Some (node, q') \<Rightarrow>
          (case release (succs d node) m q' of
             Inl e \<Rightarrow> Inl e
           | Inr (m', q'') \<Rightarrow> kahn d m' q'' (out @ [node])))"
  by pat_completeness auto
termination
proof (relation "measure (\<lambda>(d, m, q, out). degree_sum m + length q)", goal_cases)
  case (2 d m q out p node q' r m' q'')
  then show ?case using release_measure [of "succs d node" m q' m' q''] heap_pop_length [of q node q'] by simp
qed simp

declare kahn.simps [simp del]

definition topological_sort :: "'a::linorder deps \<Rightarrow> failure + 'a list" where
  "topological_sort d =
     (let in_degree = in_degrees d;
          queue = map fst (filter (\<lambda>(_, deg). deg = 0) in_degree)
      in rmap rev (kahn d in_degree queue []))"

section \<open>Correctness of the topological sort\<close>

text \<open>A graph as the code builds it: ordered keys, ordered dependency sets.\<close>

definition deps_wf :: "'a::linorder deps \<Rightarrow> bool" where
  "deps_wf d \<longleftrightarrow> bmap_wf d \<and> (\<forall>vs \<in> snd ` set d. bset_wf vs)"

definition graph_nodes :: "'a deps \<Rightarrow> 'a set" where
  "graph_nodes d = dom (map_of d) \<union> \<Union> (set ` snd ` set d)"

definition preds :: "'a deps \<Rightarrow> 'a \<Rightarrow> 'a set" where
  "preds d x = {y. x \<in> set (succs d y)}"

lemma succs_key: "y \<in> set (succs d x) \<Longrightarrow> x \<in> dom (map_of d)"
  by (cases "map_of d x") auto

lemma succs_nodes: "y \<in> set (succs d x) \<Longrightarrow> y \<in> graph_nodes d"
  by (cases "map_of d x") (force simp: graph_nodes_def dest: map_of_SomeD)+

lemma finite_edges [simp]: "finite (edges (succs d))"
proof -
  have "edges (succs d) \<subseteq> (\<Union>(k, vs) \<in> set d. {k} \<times> set vs)"
  proof
    fix e assume "e \<in> edges (succs d)"
    then obtain a b vs where "e = (a, b)" "map_of d a = Some vs" "b \<in> set vs"
      by (cases e; cases "map_of d (fst e)") (auto simp: edges_def)
    then show "e \<in> (\<Union>(k, vs) \<in> set d. {k} \<times> set vs)" by (auto dest!: map_of_SomeD)
  qed
  then show ?thesis by (rule finite_subset) auto
qed

lemma finite_graph_nodes [simp]: "finite (graph_nodes d)"
  by (simp add: graph_nodes_def finite_dom_map_of)

lemma preds_nodes: "preds d x \<subseteq> graph_nodes d"
  using succs_key by (fastforce simp: preds_def graph_nodes_def)

lemma finite_preds [simp]: "finite (preds d x)"
  using finite_subset [OF preds_nodes finite_graph_nodes] .

lemma distinct_succs: "deps_wf d \<Longrightarrow> distinct (succs d x)"
  by (auto simp: deps_wf_def succs_def image_iff split: option.splits
      dest!: map_of_SomeD intro!: bset_wf_distinct)

lemma count_edges:
  "distinct vs \<Longrightarrow>
   deg_of (fold count_edge vs m) x = deg_of m x + (if x \<in> set vs then 1 else 0) \<and>
   dom (map_of (fold count_edge vs m)) = dom (map_of m) \<union> set vs \<and>
   (bmap_wf m \<longrightarrow> bmap_wf (fold count_edge vs m))"
  by (induction vs arbitrary: m) (auto simp: count_edge_def)

lemma in_degrees_fold:
  "\<forall>vs \<in> snd ` set d. distinct vs \<Longrightarrow>
   (let m' = fold (\<lambda>(node, neighbors) m. fold count_edge neighbors
             (if map_of m node = None then bm_insert node 0 m else m)) d m in
    deg_of m' x = deg_of m x + length (filter (\<lambda>kv. x \<in> set (snd kv)) d) \<and>
    dom (map_of m') = dom (map_of m) \<union> fst ` set d \<union> \<Union> (set ` snd ` set d) \<and>
    (bmap_wf m \<longrightarrow> bmap_wf m'))"
proof (induction d arbitrary: m)
  case (Cons kv d)
  obtain k vs where kv: "kv = (k, vs)" by (cases kv)
  let ?m0 = "if map_of m k = None then bm_insert k 0 m else m"
  have m0: "deg_of ?m0 x = deg_of m x" "dom (map_of ?m0) = insert k (dom (map_of m))"
    "bmap_wf m \<longrightarrow> bmap_wf ?m0"
    by (auto simp: deg_of_def)
  have vs: "distinct vs" and d: "\<forall>vs \<in> snd ` set d. distinct vs" using Cons.prems kv by auto
  show ?case
    using Cons.IH [OF d, of "fold count_edge vs ?m0"] count_edges [OF vs, of ?m0 x] m0
    by (auto simp: kv Let_def)
qed simp

lemma card_preds:
  assumes "distinct (map fst d)"
  shows "length (filter (\<lambda>kv. x \<in> set (snd kv)) d) = card (preds d x)"
proof -
  let ?f = "filter (\<lambda>kv. x \<in> set (snd kv)) d"
  have "distinct (map fst ?f)" using assms by (simp add: distinct_map_filter)
  then have "length ?f = card (fst ` set ?f)"
    by (metis distinct_card length_map list.set_map)
  also have "fst ` set ?f = preds d x"
    using assms by (force simp: preds_def succs_def image_iff split: option.splits dest: map_of_SomeD)
  finally show ?thesis .
qed

lemma in_degrees_spec:
  assumes "deps_wf d"
  shows "deg_of (in_degrees d) x = card (preds d x)"
    and "dom (map_of (in_degrees d)) = graph_nodes d"
    and "bmap_wf (in_degrees d)"
proof -
  have "\<forall>vs \<in> snd ` set d. distinct vs" using assms by (auto simp: deps_wf_def dest: bset_wf_distinct)
  note f = in_degrees_fold [OF this, of "[]" x, folded in_degrees_def, unfolded Let_def]
  have "distinct (map fst d)" using assms by (simp add: deps_wf_def bmap_wf_distinct)
  then show "deg_of (in_degrees d) x = card (preds d x)" using f card_preds by (simp add: deg_of_def)
  show "dom (map_of (in_degrees d)) = graph_nodes d"
    using f by (simp add: graph_nodes_def dom_map_of_conv_image_fst)
  show "bmap_wf (in_degrees d)" using f by simp
qed

lemma release_spec:
  "distinct ns \<Longrightarrow> set ns \<subseteq> dom (map_of m) \<Longrightarrow> \<forall>n \<in> set ns. 0 < deg_of m n \<Longrightarrow>
   \<exists>m'. release ns m q = Inr (m', q @ filter (\<lambda>n. deg_of m n = 1) ns) \<and>
     dom (map_of m') = dom (map_of m) \<and>
     (\<forall>x. deg_of m' x = deg_of m x - (if x \<in> set ns then 1 else 0))"
proof (induction ns arbitrary: m q)
  case (Cons n ns)
  obtain k where k: "map_of m n = Some (Suc k)"
    using Cons.prems by (auto simp: deg_of_def dom_def gr0_conv_Suc split: option.splits)
  let ?m = "bm_insert n k m"
  have f: "filter (\<lambda>n. deg_of ?m n = 1) ns = filter (\<lambda>n. deg_of m n = 1) ns"
    using Cons.prems(1) by (intro filter_cong) auto
  have "deg_of m n = Suc k" using k by (simp add: deg_of_def)
  have "distinct ns" "set ns \<subseteq> dom (map_of ?m)" "\<forall>n' \<in> set ns. 0 < deg_of ?m n'"
    using Cons.prems by (auto simp: insert_absorb)
  from Cons.IH [OF this, of "if k = 0 then q @ [n] else q"] obtain m' where m':
    "release ns ?m (if k = 0 then q @ [n] else q)
       = Inr (m', (if k = 0 then q @ [n] else q) @ filter (\<lambda>n. deg_of m n = 1) ns)"
    "dom (map_of m') = dom (map_of ?m)"
    "\<forall>x. deg_of m' x = deg_of ?m x - (if x \<in> set ns then 1 else 0)"
    unfolding f by blast
  have "n \<in> dom (map_of m)" using k by auto
  with m' k Cons.prems(1) \<open>deg_of m n = Suc k\<close> show ?case by (auto simp: insert_absorb)
qed simp

text \<open>
  The invariant of Kahn's loop: the counter of a node is the number of its dependents not yet
  emitted, the emitted and the queued nodes are those with counter zero, and every emitted node
  comes after all of its dependents.
\<close>

definition emitted_ok :: "'a deps \<Rightarrow> 'a list \<Rightarrow> bool" where
  "emitted_ok d out \<longleftrightarrow> (\<forall>xs x ys. out = xs @ x # ys \<longrightarrow> preds d x \<subseteq> set xs)"

definition kahn_inv :: "'a::linorder deps \<Rightarrow> ('a, nat) bmap \<Rightarrow> 'a list \<Rightarrow> 'a list \<Rightarrow> bool" where
  "kahn_inv d m q out \<longleftrightarrow>
     dom (map_of m) = graph_nodes d \<and> distinct (out @ q) \<and> emitted_ok d out \<and>
     (\<forall>x. deg_of m x = card (preds d x - set out)) \<and>
     set out \<union> set q = {x \<in> graph_nodes d. deg_of m x = 0}"

lemma emitted_ok_snoc: "emitted_ok d out \<Longrightarrow> preds d x \<subseteq> set out \<Longrightarrow> emitted_ok d (out @ [x])"
  unfolding emitted_ok_def
proof (intro allI impI)
  fix xs y ys
  assume o: "\<forall>xs x ys. out = xs @ x # ys \<longrightarrow> preds d x \<subseteq> set xs" "preds d x \<subseteq> set out"
    and e: "out @ [x] = xs @ y # ys"
  show "preds d y \<subseteq> set xs"
    using e o by (cases ys rule: rev_cases) auto
qed

lemma kahn_start:
  assumes "deps_wf d"
  shows "kahn_inv d (in_degrees d) (map fst (filter (\<lambda>(_, deg). deg = 0) (in_degrees d))) []"
proof -
  note i = in_degrees_spec [OF assms]
  let ?m = "in_degrees d"
  have "set (map fst (filter (\<lambda>(_, deg). deg = 0) ?m)) = {x \<in> graph_nodes d. deg_of ?m x = 0}"
    unfolding i(2) [symmetric] deg_of_def
    using bmap_wf_map_of [OF i(3)] by (force simp: image_iff split: option.splits)
  moreover have "distinct (map fst (filter (\<lambda>(_, deg). deg = 0) ?m))"
    using bmap_wf_distinct [OF i(3)] by (rule distinct_map_filter)
  ultimately show ?thesis using i by (simp add: kahn_inv_def emitted_ok_def)
qed

lemma kahn_step:
  assumes wf: "deps_wf d" and inv: "kahn_inv d m q out" and pop: "heap_pop q = Some (node, q')"
  shows "\<exists>m' q''. release (succs d node) m q' = Inr (m', q'') \<and> kahn_inv d m' q'' (out @ [node])"
proof -
  have q: "node \<in> set q" "q' = remove1 node q" using heap_pop_Some [OF pop] by auto
  have dm: "dom (map_of m) = graph_nodes d" and deg: "\<And>x. deg_of m x = card (preds d x - set out)"
    and oq: "set out \<union> set q = {x \<in> graph_nodes d. deg_of m x = 0}" and dist: "distinct (out @ q)"
    and em: "emitted_ok d out" using inv by (auto simp: kahn_inv_def)
  have no: "node \<notin> set out" using q dist by auto
  have n0: "deg_of m node = 0" using q oq by auto
  then have pn: "preds d node \<subseteq> set out" using deg [of node] by simp
  let ?ns = "succs d node"
  have "node \<in> preds d n - set out" if "n \<in> set ?ns" for n using that no by (simp add: preds_def)
  then have pos: "\<forall>n \<in> set ?ns. 0 < deg_of m n"
    unfolding deg card_gt_0_iff by fastforce
  have dn: "set ?ns \<subseteq> dom (map_of m)" using succs_nodes [of _ d node] by (auto simp only: dm)
  obtain m' where r: "release ?ns m q' = Inr (m', q' @ filter (\<lambda>n. deg_of m n = 1) ?ns)"
    and m': "dom (map_of m') = dom (map_of m)" "\<And>x. deg_of m' x = deg_of m x - (if x \<in> set ?ns then 1 else 0)"
    using release_spec [OF distinct_succs [OF wf] dn pos, of q'] by auto
  have card: "deg_of m' x = card (preds d x - set (out @ [node]))" for x
  proof -
    have e: "preds d x - set (out @ [node]) = (preds d x - set out) - {node}" by auto
    have "node \<in> preds d x - set out \<longleftrightarrow> x \<in> set ?ns" using no by (auto simp: preds_def)
    then show ?thesis unfolding e by (simp add: m' deg card_Diff_singleton_if)
  qed
  have sq: "set q' = set q - {node}" using q dist by simp
  have "set (out @ [node]) \<union> set (q' @ filter (\<lambda>n. deg_of m n = 1) ?ns) = {x \<in> graph_nodes d. deg_of m' x = 0}"
  proof -
    have "deg_of m' x = 0 \<longleftrightarrow> deg_of m x = 0 \<or> x \<in> set (filter (\<lambda>n. deg_of m n = 1) ?ns)" for x
    proof (cases "x \<in> set ?ns")
      case True
      with pos have "0 < deg_of m x" by blast
      with True show ?thesis by (simp add: m') linarith
    qed (simp add: m')
    then show ?thesis using oq q(1) succs_nodes [of _ d node] by (fastforce simp: sq)
  qed
  moreover have "distinct ((out @ [node]) @ q' @ filter (\<lambda>n. deg_of m n = 1) ?ns)"
  proof -
    have "x \<notin> set out \<union> set q" if "deg_of m x = 1" for x unfolding oq using that by simp
    then show ?thesis using dist no q distinct_succs [OF wf, of node] by (auto simp: distinct_remove1)
  qed
  ultimately have "kahn_inv d m' (q' @ filter (\<lambda>n. deg_of m n = 1) ?ns) (out @ [node])"
    using m' dm card emitted_ok_snoc [OF em pn] by (auto simp: kahn_inv_def)
  with r show ?thesis by blast
qed

lemma kahn_result:
  "deps_wf d \<Longrightarrow> kahn_inv d m q out \<Longrightarrow>
   \<exists>res. kahn d m q out = Inr res \<and> distinct res \<and> emitted_ok d res \<and>
     set res = {x \<in> graph_nodes d. preds d x \<subseteq> set res}"
proof (induction d m q out rule: kahn.induct)
  case (1 d m q out)
  show ?case
  proof (cases "heap_pop q")
    case None
    then have "q = []" by (simp add: heap_pop_def Let_def split: list.splits)
    have deg: "deg_of m x = 0 \<longleftrightarrow> preds d x \<subseteq> set out" for x
      using "1.prems"(2) by (auto simp: kahn_inv_def)
    have "set out \<union> set q = {x \<in> graph_nodes d. deg_of m x = 0}" "distinct (out @ q)" "emitted_ok d out"
      using "1.prems"(2) unfolding kahn_inv_def by blast+
    then have "set out = {x \<in> graph_nodes d. preds d x \<subseteq> set out}" "distinct out" "emitted_ok d out"
      unfolding deg \<open>q = []\<close> by (simp_all only: list.set Un_empty_right append_Nil2)
    moreover have "kahn d m q out = Inr out" using None by (subst kahn.simps) simp
    ultimately show ?thesis by blast
  next
    case (Some nq)
    obtain node q' where nq: "nq = (node, q')" by (cases nq)
    with Some have pop: "heap_pop q = Some (node, q')" by simp
    obtain m' q'' where r: "release (succs d node) m q' = Inr (m', q'')"
      and inv: "kahn_inv d m' q'' (out @ [node])" using kahn_step [OF "1.prems" pop] by blast
    have "kahn d m q out = kahn d m' q'' (out @ [node])" by (subst kahn.simps) (simp add: pop r)
    then show ?thesis using "1.IH" [OF Some nq [symmetric] r refl "1.prems"(1) inv] by (simp only:)
  qed
qed

lemma emitted_before:
  assumes "emitted_ok d res" and "distinct res" and "res = xs @ x # ys"
  shows "(y, x) \<in> (edges (succs d))\<^sup>+ \<Longrightarrow> y \<in> set xs"
proof -
  have p: "preds d z \<subseteq> set (takeWhile (\<lambda>u. u \<noteq> z) res)" if z: "z \<in> set res" for z
  proof -
    obtain as bs where ab: "res = as @ z # bs" "z \<notin> set as" using split_list_first [OF z] by blast
    then have "takeWhile (\<lambda>u. u \<noteq> z) res = as" by (auto simp: takeWhile_tail takeWhile_eq_all_conv)
    with ab assms(1) show ?thesis by (auto simp: emitted_ok_def)
  qed
  have sub: "set (takeWhile (\<lambda>u. u \<noteq> z) res) \<subseteq> set xs" if z: "z \<in> set xs" for z
  proof -
    obtain as bs where ab: "xs = as @ z # bs" "z \<notin> set as" using split_list_first [OF z] by blast
    then have "takeWhile (\<lambda>u. u \<noteq> z) res = as" using assms(3) by (auto simp: takeWhile_tail takeWhile_eq_all_conv)
    then show ?thesis using ab by auto
  qed
  assume "(y, x) \<in> (edges (succs d))\<^sup>+"
  then show "y \<in> set xs"
  proof (induction rule: converse_trancl_induct)
    case (base y)
    then show ?case using assms(1,3) by (auto simp: emitted_ok_def preds_def)
  next
    case (step y z)
    then have "y \<in> preds d z" by (simp add: preds_def)
    moreover have "z \<in> set res" using step assms(3) by auto
    ultimately show ?case using p [of z] sub [OF step.IH] by blast
  qed
qed

text \<open>A finite graph in which every node of \<open>U\<close> has a predecessor in \<open>U\<close> has a cycle above each.\<close>

lemma preds_cycle:
  assumes "U \<subseteq> graph_nodes d" and "\<And>x. x \<in> U \<Longrightarrow> \<exists>y \<in> preds d x. y \<in> U" and "x \<in> U"
  shows "\<exists>y. (y, y) \<in> (edges (succs d))\<^sup>+ \<and> (y, x) \<in> (edges (succs d))\<^sup>*"
proof (rule ccontr)
  assume none: "\<not> ?thesis"
  let ?E = "edges (succs d)"
  let ?A = "{y \<in> U. (y, x) \<in> ?E\<^sup>*}"
  let ?r = "?E \<inter> (?A \<times> ?A)"
  have "finite ?r" by (rule finite_subset [OF _ finite_edges [of d]]) blast
  moreover have "acyclic ?r"
  proof (rule acyclicI, rule allI, rule notI)
    fix y assume y: "(y, y) \<in> ?r\<^sup>+"
    then have "y \<in> ?A" by (meson IntE SigmaE2 tranclD)
    moreover have "(y, y) \<in> ?E\<^sup>+" using y trancl_mono by blast
    ultimately show False using none by blast
  qed
  ultimately have "wf ?r" by (rule finite_acyclic_wf)
  moreover have "x \<in> ?A" using assms(3) by simp
  ultimately obtain z where z: "z \<in> ?A" "\<And>y. (y, z) \<in> ?r \<Longrightarrow> y \<notin> ?A"
    by (metis (no_types, lifting) wfE_min)
  obtain y where y: "y \<in> preds d z" "y \<in> U" using assms(2) z by blast
  then have "(y, z) \<in> ?E" by (simp add: preds_def)
  with y z have "y \<in> ?A" by (auto intro: converse_rtrancl_into_rtrancl)
  with z \<open>(y, z) \<in> ?E\<close> show False by blast
qed

text \<open>The result: the nodes that no cycle leads to, each after everything it depends on.\<close>

lemma topological_sort_correct:
  assumes "deps_wf d"
  obtains res where "topological_sort d = Inr res" "distinct res"
    "set res = {x \<in> graph_nodes d. \<not> (\<exists>y. (y, y) \<in> (edges (succs d))\<^sup>+ \<and> (y, x) \<in> (edges (succs d))\<^sup>*)}"
    "\<And>xs x ys y. res = xs @ x # ys \<Longrightarrow> (y, x) \<in> (edges (succs d))\<^sup>+ \<Longrightarrow> y \<in> set ys"
proof -
  let ?E = "edges (succs d)"
  obtain out where k: "kahn d (in_degrees d) (map fst (filter (\<lambda>(_, deg). deg = 0) (in_degrees d))) [] = Inr out"
    and out: "distinct out" "emitted_ok d out" "set out = {x \<in> graph_nodes d. preds d x \<subseteq> set out}"
    using kahn_result [OF assms kahn_start [OF assms]] by blast
  have before: "y \<in> set xs" if "out = xs @ x # ys" "(y, x) \<in> ?E\<^sup>+" for xs x ys y
    using emitted_before [OF out(2,1) that] .
  have "\<not> ((y, y) \<in> ?E\<^sup>+ \<and> (y, x) \<in> ?E\<^sup>*)" if x: "x \<in> set out" for x y
  proof
    assume y: "(y, y) \<in> ?E\<^sup>+ \<and> (y, x) \<in> ?E\<^sup>*"
    then have "(y, x) \<in> ?E\<^sup>+" by auto
    obtain xs ys where "out = xs @ x # ys" using split_list [OF x] by blast
    from before [OF this \<open>(y, x) \<in> ?E\<^sup>+\<close>] have "y \<in> set out" using \<open>out = xs @ x # ys\<close> by simp
    then obtain as bs where ab: "out = as @ y # bs" using split_list by fast
    with before [OF ab] y have "y \<in> set as" by blast
    with ab out(1) show False by auto
  qed
  moreover have "x \<in> set out"
    if x: "x \<in> graph_nodes d" "\<not> (\<exists>y. (y, y) \<in> ?E\<^sup>+ \<and> (y, x) \<in> ?E\<^sup>*)" for x
  proof (rule ccontr)
    assume "x \<notin> set out"
    moreover have "\<exists>y \<in> preds d u. y \<in> graph_nodes d - set out" if "u \<in> graph_nodes d - set out" for u
      using that out(3) preds_nodes [of d u] by blast
    ultimately show False using x preds_cycle [of "graph_nodes d - set out" d x] by blast
  qed
  ultimately have "set (rev out) = {x \<in> graph_nodes d. \<not> (\<exists>y. (y, y) \<in> ?E\<^sup>+ \<and> (y, x) \<in> ?E\<^sup>*)}"
    using out(3) by auto
  moreover have "topological_sort d = Inr (rev out)"
    unfolding topological_sort_def Let_def k by simp
  moreover have "y \<in> set ys" if "rev out = xs @ x # ys" "(y, x) \<in> ?E\<^sup>+" for xs x ys y
  proof -
    from that(1) have "out = rev ys @ x # rev xs" by (metis append.assoc append_Cons append_Nil rev.simps(2) rev_append rev_rev_ident)
    from before [OF this that(2)] show ?thesis by simp
  qed
  ultimately show ?thesis using that out(1) by simp
qed

end
