(* ===== verification/Dag_Cycles.thy ===== *)
theory Dag_Cycles imports Dag_Order begin

text \<open>
  Detection and cutting of cycles and topological levels, from
  \<^verbatim>\<open>crates/dbt-dag/src/deps_mgmt.rs\<close>: a depth-first search reports the cycles of a graph, a fixed
  point loop cuts them, and \<^verbatim>\<open>topological_levels\<close> groups the nodes no cycle is reachable from.
\<close>

section \<open>Depth-first search for cycles\<close>

function dfs ::
    "'a::linorder deps \<Rightarrow> 'a list \<Rightarrow> 'a bset \<Rightarrow> 'a bset \<Rightarrow> 'a list list \<Rightarrow> 'a \<Rightarrow> 'a bset \<times> 'a list list"
  and dfs_neighbors ::
    "'a::linorder deps \<Rightarrow> 'a list \<Rightarrow> 'a bset \<Rightarrow> 'a bset \<Rightarrow> 'a list list \<Rightarrow> 'a list \<Rightarrow> 'a bset \<times> 'a list list" where
  "dfs graph stack stack_set visited cycles node =
     (if node \<in> set stack_set then (visited, cycles @ [dropWhile (\<lambda>n. n \<noteq> node) stack])
      else if node \<in> set visited then (visited, cycles)
      else (case map_of graph node of
              None \<Rightarrow> (bs_insert node visited, cycles)
            | Some neighbors \<Rightarrow>
                dfs_neighbors graph (stack @ [node]) (bs_insert node stack_set)
                  (bs_insert node visited) cycles (sort neighbors)))"
| "dfs_neighbors graph stack stack_set visited cycles [] = (visited, cycles)"
| "dfs_neighbors graph stack stack_set visited cycles (n # ns) =
     (case dfs graph stack stack_set visited cycles n of
        (visited', cycles') \<Rightarrow> dfs_neighbors graph stack stack_set visited' cycles' ns)"
  by pat_completeness auto
termination
proof (relation "measures
    [\<lambda>x. case x of Inl (g, s, ss, v, c, n) \<Rightarrow> unvisited g ss | Inr (g, s, ss, v, c, ns) \<Rightarrow> unvisited g ss,
     \<lambda>x. case x of Inl (g, s, ss, v, c, n) \<Rightarrow> 0 | Inr (g, s, ss, v, c, ns) \<Rightarrow> Suc (length ns)]", goal_cases)
  case (2 g s ss v c n ns)
  then show ?case using unvisited_less [of g n ss "bs_insert n ss"] by simp
qed auto

definition cycle_pass :: "'a::linorder deps \<Rightarrow> 'a list list \<Rightarrow> 'a list list" where
  "cycle_pass g cycles =
     snd (fold (\<lambda>node (visited, cs).
            if node \<in> set visited then (visited, cs) else dfs g [] [] visited cs node)
          (sort (bm_keys g)) ([], cycles))"

definition prune_cycle :: "'a::linorder list \<Rightarrow> 'a \<Rightarrow> 'a deps \<Rightarrow> 'a deps" where
  "prune_cycle cycle cut_point d =
     fold (\<lambda>node d. case map_of d node of
            None \<Rightarrow> d
          | Some neighbors \<Rightarrow> bm_insert node (bs_remove cut_point neighbors) d) cycle d"

definition cut_cycles ::
    "'a::linorder list list \<Rightarrow> 'a option list \<Rightarrow> 'a deps \<times> 'a deps \<Rightarrow> 'a deps \<times> 'a deps" where
  "cut_cycles cycles cut_points ds =
     fold (\<lambda>(cycle, cp) (res, all_cut).
        case cp of
          Some c \<Rightarrow> (prune_cycle cycle c res, prune_cycle cycle c all_cut)
        | None \<Rightarrow> (res, prune_cycle cycle (hd cycle) all_cut)) (zip cycles cut_points) ds"

definition is_cycle :: "'a deps \<Rightarrow> 'a list \<Rightarrow> bool" where
  "is_cycle g c \<longleftrightarrow>
     c \<noteq> [] \<and> successively (\<lambda>x y. y \<in> set (succs g x)) c \<and> hd c \<in> set (succs g (last c))"

text \<open>Every cycle the search reports is a cycle of the graph.\<close>

lemma dfs_sound:
  "set stack_set = set stack \<Longrightarrow> successively (\<lambda>x y. y \<in> set (succs g x)) (stack @ [node]) \<Longrightarrow>
   dfs g stack stack_set visited cycles node = (v', cs') \<Longrightarrow>
   \<exists>new. cs' = cycles @ new \<and> (\<forall>c \<in> set new. is_cycle g c)"
  "set stack_set = set stack \<Longrightarrow> stack \<noteq> [] \<Longrightarrow> successively (\<lambda>x y. y \<in> set (succs g x)) stack \<Longrightarrow>
   set ns \<subseteq> set (succs g (last stack)) \<Longrightarrow>
   dfs_neighbors g stack stack_set visited cycles ns = (v', cs') \<Longrightarrow>
   \<exists>new. cs' = cycles @ new \<and> (\<forall>c \<in> set new. is_cycle g c)"
proof (induction g stack stack_set visited cycles node and g stack stack_set visited cycles ns
    arbitrary: v' cs' and v' cs' rule: dfs_dfs_neighbors.induct)
  case (1 g stack stack_set visited cycles node)
  consider (found) "node \<in> set stack" | (known) "node \<notin> set stack" "node \<in> set visited"
    | (fresh) "node \<notin> set stack" "node \<notin> set visited" by blast
  then show ?case
  proof cases
    case found
    let ?c = "dropWhile (\<lambda>n. n \<noteq> node) stack"
    have ne: "?c \<noteq> []" using found by (simp add: dropWhile_eq_Nil_conv)
    have hd: "hd ?c = node" using hd_dropWhile [OF ne] by simp
    have st: "stack = takeWhile (\<lambda>n. n \<noteq> node) stack @ ?c" by simp
    have last: "last ?c = last stack" using ne st by (metis last_appendR)
    have "stack \<noteq> []" using found by auto
    then have "node \<in> set (succs g (last stack))" and s: "successively (\<lambda>x y. y \<in> set (succs g x)) stack"
      using "1.prems"(2) by (auto simp: successively_append_iff)
    moreover from s have "successively (\<lambda>x y. y \<in> set (succs g x)) ?c"
      by (metis st successively_append_iff)
    ultimately have "is_cycle g ?c" using ne hd last by (simp add: is_cycle_def)
    then show ?thesis using "1.prems"(1,3) found by auto
  next
    case known
    then show ?thesis using "1.prems" by auto
  next
    case fresh
    show ?thesis
    proof (cases "map_of g node")
      case None
      then show ?thesis using fresh "1.prems" by auto
    next
      case (Some ns)
      have "dfs_neighbors g (stack @ [node]) (bs_insert node stack_set) (bs_insert node visited) cycles (sort ns) = (v', cs')"
        using "1.prems" fresh Some by simp
      from "1.IH" [OF _ _ Some _ _ _ _ this] show ?thesis using "1.prems" fresh Some by simp
    qed
  qed
next
  case (2 g stack stack_set visited cycles)
  then show ?case by simp
next
  case (3 g stack stack_set visited cycles n ns)
  obtain v1 cs1 where d: "dfs g stack stack_set visited cycles n = (v1, cs1)" by fastforce
  have "successively (\<lambda>x y. y \<in> set (succs g x)) (stack @ [n])"
    using "3.prems" by (auto simp: successively_append_iff)
  from "3.IH"(1) [OF "3.prems"(1) this d] obtain new1
    where n1: "cs1 = cycles @ new1" "\<forall>c \<in> set new1. is_cycle g c" by blast
  have "dfs_neighbors g stack stack_set v1 cs1 ns = (v', cs')" using "3.prems"(5) d by simp
  from "3.IH"(2) [OF d [symmetric] "3.prems"(1-3) _ this] "3.prems"(4) obtain new2
    where "cs' = cs1 @ new2" "\<forall>c \<in> set new2. is_cycle g c" by auto
  with n1 show ?case by auto
qed

lemma is_cycle_mono:
  assumes "is_cycle g c" and "edges (succs g) \<subseteq> edges (succs h)"
  shows "is_cycle h c"
proof -
  have "y \<in> set (succs h x)" if "y \<in> set (succs g x)" for x y using assms(2) that by (metis edges_iff subsetD)
  then show ?thesis
    using assms(1) successively_mono [of "\<lambda>x y. y \<in> set (succs g x)" c "\<lambda>x y. y \<in> set (succs h x)"]
    by (auto simp: is_cycle_def)
qed

lemma successively_path:
  "successively (\<lambda>x y. y \<in> set (succs g x)) c \<Longrightarrow> c \<noteq> [] \<Longrightarrow> (hd c, last c) \<in> (edges (succs g))\<^sup>*"
proof (induction c)
  case (Cons x c)
  then show ?case by (cases c) (auto intro: converse_rtrancl_into_rtrancl [OF edges_iff [THEN iffD2]])
qed simp

lemma is_cycle_trancl: "is_cycle g c \<Longrightarrow> (hd c, hd c) \<in> (edges (succs g))\<^sup>+"
  using successively_path [of g c] by (auto simp: is_cycle_def intro: rtrancl_into_trancl1)

text \<open>The edge of a cycle that leads to a given node of it.\<close>

lemma is_cycle_pred:
  assumes "is_cycle g c" and "p \<in> set c"
  shows "\<exists>x \<in> set c. p \<in> set (succs g x)"
proof -
  obtain as bs where ab: "c = as @ p # bs" using split_list [OF assms(2)] by blast
  show ?thesis
  proof (cases as rule: rev_cases)
    case Nil
    then show ?thesis using assms(1) ab by (intro bexI [of _ "last c"]) (auto simp: is_cycle_def)
  next
    case (snoc as' x)
    then show ?thesis using assms(1) ab by (intro bexI [of _ x]) (auto simp: is_cycle_def successively_append_iff)
  qed
qed

lemma dfs_extends:
  "dfs g stack stack_set visited cycles node = (v', cs') \<Longrightarrow>
     (\<exists>new. cs' = cycles @ new) \<and> set visited \<subseteq> set v' \<and> (node \<in> set stack_set \<or> node \<in> set v')"
  "dfs_neighbors g stack stack_set visited cycles ns = (v', cs') \<Longrightarrow>
     (\<exists>new. cs' = cycles @ new) \<and> set visited \<subseteq> set v'"
proof (induction g stack stack_set visited cycles node and g stack stack_set visited cycles ns
    arbitrary: v' cs' and v' cs' rule: dfs_dfs_neighbors.induct)
  case (1 g stack stack_set visited cycles node)
  show ?case
  proof (cases "node \<in> set stack_set \<or> node \<in> set visited \<or> map_of g node = None")
    case True
    then show ?thesis using "1.prems" by (cases "node \<in> set stack_set"; cases "node \<in> set visited") auto
  next
    case False
    then obtain ns where ns: "map_of g node = Some ns" by auto
    with False "1.prems" have
      "dfs_neighbors g (stack @ [node]) (bs_insert node stack_set) (bs_insert node visited) cycles (sort ns) = (v', cs')"
      by simp
    from "1.IH" [OF _ _ ns this] False show ?thesis by auto
  qed
next
  case (3 g stack stack_set visited cycles n ns)
  obtain v1 cs1 where d: "dfs g stack stack_set visited cycles n = (v1, cs1)" by fastforce
  with "3.prems" have "dfs_neighbors g stack stack_set v1 cs1 ns = (v', cs')" by simp
  from "3.IH"(2) [OF d [symmetric] this] "3.IH"(1) [OF d] show ?case by auto
qed simp

text \<open>A closed set of finished nodes, none of them on a cycle.\<close>

definition finished :: "'a deps \<Rightarrow> 'a set \<Rightarrow> bool" where
  "finished g F \<longleftrightarrow> (\<forall>x \<in> F. set (succs g x) \<subseteq> F \<and> (x, x) \<notin> (edges (succs g))\<^sup>+)"

lemma finished_path: "finished g F \<Longrightarrow> x \<in> F \<Longrightarrow> (x, y) \<in> (edges (succs g))\<^sup>* \<Longrightarrow> y \<in> F"
  by (rotate_tac 2, induction rule: rtrancl_induct) (auto simp: finished_def)

lemma finished_insert:
  assumes "finished g F" and "x \<notin> F" and "set (succs g x) \<subseteq> F"
  shows "finished g (insert x F)"
proof -
  have "(x, x) \<notin> (edges (succs g))\<^sup>+"
  proof
    assume "(x, x) \<in> (edges (succs g))\<^sup>+"
    then obtain y where "y \<in> set (succs g x)" "(y, x) \<in> (edges (succs g))\<^sup>*" by (auto dest: tranclD)
    then show False using finished_path [OF assms(1)] assms(2,3) by blast
  qed
  then show ?thesis using assms by (auto simp: finished_def)
qed

text \<open>A search that reports nothing finishes the node it starts from.\<close>

lemma dfs_complete:
  "set stack_set \<subseteq> set visited \<Longrightarrow> finished g (set visited - set stack_set) \<Longrightarrow>
   dfs g stack stack_set visited cycles node = (v', cycles) \<Longrightarrow>
   node \<in> set v' - set stack_set \<and> finished g (set v' - set stack_set)"
  "set stack_set \<subseteq> set visited \<Longrightarrow> finished g (set visited - set stack_set) \<Longrightarrow>
   dfs_neighbors g stack stack_set visited cycles ns = (v', cycles) \<Longrightarrow>
   set ns \<subseteq> set v' - set stack_set \<and> finished g (set v' - set stack_set)"
proof (induction g stack stack_set visited cycles node and g stack stack_set visited cycles ns
    arbitrary: v' and v' rule: dfs_dfs_neighbors.induct)
  case (1 g stack stack_set visited cycles node)
  have ns: "node \<notin> set stack_set" using "1.prems"(3) by auto
  show ?case
  proof (cases "node \<in> set visited")
    case True
    with ns "1.prems" show ?thesis by auto
  next
    case False
    show ?thesis
    proof (cases "map_of g node")
      case None
      then have "v' = bs_insert node visited" using "1.prems"(3) ns False by auto
      moreover have "insert node (set visited) - set stack_set = insert node (set visited - set stack_set)"
        using ns by auto
      ultimately show ?thesis
        using finished_insert [OF "1.prems"(2), of node] ns False None by simp
    next
      case (Some vs)
      have d: "dfs_neighbors g (stack @ [node]) (bs_insert node stack_set) (bs_insert node visited) cycles (sort vs)
           = (v', cycles)" using "1.prems"(3) ns False Some by simp
      have "set (bs_insert node visited) - set (bs_insert node stack_set) = set visited - set stack_set"
        using False by auto
      then have "set (sort vs) \<subseteq> set v' - set (bs_insert node stack_set)"
        and f: "finished g (set v' - set (bs_insert node stack_set))"
        using "1.IH" [OF ns False Some _ _ d] "1.prems"(1,2) by auto
      then have s: "set (succs g node) \<subseteq> set v' - insert node (set stack_set)" using Some by auto
      have nv: "node \<in> set v'" using dfs_extends(2) [OF d] by auto
      have "set v' - set stack_set = insert node (set v' - set (bs_insert node stack_set))"
        using nv ns by auto
      then show ?thesis using finished_insert [OF f] s nv ns by auto
    qed
  qed
next
  case (3 g stack stack_set visited cycles n ns)
  obtain v1 cs1 where d: "dfs g stack stack_set visited cycles n = (v1, cs1)" by fastforce
  with "3.prems"(3) have ds: "dfs_neighbors g stack stack_set v1 cs1 ns = (v', cycles)" by simp
  have "cs1 = cycles" using dfs_extends(1) [OF d] dfs_extends(2) [OF ds] by auto
  note d = d [unfolded this] and ds = ds [unfolded this]
  have n: "n \<in> set v1 - set stack_set" "finished g (set v1 - set stack_set)"
    using "3.IH"(1) [OF "3.prems"(1,2) d] by auto
  have "set stack_set \<subseteq> set v1" using dfs_extends(1) [OF d] "3.prems"(1) by auto
  from "3.IH"(2) [OF _ this n(2), of cycles v'] d ds n(1) dfs_extends(2) [OF ds]
  show ?case by auto
qed auto

lemma cycle_pass_fold:
  assumes "fold (\<lambda>node (visited, cs).
            if node \<in> set visited then (visited, cs) else dfs g [] [] visited cs node) ks (v, cycles) = (v', cs')"
  shows "\<exists>new. cs' = cycles @ new \<and> (\<forall>c \<in> set new. is_cycle g c) \<and> set v \<subseteq> set v' \<and>
     (new = [] \<longrightarrow> finished g (set v) \<longrightarrow> set ks \<subseteq> set v' \<and> finished g (set v'))"
  using assms
proof (induction ks arbitrary: v cycles)
  case (Cons k ks)
  show ?case
  proof (cases "k \<in> set v")
    case True
    with Cons.IH [of v cycles] Cons.prems show ?thesis by auto
  next
    case False
    obtain v1 cs1 where d: "dfs g [] [] v cycles k = (v1, cs1)" by fastforce
    obtain new1 where n1: "cs1 = cycles @ new1" "\<forall>c \<in> set new1. is_cycle g c"
      using dfs_sound(1) [OF _ _ d] by auto
    obtain new2 where n2: "cs' = cs1 @ new2" "\<forall>c \<in> set new2. is_cycle g c" "set v1 \<subseteq> set v'"
      "new2 = [] \<longrightarrow> finished g (set v1) \<longrightarrow> set ks \<subseteq> set v' \<and> finished g (set v')"
      using Cons.IH [of v1 cs1] Cons.prems False d by auto
    have "k \<in> set v1 \<and> finished g (set v1)" if "new1 = []" "finished g (set v)"
      using dfs_complete(1) [of "[]" v g "[]" cycles k v1] d n1 that by simp
    then show ?thesis using n1 n2 dfs_extends(1) [OF d] by auto
  qed
qed auto

lemma cycle_pass_spec:
  obtains new where "cycle_pass g cycles = cycles @ new" "\<forall>c \<in> set new. is_cycle g c"
    "new = [] \<longleftrightarrow> acyclic (edges (succs g))"
proof -
  obtain v' cs' where f: "fold (\<lambda>node (visited, cs).
      if node \<in> set visited then (visited, cs) else dfs g [] [] visited cs node) (sort (bm_keys g)) ([], cycles)
      = (v', cs')" by fastforce
  obtain new where new: "cs' = cycles @ new" "\<forall>c \<in> set new. is_cycle g c"
    "new = [] \<longrightarrow> dom (map_of g) \<subseteq> set v' \<and> finished g (set v')"
    using cycle_pass_fold [OF f] by (auto simp: finished_def)
  have "acyclic (edges (succs g))" if "new = []"
  proof (rule acyclicI, rule allI, rule notI)
    fix x assume x: "(x, x) \<in> (edges (succs g))\<^sup>+"
    then have "x \<in> dom (map_of g)" using succs_key by (fastforce dest: tranclD)
    with new(3) that x show False by (auto simp: finished_def)
  qed
  moreover have "new = []" if "acyclic (edges (succs g))"
  proof (rule ccontr)
    assume "new \<noteq> []"
    then have "is_cycle g (hd new)" using new(2) by simp
    then show False using that is_cycle_trancl by (auto simp: acyclic_def)
  qed
  moreover have "cycle_pass g cycles = cs'" by (simp add: cycle_pass_def f)
  ultimately show ?thesis using that new by blast
qed

section \<open>Cutting\<close>

lemma set_succs_prune:
  "set (succs (prune_cycle c p d) x) = (if x \<in> set c then set (succs d x) - {p} else set (succs d x))"
  unfolding prune_cycle_def
proof (induction c arbitrary: d)
  case (Cons n c)
  show ?case
  proof (cases "map_of d n")
    case None
    with Cons [of d] show ?thesis by auto
  next
    case (Some vs)
    with Cons [of "bm_insert n (bs_remove p vs) d"] show ?thesis by auto
  qed
qed simp

lemma edges_prune: "edges (succs (prune_cycle c p d)) = edges (succs d) - set c \<times> {p}"
  by (auto simp: edges_def set_succs_prune split: if_splits)

lemma edges_cut_cycles:
  "length cps = length cycles \<Longrightarrow>
   edges (succs (fst (cut_cycles cycles cps (res, acut)))) =
     edges (succs res) - (\<Union>(c, cp) \<in> set (zip cycles cps). set c \<times> set_option cp) \<and>
   edges (succs (snd (cut_cycles cycles cps (res, acut)))) =
     edges (succs acut) - (\<Union>(c, cp) \<in> set (zip cycles cps). set c \<times> {case cp of Some p \<Rightarrow> p | None \<Rightarrow> hd c})"
  unfolding cut_cycles_def
proof (induction cycles cps arbitrary: res acut rule: list_induct2')
  case (4 c cycles cp cps)
  show ?case
  proof (cases cp)
    case None
    with 4 show ?thesis by (simp add: edges_prune Diff_eq Int_assoc ac_simps)
  next
    case (Some p)
    with 4 show ?thesis by (simp add: edges_prune Diff_eq Int_assoc ac_simps)
  qed
qed auto

text \<open>Cutting a reported cycle removes one of its edges, so every round of the loop shrinks the graph.\<close>

lemma cut_cycles_less:
  assumes "\<forall>c \<in> set new. is_cycle acut c" and "new \<noteq> []"
  shows "card (edges (succs (snd (cut_cycles new (map (find pred) new) (res, acut))))) < card (edges (succs acut))"
proof -
  obtain c cs where new: "new = c # cs" using assms(2) by (cases new) auto
  define p where "p = (case find pred c of Some p \<Rightarrow> p | None \<Rightarrow> hd c)"
  have c: "is_cycle acut c" using assms(1) new by simp
  then have "p \<in> set c" by (auto simp: p_def is_cycle_def find_Some_iff split: option.splits)
  then obtain x where "x \<in> set c" "p \<in> set (succs acut x)" using is_cycle_pred [OF c] by blast
  then have "(x, p) \<in> edges (succs acut)" "(x, p) \<in> set c \<times> {p}" by auto
  then show ?thesis
    using edges_cut_cycles [of "map (find pred) new" new res acut]
    by (intro psubset_card_mono) (auto simp: new p_def)
qed

function cut_loop ::
    "('a::linorder \<Rightarrow> bool) \<Rightarrow> 'a list list \<Rightarrow> 'a option list \<Rightarrow> 'a deps \<Rightarrow> 'a deps \<Rightarrow>
     'a list list \<times> 'a option list \<times> 'a deps" where
  "cut_loop pred cycles res_cut_points res_deps all_cut =
     (let cycles' = cycle_pass all_cut cycles in
      if length cycles = length cycles' then (cycles', res_cut_points, res_deps)
      else (let new = drop (length cycles) cycles';
                cut_points = map (find pred) new;
                ds = cut_cycles new cut_points (res_deps, all_cut)
            in cut_loop pred cycles' (res_cut_points @ cut_points) (fst ds) (snd ds)))"
  by pat_completeness auto
termination
proof (relation "measure (\<lambda>(p, c, r, d, a). card (edges (succs a)))", goal_cases)
  case (2 pred cycles rcp res all_cut cycles' new cut_points ds)
  obtain new' where new': "cycle_pass all_cut cycles = cycles @ new'" "\<forall>c \<in> set new'. is_cycle all_cut c"
    by (rule cycle_pass_spec [of all_cut cycles])
  have c: "cycles' = cycles @ new'" by (rule trans [OF 2(1) new'(1)])
  have n: "new = new'" using 2(3) unfolding c by simp
  have ne: "new' \<noteq> []" using 2(2) unfolding c by auto
  have ds: "ds = cut_cycles new' (map (find pred) new') (res, all_cut)"
    using 2(5) unfolding 2(4) n .
  show ?case using cut_cycles_less [OF new'(2) ne, of pred res] unfolding ds by (simp add: case_prod_beta)
qed simp

declare cut_loop.simps [simp del]

definition find_and_cut_cycles ::
    "'a::linorder deps \<Rightarrow> ('a \<Rightarrow> bool) \<Rightarrow> 'a list list \<times> 'a option list \<times> 'a deps" where
  "find_and_cut_cycles d cut_point_predicate = cut_loop cut_point_predicate [] [] d d"

definition get_cycle_cut_points :: "'a::linorder deps \<Rightarrow> ('a \<Rightarrow> bool) \<Rightarrow> 'a option list" where
  "get_cycle_cut_points d cut_point_predicate = fst (snd (find_and_cut_cycles d cut_point_predicate))"

lemma cut_loop_spec:
  "cut_loop pred cycles cps res acut = (cycles', cps', res') \<Longrightarrow>
   edges (succs acut) \<subseteq> edges (succs d) \<Longrightarrow> \<forall>c \<in> set cycles. is_cycle d c \<Longrightarrow>
   cps = map (find pred) cycles \<Longrightarrow>
   edges (succs res) = edges (succs d) - (\<Union>c \<in> set cycles. set c \<times> set_option (find pred c)) \<Longrightarrow>
   (None \<notin> set cps \<longrightarrow> edges (succs res) = edges (succs acut)) \<Longrightarrow>
   (\<exists>new. cycles' = cycles @ new \<and> (new = [] \<longleftrightarrow> acyclic (edges (succs acut)))) \<and>
   (\<forall>c \<in> set cycles'. is_cycle d c) \<and>
   cps' = map (find pred) cycles' \<and>
   edges (succs res') = edges (succs d) - (\<Union>c \<in> set cycles'. set c \<times> set_option (find pred c)) \<and>
   (None \<notin> set cps' \<longrightarrow> acyclic (edges (succs res')))"
proof (induction pred cycles cps res acut arbitrary: cycles' cps' res' rule: cut_loop.induct)
  case (1 pred cycles cps res acut)
  obtain new where new: "cycle_pass acut cycles = cycles @ new" "\<forall>c \<in> set new. is_cycle acut c"
    "new = [] \<longleftrightarrow> acyclic (edges (succs acut))" using cycle_pass_spec by blast
  show ?case
  proof (cases "new = []")
    case True
    then have "(cycles', cps', res') = (cycles, cps, res)"
      using "1.prems"(1) new(1) by (subst (asm) cut_loop.simps) simp
    then show ?thesis using "1.prems" True new(3) by auto
  next
    case False
    let ?cps = "map (find pred) new"
    let ?ds = "cut_cycles new ?cps (res, acut)"
    have l: "length cycles \<noteq> length (cycle_pass acut cycles)" using new(1) False by simp
    have dr: "drop (length cycles) (cycle_pass acut cycles) = new" using new(1) by simp
    have rec: "cut_loop pred (cycles @ new) (cps @ ?cps) (fst ?ds) (snd ?ds) = (cycles', cps', res')"
      using "1.prems"(1) l by (subst (asm) cut_loop.simps) (simp add: Let_def dr new(1))
    note e = edges_cut_cycles [of ?cps new res acut, simplified]
    have acut: "edges (succs (snd ?ds)) \<subseteq> edges (succs d)" using e "1.prems"(2) by blast
    have cyc: "\<forall>c \<in> set (cycles @ new). is_cycle d c"
      using "1.prems"(3) new(2) is_cycle_mono [OF _ "1.prems"(2)] by auto
    have z: "set (zip new ?cps) = (\<lambda>c. (c, find pred c)) ` set new"
      by (induction new) auto
    have res: "edges (succs (fst ?ds)) =
        edges (succs d) - (\<Union>c \<in> set (cycles @ new). set c \<times> set_option (find pred c))"
      using e "1.prems"(5) unfolding z by auto
    have same: "None \<notin> set (cps @ ?cps) \<longrightarrow> edges (succs (fst ?ds)) = edges (succs (snd ?ds))"
    proof
      assume n: "None \<notin> set (cps @ ?cps)"
      then have "edges (succs res) = edges (succs acut)" using "1.prems"(6) by simp
      moreover have "set_option (find pred c) = {case find pred c of Some p \<Rightarrow> p | None \<Rightarrow> hd c}"
        if "c \<in> set new" for c
      proof -
        have "find pred c \<in> set (cps @ ?cps)" using that by simp
        with n have "find pred c \<noteq> None" by metis
        then show ?thesis by auto
      qed
      ultimately show "edges (succs (fst ?ds)) = edges (succs (snd ?ds))" using e unfolding z by auto
    qed
    have m: "cps @ ?cps = map (find pred) (cycles @ new)" using "1.prems"(4) by simp
    have IH: "(\<exists>new'. cycles' = (cycles @ new) @ new' \<and> (new' = [] \<longleftrightarrow> acyclic (edges (succs (snd ?ds))))) \<and>
       (\<forall>c \<in> set cycles'. is_cycle d c) \<and> cps' = map (find pred) cycles' \<and>
       edges (succs res') = edges (succs d) - (\<Union>c \<in> set cycles'. set c \<times> set_option (find pred c)) \<and>
       (None \<notin> set cps' \<longrightarrow> acyclic (edges (succs res')))"
      using "1.IH" [OF refl l dr [symmetric] refl refl, unfolded new(1), OF rec acut cyc m res same] .
    then show ?thesis using new(3) False by auto
  qed
qed

lemma find_and_cut_cycles_correct:
  assumes "find_and_cut_cycles d pred = (cycles, cut_points, res)"
  shows "\<forall>c \<in> set cycles. is_cycle d c"
    and "cycles = [] \<longleftrightarrow> acyclic (edges (succs d))"
    and "cut_points = map (find pred) cycles"
    and "edges (succs res) = edges (succs d) - (\<Union>c \<in> set cycles. set c \<times> set_option (find pred c))"
    and "None \<notin> set cut_points \<Longrightarrow> acyclic (edges (succs res))"
  using cut_loop_spec [OF assms [unfolded find_and_cut_cycles_def], of d] by auto

section \<open>Topological levels\<close>

text \<open>
  \<^verbatim>\<open>compute_level\<close> threads the table of levels and the set of cycle nodes. The stack is inserted into
  on entry and removed from on every exit, so it is an argument of the recursive call here.
\<close>

function compute_level ::
    "'a::linorder deps \<Rightarrow> 'a bset \<Rightarrow> ('a, nat) bmap \<Rightarrow> 'a bset \<Rightarrow> 'a \<Rightarrow>
     nat option \<times> ('a, nat) bmap \<times> 'a bset"
  and compute_max ::
    "'a::linorder deps \<Rightarrow> 'a bset \<Rightarrow> ('a, nat) bmap \<Rightarrow> 'a bset \<Rightarrow> 'a list \<Rightarrow> nat \<Rightarrow>
     nat option \<times> ('a, nat) bmap \<times> 'a bset" where
  "compute_level d stack levels_map cycle_nodes node =
     (case map_of levels_map node of
        Some lvl \<Rightarrow> (Some lvl, levels_map, cycle_nodes)
      | None \<Rightarrow>
          if node \<in> set stack then (None, levels_map, bs_insert node cycle_nodes)
          else (case map_of d node of
                  None \<Rightarrow> (Some 0, bm_insert node 0 levels_map, cycle_nodes)
                | Some neighbors \<Rightarrow>
                    if neighbors = [] then (Some 0, bm_insert node 0 levels_map, cycle_nodes)
                    else (case compute_max d (bs_insert node stack) levels_map cycle_nodes neighbors 0 of
                            (Some max_level, levels', cycles') \<Rightarrow>
                              (Some (1 + max_level), bm_insert node (1 + max_level) levels', cycles')
                          | (None, levels', cycles') \<Rightarrow> (None, levels', bs_insert node cycles'))))"
| "compute_max d stack levels_map cycle_nodes [] max_level = (Some max_level, levels_map, cycle_nodes)"
| "compute_max d stack levels_map cycle_nodes (n # ns) max_level =
     (case compute_level d stack levels_map cycle_nodes n of
        (Some dep_level, levels', cycles') \<Rightarrow>
          compute_max d stack levels' cycles' ns (max max_level dep_level)
      | (None, levels', cycles') \<Rightarrow> (None, levels', cycles'))"
  by pat_completeness auto
termination
proof (relation "measures
    [\<lambda>x. case x of Inl (d, s, l, c, n) \<Rightarrow> unvisited d s | Inr (d, s, l, c, ns, m) \<Rightarrow> unvisited d s,
     \<lambda>x. case x of Inl (d, s, l, c, n) \<Rightarrow> 0 | Inr (d, s, l, c, ns, m) \<Rightarrow> Suc (length ns)]", goal_cases)
  case (2 d stack l c node neighbors)
  then show ?case using unvisited_less [of d node stack "bs_insert node stack"] by simp
qed auto

definition levels_of :: "'a::linorder deps \<Rightarrow> ('a, nat) bmap \<times> 'a bset" where
  "levels_of d = fold (\<lambda>node (levels, cycles). snd (compute_level d [] levels cycles node)) (bm_keys d) ([], [])"

definition group_level :: "'a \<times> nat \<Rightarrow> (nat, 'a list) bmap \<Rightarrow> (nat, 'a list) bmap" where
  "group_level nl grouped = bm_insert (snd nl)
     ((case map_of grouped (snd nl) of None \<Rightarrow> [] | Some ns \<Rightarrow> ns) @ [fst nl]) grouped"

definition topological_levels :: "'a::linorder deps \<Rightarrow> 'a list list" where
  "topological_levels d =
     (case levels_of d of
        (levels_map, cycle_nodes) \<Rightarrow>
          map snd (fold (\<lambda>(node, lvl) grouped.
            if node \<notin> set cycle_nodes then group_level (node, lvl) grouped else grouped) levels_map []))"

text \<open>The level of a node: zero without dependencies, else one more than its highest dependency.\<close>

inductive has_level :: "'a deps \<Rightarrow> 'a \<Rightarrow> nat \<Rightarrow> bool" for d where
  leaf: "succs d x = [] \<Longrightarrow> has_level d x 0"
| above: "succs d x \<noteq> [] \<Longrightarrow> (\<And>y. y \<in> set (succs d x) \<Longrightarrow> has_level d y (f y)) \<Longrightarrow>
    has_level d x (Suc (Max (f ` set (succs d x))))"

inductive_cases has_level_SucE: "has_level d x (Suc n)"

definition meets_cycle :: "'a deps \<Rightarrow> 'a \<Rightarrow> bool" where
  "meets_cycle d x \<longleftrightarrow> (\<exists>y. (x, y) \<in> (edges (succs d))\<^sup>* \<and> (y, y) \<in> (edges (succs d))\<^sup>+)"

lemma meets_cycle_step: "y \<in> set (succs d x) \<Longrightarrow> meets_cycle d y \<Longrightarrow> meets_cycle d x"
  unfolding meets_cycle_def by (metis converse_rtrancl_into_rtrancl edges_iff)

lemma has_level_unique: "has_level d x n \<Longrightarrow> has_level d x m \<Longrightarrow> n = m"
proof (induction arbitrary: m rule: has_level.induct)
  case (leaf x)
  from leaf(2,1) show ?case by cases auto
next
  case (above x f)
  from above.prems above.hyps(1) obtain g where
    g: "m = Suc (Max (g ` set (succs d x)))" "\<And>y. y \<in> set (succs d x) \<Longrightarrow> has_level d y (g y)"
    by cases auto
  have "f ` set (succs d x) = g ` set (succs d x)" using above.IH g(2) by (intro image_cong) auto
  then show ?case using g(1) by simp
qed

lemma has_level_below:
  "has_level d x (Suc n) \<Longrightarrow> \<exists>y \<in> set (succs d x). has_level d y n"
proof (erule has_level_SucE)
  fix f
  assume n: "n = Max (f ` set (succs d x))" and ne: "succs d x \<noteq> []"
    and f: "\<And>y. y \<in> set (succs d x) \<Longrightarrow> has_level d y (f y)"
  have "n \<in> f ` set (succs d x)" unfolding n using ne by (intro Max_in) auto
  then show ?thesis using f by auto
qed

lemma has_level_path:
  "has_level d x n \<Longrightarrow> (x, y) \<in> (edges (succs d))\<^sup>+ \<Longrightarrow> \<exists>m < n. has_level d y m"
proof (induction arbitrary: y rule: has_level.induct)
  case (leaf x)
  then show ?case by (auto dest: tranclD)
next
  case (above x f)
  from above.prems obtain z where z: "z \<in> set (succs d x)" "(z, y) \<in> (edges (succs d))\<^sup>*"
    by (auto dest: tranclD)
  have le: "f z < Suc (Max (f ` set (succs d x)))" using z(1) by (simp add: le_imp_less_Suc)
  show ?case
  proof (cases "z = y")
    case True
    then show ?thesis using le above.hyps(2) z(1) by blast
  next
    case False
    then have "(z, y) \<in> (edges (succs d))\<^sup>+" using z(2) by (metis rtranclD)
    then obtain m where "m < f z" "has_level d y m" using above.IH [OF z(1)] by blast
    then show ?thesis using le by (meson order_less_trans)
  qed
qed

lemma has_level_no_cycle: "has_level d x n \<Longrightarrow> \<not> meets_cycle d x"
proof
  assume l: "has_level d x n" and "meets_cycle d x"
  then obtain y where y: "(x, y) \<in> (edges (succs d))\<^sup>*" "(y, y) \<in> (edges (succs d))\<^sup>+"
    by (auto simp: meets_cycle_def)
  then have "(x, y) \<in> (edges (succs d))\<^sup>+" by auto
  then obtain m where "has_level d y m" using has_level_path [OF l] by blast
  with y(2) show False using has_level_path has_level_unique by (metis nat_neq_iff)
qed

definition levels_ok :: "'a::linorder deps \<Rightarrow> ('a, nat) bmap \<Rightarrow> 'a bset \<Rightarrow> bool" where
  "levels_ok d l c \<longleftrightarrow> bmap_wf l \<and> (\<forall>n v. map_of l n = Some v \<longrightarrow> n \<in> graph_nodes d \<and> has_level d n v) \<and>
     (\<forall>n \<in> set c. meets_cycle d n)"

lemma levels_ok_insert:
  "levels_ok d l c \<Longrightarrow> n \<in> graph_nodes d \<Longrightarrow> has_level d n v \<Longrightarrow> levels_ok d (bm_insert n v l) c"
  by (simp add: levels_ok_def)

lemma levels_ok_cycle: "levels_ok d l c \<Longrightarrow> meets_cycle d n \<Longrightarrow> levels_ok d l (bs_insert n c)"
  by (simp add: levels_ok_def)

definition level_result :: "'a deps \<Rightarrow> 'a \<Rightarrow> ('a, nat) bmap \<Rightarrow> nat option \<Rightarrow> bool" where
  "level_result d n l r \<longleftrightarrow>
     (case r of Some v \<Rightarrow> has_level d n v \<and> map_of l n = Some v | None \<Rightarrow> meets_cycle d n)"

lemma compute_level_correct:
  "levels_ok d l c \<Longrightarrow> node \<in> graph_nodes d \<Longrightarrow> (\<forall>s \<in> set stack. (s, node) \<in> (edges (succs d))\<^sup>+) \<Longrightarrow>
   compute_level d stack l c node = (r, l', c') \<Longrightarrow>
   levels_ok d l' c' \<and> dom (map_of l) \<subseteq> dom (map_of l') \<and> level_result d node l' r"
  "levels_ok d l c \<Longrightarrow> set ns \<subseteq> graph_nodes d \<Longrightarrow>
   (\<forall>s \<in> set stack. \<forall>n \<in> set ns. (s, n) \<in> (edges (succs d))\<^sup>+) \<Longrightarrow>
   compute_max d stack l c ns acc = (r, l', c') \<Longrightarrow>
   levels_ok d l' c' \<and> dom (map_of l) \<subseteq> dom (map_of l') \<and>
   (case r of Some m \<Rightarrow> \<exists>f. (\<forall>n \<in> set ns. has_level d n (f n)) \<and> m = Max (insert acc (f ` set ns))
    | None \<Rightarrow> \<exists>n \<in> set ns. meets_cycle d n)"
proof (induction d stack l c node and d stack l c ns acc
    arbitrary: r l' c' and r l' c' rule: compute_level_compute_max.induct)
  case (1 d stack l c node)
  show ?case
  proof (cases "map_of l node")
    case (Some v)
    then have "r = Some v" "l' = l" "c' = c" using "1.prems"(4) by simp_all
    moreover have "has_level d node v" using "1.prems"(1) Some by (simp add: levels_ok_def)
    ultimately show ?thesis using "1.prems"(1) Some by (simp add: level_result_def)
  next
    case l: None
    show ?thesis
    proof (cases "node \<in> set stack")
      case True
      then have "meets_cycle d node" using "1.prems"(3) by (auto simp: meets_cycle_def)
      then show ?thesis using "1.prems"(1,4) l True levels_ok_cycle by (auto simp: level_result_def)
    next
      case st: False
      show ?thesis
      proof (cases "succs d node = []")
        case True
        then have "has_level d node 0" by (rule leaf)
        moreover have "(r, l', c') = (Some 0, bm_insert node 0 l, c)"
          using "1.prems"(4) l st True by (cases "map_of d node") auto
        ultimately show ?thesis using levels_ok_insert [OF "1.prems"(1,2)] by (auto simp: level_result_def)
      next
        case False
        then obtain vs where vs: "map_of d node = Some vs" "vs \<noteq> []" by (cases "map_of d node") auto
        obtain r1 l1 c1 where m: "compute_max d (bs_insert node stack) l c vs 0 = (r1, l1, c1)"
          by (metis prod.exhaust)
        have "set vs \<subseteq> graph_nodes d" using succs_nodes [of _ d node] vs by auto
        moreover have "(s, n) \<in> (edges (succs d))\<^sup>+" if "s \<in> set (bs_insert node stack)" "n \<in> set vs" for s n
        proof -
          have e: "(node, n) \<in> edges (succs d)" using that(2) vs by simp
          show ?thesis
          proof (cases "s = node")
            case False
            then have "(s, node) \<in> (edges (succs d))\<^sup>+" using that(1) "1.prems"(3) by auto
            then show ?thesis using e by (rule trancl_into_trancl)
          qed (use e in blast)
        qed
        ultimately have IH: "levels_ok d l1 c1" "dom (map_of l) \<subseteq> dom (map_of l1)"
          "case r1 of Some m \<Rightarrow> \<exists>f. (\<forall>n \<in> set vs. has_level d n (f n)) \<and> m = Max (insert 0 (f ` set vs))
            | None \<Rightarrow> \<exists>n \<in> set vs. meets_cycle d n"
          using "1.IH" [OF l st vs "1.prems"(1) _ _ m] by auto
        show ?thesis
        proof (cases r1)
          case None
          then obtain n where "n \<in> set vs" "meets_cycle d n" using IH(3) by auto
          then have "meets_cycle d node" using meets_cycle_step [of n d node] vs by simp
          moreover have "(r, l', c') = (None, l1, bs_insert node c1)"
            using "1.prems"(4) l st vs m None by simp
          ultimately show ?thesis using IH levels_ok_cycle by (simp add: level_result_def)
        next
          case (Some mx)
          then obtain f where f: "\<forall>n \<in> set vs. has_level d n (f n)" "mx = Max (insert 0 (f ` set vs))"
            using IH(3) by auto
          have "mx = Max (f ` set vs)" unfolding f(2) using vs(2) by (subst Max_insert) auto
          then have "has_level d node (1 + mx)"
            using above [of d node f] f(1) vs by simp
          moreover have "(r, l', c') = (Some (1 + mx), bm_insert node (1 + mx) l1, c1)"
            using "1.prems"(4) l st vs m Some by simp
          ultimately show ?thesis
            using IH levels_ok_insert [OF IH(1) "1.prems"(2)] by (auto simp: level_result_def)
        qed
      qed
    qed
  qed
next
  case (2 d stack l c acc)
  then show ?case by auto
next
  case (3 d stack l c n ns acc)
  obtain r1 l1 c1 where m: "compute_level d stack l c n = (r1, l1, c1)" by (metis prod.exhaust)
  have IH1: "levels_ok d l1 c1" "dom (map_of l) \<subseteq> dom (map_of l1)" "level_result d n l1 r1"
    using "3.IH"(1) [OF "3.prems"(1) _ _ m] "3.prems"(2,3) by auto
  show ?case
  proof (cases r1)
    case None
    then have "(r, l', c') = (None, l1, c1)" using "3.prems"(4) m by simp
    then show ?thesis using IH1 None by (auto simp: level_result_def)
  next
    case (Some v)
    then have "compute_max d stack l1 c1 ns (max acc v) = (r, l', c')" using "3.prems"(4) m by simp
    from "3.IH"(2) [OF m [symmetric] Some refl IH1(1) _ _ this] "3.prems"(2,3)
    have IH2: "levels_ok d l' c'" "dom (map_of l1) \<subseteq> dom (map_of l')"
      "case r of Some m \<Rightarrow> \<exists>f. (\<forall>n \<in> set ns. has_level d n (f n)) \<and> m = Max (insert (max acc v) (f ` set ns))
       | None \<Rightarrow> \<exists>n \<in> set ns. meets_cycle d n" by auto
    show ?thesis
    proof (cases r)
      case None
      then show ?thesis using IH1(2) IH2 by auto
    next
      case (Some mx)
      then obtain f where f: "\<forall>n \<in> set ns. has_level d n (f n)" "mx = Max (insert (max acc v) (f ` set ns))"
        using IH2(3) by auto
      let ?g = "f(n := v)"
      have hv: "has_level d n v" using IH1(3) \<open>r1 = Some v\<close> by (simp add: level_result_def)
      then have "\<forall>x \<in> set (n # ns). has_level d x (?g x)" using f(1) by simp
      moreover have "?g ` set ns = f ` set ns"
        using f(1) has_level_unique [OF hv] by (intro image_cong) auto
      then have "?g ` set (n # ns) = insert v (f ` set ns)" by (simp del: fun_upd_apply) simp
      then have "mx = Max (insert acc (?g ` set (n # ns)))"
        unfolding f(2) by (cases "ns = []") (simp_all add: max.assoc)
      ultimately show ?thesis using Some IH1(2) IH2 by (auto simp del: fun_upd_apply)
    qed
  qed
qed

lemma levels_of_correct:
  assumes "fold (\<lambda>node (levels, cycles). snd (compute_level d [] levels cycles node)) ks (l, c) = (l', c')"
    and "levels_ok d l c" and "set ks \<subseteq> graph_nodes d"
  shows "levels_ok d l' c' \<and> dom (map_of l) \<subseteq> dom (map_of l') \<and>
    (\<forall>k \<in> set ks. k \<in> dom (map_of l') \<or> meets_cycle d k)"
  using assms
proof (induction ks arbitrary: l c)
  case (Cons k ks)
  obtain r1 l1 c1 where m: "compute_level d [] l c k = (r1, l1, c1)" by (metis prod.exhaust)
  have 1: "levels_ok d l1 c1" "dom (map_of l) \<subseteq> dom (map_of l1)" "level_result d k l1 r1"
    using compute_level_correct(1) [OF Cons.prems(2) _ _ m] Cons.prems(3) by auto
  then have "k \<in> dom (map_of l1) \<or> meets_cycle d k" by (cases r1) (auto simp: level_result_def)
  moreover have "levels_ok d l' c' \<and> dom (map_of l1) \<subseteq> dom (map_of l') \<and>
    (\<forall>k \<in> set ks. k \<in> dom (map_of l') \<or> meets_cycle d k)"
    using Cons.IH [OF _ 1(1)] Cons.prems(1,3) m by simp
  ultimately show ?case using 1(2) by auto
qed simp

definition bucket :: "(nat, 'a list) bmap \<Rightarrow> nat \<Rightarrow> 'a list" where
  "bucket g i = (case map_of g i of None \<Rightarrow> [] | Some ns \<Rightarrow> ns)"

lemma group_levels:
  "bmap_wf g \<Longrightarrow>
   bmap_wf (fold group_level l g) \<and> dom (map_of (fold group_level l g)) = dom (map_of g) \<union> snd ` set l \<and>
   bucket (fold group_level l g) i = bucket g i @ map fst (filter (\<lambda>nv. snd nv = i) l)"
proof (induction l arbitrary: g)
  case (Cons nv l)
  let ?g = "group_level nv g"
  have "bmap_wf ?g" using Cons.prems by (simp add: group_level_def)
  moreover have "dom (map_of ?g) = insert (snd nv) (dom (map_of g))" by (auto simp: group_level_def)
  moreover have "bucket ?g i = bucket g i @ (if snd nv = i then [fst nv] else [])"
    by (simp add: group_level_def bucket_def)
  ultimately show ?case using Cons.IH [of ?g] by simp
qed simp

lemma initial_segment:
  fixes ks :: "nat list"
  assumes "sorted_wrt (<) ks" and "\<And>n. Suc n \<in> set ks \<Longrightarrow> n \<in> set ks"
  shows "ks = [0..<length ks]"
proof -
  have down: "m \<in> set ks" if "n \<in> set ks" "m \<le> n" for n m
    using that(2,1) assms(2) by (induction rule: dec_induct) blast+
  have "\<exists>k. set ks = {..<k}"
  proof (cases "ks = []")
    case False
    then have "Max (set ks) \<in> set ks" by (intro Max_in) auto
    from down [OF this] have "{..<Suc (Max (set ks))} \<subseteq> set ks" by (auto simp: less_Suc_eq_le)
    moreover have "set ks \<subseteq> {..<Suc (Max (set ks))}" by (auto simp: less_Suc_eq_le)
    ultimately show ?thesis by blast
  qed (auto intro: exI [of _ 0])
  then obtain k where k: "set ks = {..<k}" by blast
  then have "length ks = k"
    using assms(1) by (metis card_lessThan distinct_card strict_sorted_iff)
  moreover have "ks = [0..<k]"
    by (rule strict_sorted_equal [OF _ assms(1)]) (simp_all add: k atLeast0LessThan)
  ultimately show ?thesis by simp
qed

text \<open>On a graph in which every node is a key, list \<open>i\<close> of the result holds the nodes of level \<open>i\<close>.\<close>

lemma no_cycle_nodes_filter:
  "set l \<inter> {nv. fst nv \<in> set c} = {} \<Longrightarrow>
   fold (\<lambda>(node, lvl) g. if node \<notin> set c then group_level (node, lvl) g else g) l g = fold group_level l g"
  by (induction l arbitrary: g) auto

lemma topological_levels_correct:
  assumes closed: "graph_nodes d \<subseteq> dom (map_of d)"
  shows "i < length (topological_levels d) \<and> x \<in> set (topological_levels d ! i) \<longleftrightarrow>
     x \<in> graph_nodes d \<and> has_level d x i"
proof -
  obtain l c where lc: "levels_of d = (l, c)" by (metis prod.exhaust)
  have keys: "set (bm_keys d) = graph_nodes d" using closed by (auto simp: graph_nodes_def)
  have "levels_ok d [] []" by (simp add: levels_ok_def)
  then have ok: "levels_ok d l c" and all: "\<And>k. k \<in> graph_nodes d \<Longrightarrow> k \<in> dom (map_of l) \<or> meets_cycle d k"
    using levels_of_correct [OF lc [unfolded levels_of_def]] keys by auto
  have wf: "bmap_wf l" using ok by (simp add: levels_ok_def)
  have mem: "(n, v) \<in> set l \<longleftrightarrow> n \<in> graph_nodes d \<and> has_level d n v" for n v
  proof
    assume "(n, v) \<in> set l"
    then have "map_of l n = Some v" using bmap_wf_map_of [OF wf] by blast
    then show "n \<in> graph_nodes d \<and> has_level d n v" using ok by (simp add: levels_ok_def)
  next
    assume n: "n \<in> graph_nodes d \<and> has_level d n v"
    then have "\<not> meets_cycle d n" using has_level_no_cycle [of d n v] by simp
    then have "n \<in> dom (map_of l)" using all [of n] n by simp
    then obtain w where w: "map_of l n = Some w" by blast
    then have "has_level d n w" using ok by (simp add: levels_ok_def)
    then have "w = v" using has_level_unique [of d n w v] n by simp
    then show "(n, v) \<in> set l" using w bmap_wf_map_of [OF wf] by simp
  qed
  let ?g = "fold group_level l []"
  note gl = group_levels [OF bmap_wf_Nil, of l]
  have dis: "fst nv \<notin> set c" if "nv \<in> set l" for nv
    using that ok mem [of "fst nv" "snd nv"] has_level_no_cycle [of d "fst nv" "snd nv"]
    by (auto simp: levels_ok_def)
  have "set l \<inter> {nv. fst nv \<in> set c} = {}" using dis by blast
  then have "topological_levels d = map snd ?g"
    using no_cycle_nodes_filter [of l c "[]"] by (simp add: topological_levels_def lc)
  moreover have keys_g: "map fst ?g = [0..<length (map fst ?g)]"
  proof (rule initial_segment)
    show "sorted_wrt (<) (map fst ?g)" using gl by (simp add: bmap_wf_def)
    fix n assume "Suc n \<in> set (map fst ?g)"
    then have "Suc n \<in> snd ` set l" using gl by (simp add: dom_map_of_conv_image_fst)
    then obtain y where "(y, Suc n) \<in> set l" by auto
    then have "has_level d y (Suc n)" using mem [of y "Suc n"] by simp
    then obtain z where z: "z \<in> set (succs d y)" "has_level d z n" using has_level_below [of d y n] by blast
    then have "(z, n) \<in> set l" using mem [of z n] succs_nodes [of z d y] by simp
    then have "n \<in> snd ` set l" by force
    then show "n \<in> set (map fst ?g)" using gl by (simp add: dom_map_of_conv_image_fst)
  qed
  have nth: "map_of ?g i = Some (snd (?g ! i))" if "i < length ?g"
  proof -
    have "fst (?g ! i) = i" using that keys_g by (metis add_0 length_map nth_map nth_upt)
    then show ?thesis using that gl by (metis bmap_wf_map_of nth_mem prod.collapse)
  qed
  have "x \<in> set (bucket ?g i) \<longleftrightarrow> (x, i) \<in> set l" using gl by (force simp: bucket_def)
  moreover have "set (bucket ?g i) = (if i < length ?g then set (snd (?g ! i)) else {})"
  proof (cases "i < length ?g")
    case False
    then have "i \<notin> set (map fst ?g)" using keys_g by (metis atLeastLessThan_iff length_map set_upt)
    then have "map_of ?g i = None" by (simp add: map_of_eq_None_iff)
    then show ?thesis using False by (simp add: bucket_def)
  qed (simp add: bucket_def nth)
  ultimately show ?thesis using mem by (cases "i < length ?g") auto
qed

end
