(* ===== verification/Dag_Contract.thy ===== *)
theory Dag_Contract imports Dag_Closure Dag_Cycles begin

text \<open>
  What the graph operations of \<^verbatim>\<open>crates/dbt-dag/src/deps_mgmt.rs\<close> promise to the scheduler, stated over
  the edge relation of the graph, with a concrete graph for every promise that has a condition.
\<close>

section \<open>Traversals\<close>

text \<open>C33 The traversals of the graph compute closures: \<^verbatim>\<open>slice\<close> keeps exactly the entries of the nodes
  reachable from the sinks, and \<^verbatim>\<open>slice_with_compare\<close> with equality as its comparison returns and
  returns the same graph; \<^verbatim>\<open>get_all_upstream_deps\<close> maps every node reachable from the given ones to its
  dependencies, \<^verbatim>\<open>find_all_upstream_deps\<close> is what is reachable from the direct dependencies, and
  \<^verbatim>\<open>get_upstreams\<close>, which stops at targets, still finds everything reachable that is not a target;
  \<^verbatim>\<open>sinks\<close> returns the nodes reachable in the reversed graph, or only those nothing depends on.\<close>

theorem graph_traversals_correct:
  "map_of (slice d snks) = map_of d |` reach (succs d) (set snks) \<and>
   (\<exists>fuel. slice_with_compare fuel (=) d snks = Some (slice d snks)) \<and>
   map_of (get_all_upstream_deps d roots) =
     (\<lambda>x. if x \<in> reach (succs d) (set roots) then Some (succs d x) else None) \<and>
   set (find_all_upstream_deps node d) = reach (succs d) (set (succs d node)) \<and>
   set (get_upstreams d targets) = reach (succs d) (set targets) - set targets \<and>
   set (sinks r roots all_nodes) =
     (if all_nodes then reach (succs r) (set roots)
      else {x \<in> reach (succs r) (set roots). succs r x = []})"
  by (simp add: map_of_slice slice_with_compare_eq map_of_get_all_upstream_deps set_find_all_upstream_deps
      set_get_upstreams set_sinks)

text \<open>\<^verbatim>\<open>reverse\<close> turns every edge around, so reversing twice gives the edges back.\<close>

theorem reverse_correct:
  assumes "deps_wf d"
  shows "bmap_wf (reverse d) \<and> edges (succs (reverse d)) = (edges (succs d))\<inverse> \<and>
    edges (succs (reverse (reverse d))) = edges (succs d)"
proof -
  have "distinct (map fst d)" using assms by (simp add: deps_wf_def bmap_wf_distinct)
  moreover have "distinct (map fst (reverse d))" by (simp add: bmap_wf_distinct)
  ultimately show ?thesis using edges_reverse [of d] edges_reverse [of "reverse d"] by simp
qed

theorem reverse_correct_witness:
  "edges (succs (reverse [(1::nat, [2, 3]), (2, [3])])) = (edges (succs [(1, [2, 3]), (2, [3])]))\<inverse>"
  using reverse_correct [of "[(1::nat, [2, 3]), (2, [3])]"] by (simp add: deps_wf_def bmap_wf_def bset_wf_def)

text \<open>A graph whose edges lead to greater nodes has no cycle.\<close>

lemma acyclic_increasing:
  fixes f :: "'a::linorder \<Rightarrow> 'a list"
  assumes "\<And>x y. y \<in> set (f x) \<Longrightarrow> x < y"
  shows "acyclic (edges f)"
proof -
  have "edges f \<subseteq> {(x, y). x < y}" using assms by auto
  moreover have "acyclic {(x, y). x < (y::'a)}"
    by (metis (no_types, lifting) acyclic_def case_prodD mem_Collect_eq less_irrefl trancl_id trans_def less_trans
        case_prodI)
  ultimately show ?thesis by (rule acyclic_subset [rotated])
qed

definition chain :: "nat deps" where
  "chain = [(1, [2]), (2, [3])]"

lemma chain_succs: "succs chain x = (if x = 1 then [2] else if x = 2 then [3] else [])"
  by (simp add: succs_def chain_def)

lemma chain_wf [simp]: "deps_wf chain"
  by (simp add: chain_def deps_wf_def bmap_wf_def bset_wf_def)

lemma chain_acyclic [simp]: "acyclic (edges (succs chain))"
  by (rule acyclic_increasing) (auto simp: chain_succs split: if_splits)

text \<open>\<^verbatim>\<open>restrict_with_transitive\<close> on an acyclic graph maps each included node to the included nodes
  that a path through nodes left out leads to, has no other keys, and stays acyclic.\<close>

theorem restrict_with_transitive_correct:
  assumes "acyclic (edges (succs d))"
  shows "map_option set (map_of (restrict_with_transitive d sel) n) =
      (if n \<in> set sel then Some {p. first_up d (set sel) n p} else None) \<and>
    acyclic (edges (succs (restrict_with_transitive d sel)))"
  using map_of_restrict [OF assms] restrict_acyclic [OF assms] by simp

theorem restrict_with_transitive_witness:
  "3 \<in> the (map_option set (map_of (restrict_with_transitive chain [1, 3]) 1))"
proof -
  have "first_up chain (set [1, 3]) 1 3"
    by (rule first_up.climb [of 2]) (auto simp: chain_succs intro: first_up.direct)
  then show ?thesis using restrict_with_transitive_correct [OF chain_acyclic, of "[1, 3]" 1] by auto
qed

section \<open>Order\<close>

text \<open>C14 \<^verbatim>\<open>topological_sort\<close> never underflows a counter; it returns each node that no cycle leads to
  exactly once and no other node, and everything a node depends on, directly or not, comes before it.\<close>

theorem topological_sort_sound_complete:
  assumes "deps_wf d"
  shows "\<exists>res. topological_sort d = Inr res \<and> distinct res \<and>
    set res = {x \<in> graph_nodes d. \<not> (\<exists>y. (y, y) \<in> (edges (succs d))\<^sup>+ \<and> (y, x) \<in> (edges (succs d))\<^sup>*)} \<and>
    (\<forall>xs x ys y. res = xs @ x # ys \<longrightarrow> (y, x) \<in> (edges (succs d))\<^sup>+ \<longrightarrow> y \<in> set ys)"
  by (rule topological_sort_correct [OF assms]) blast

theorem topological_sort_witness:
  "\<exists>res. topological_sort chain = Inr res \<and> distinct res \<and> set res = {1, 2, 3}"
proof -
  have "graph_nodes chain = {1, 2, 3}" by (auto simp: graph_nodes_def chain_def dom_def split: if_splits)
  moreover have "\<nexists>y. (y, y) \<in> (edges (succs chain))\<^sup>+" using chain_acyclic by (auto simp: acyclic_def)
  ultimately show ?thesis using topological_sort_sound_complete [OF chain_wf] by (auto simp del: edges_iff)
qed

text \<open>C32 \<^verbatim>\<open>find_and_cut_cycles\<close> ends; what it lists are cycles of the graph it is given, it lists none exactly when there
  are none, each cut point is the first node of its cycle the predicate accepts, the returned graph
  has lost exactly the edges from the cycle into the cut point, and when every cycle has a cut point
  the returned graph is acyclic.\<close>

theorem find_and_cut_cycles_sound_complete:
  assumes "find_and_cut_cycles d pred = (cycles, cut_points, res)"
  shows "(\<forall>c \<in> set cycles. is_cycle d c) \<and>
    (cycles = [] \<longleftrightarrow> acyclic (edges (succs d))) \<and>
    cut_points = map (find pred) cycles \<and>
    edges (succs res) = edges (succs d) - (\<Union>c \<in> set cycles. set c \<times> set_option (find pred c)) \<and>
    (None \<notin> set cut_points \<longrightarrow> acyclic (edges (succs res)))"
  using find_and_cut_cycles_correct [OF assms] by blast

theorem find_and_cut_cycles_witness:
  "fst (find_and_cut_cycles chain (\<lambda>_. True)) = []"
  using find_and_cut_cycles_sound_complete [of chain "\<lambda>_. True"]
  by (cases "find_and_cut_cycles chain (\<lambda>_. True)") simp

text \<open>On a graph in which every node is a key, list number i of \<^verbatim>\<open>topological_levels\<close> holds exactly
  the nodes whose longest dependency chain has i edges; nodes that depend on a cycle have no level.\<close>

theorem topological_levels_sound_complete:
  assumes "graph_nodes d \<subseteq> dom (map_of d)"
  shows "(i < length (topological_levels d) \<and> x \<in> set (topological_levels d ! i) \<longleftrightarrow>
      x \<in> graph_nodes d \<and> has_level d x i) \<and>
    (has_level d x i \<longrightarrow> \<not> meets_cycle d x)"
  using topological_levels_correct [OF assms, of i x] has_level_no_cycle [of d x i] by (intro conjI impI)

definition closed_chain :: "nat deps" where
  "closed_chain = [(1, [2]), (2, [])]"

theorem topological_levels_witness:
  "1 < length (topological_levels closed_chain) \<and> 1 \<in> set (topological_levels closed_chain ! 1)"
proof -
  have "graph_nodes closed_chain = {1, 2}" by (auto simp: graph_nodes_def closed_chain_def dom_def split: if_splits)
  moreover have "has_level closed_chain 2 0" by (rule has_level.intros) (simp add: succs_def closed_chain_def)
  then have "has_level closed_chain 1 1"
    using has_level.above [of closed_chain 1 "\<lambda>_. 0"] by (simp add: succs_def closed_chain_def)
  ultimately show ?thesis using topological_levels_sound_complete [of closed_chain 1 1]
    by (auto simp: closed_chain_def dom_def split: if_splits)
qed

end
