(* ===== verification/Semver.thy ===== *)
theory Semver imports Dbt_Prelude begin

text \<open>
  Package versions, from \<^verbatim>\<open>crates/dbt-deps/src/semver.rs\<close>: the parser (a backtracking match of
  \<^verbatim>\<open>VERSION_REGEX\<close>), the comparison, the reduction of version requirements to one range, the
  choice of the version to install and the list of installable versions.
\<close>

section \<open>Versions\<close>

datatype Matchers = GreaterThan | GreaterThanOrEqualTo | LessThan | LessThanOrEqualTo | Exact

fun show_matcher :: "Matchers \<Rightarrow> string" where
  "show_matcher GreaterThan = ''>''"
| "show_matcher GreaterThanOrEqualTo = ''>=''"
| "show_matcher LessThan = ''<''"
| "show_matcher LessThanOrEqualTo = ''<=''"
| "show_matcher Exact = ''=''"

definition matcher_try_from :: "string \<Rightarrow> Matchers fs_result" where
  "matcher_try_from value =
     (if value = ''>'' then Inr GreaterThan
      else if value = ''>='' then Inr GreaterThanOrEqualTo
      else if value = ''<'' then Inr LessThan
      else if value = ''<='' then Inr LessThanOrEqualTo
      else if value = ''='' then Inr Exact
      else Inl (Err RuntimeError (''Invalid matcher: '' @ value)))"

record VersionSpecifier =
  major :: "nat option"
  minor :: "nat option"
  patch :: "nat option"
  prerelease :: "string option"
  build :: "string option"
  matcher :: Matchers

definition default_spec :: VersionSpecifier where
  "default_spec = \<lparr>major = None, minor = None, patch = None, prerelease = None, build = None, matcher = Exact\<rparr>"

record VersionRange =
  start :: VersionSpecifier
  end_of :: VersionSpecifier

datatype Version = Spec VersionSpecifier | Range VersionRange | StringVersion string

definition unwrap_or_default :: "nat option \<Rightarrow> nat" where
  "unwrap_or_default x = (case x of None \<Rightarrow> 0 | Some n \<Rightarrow> n)"

definition to_version_string :: "VersionSpecifier \<Rightarrow> bool \<Rightarrow> string" where
  "to_version_string v skip_matcher =
     (let pre = (case prerelease v of Some p \<Rightarrow> ''-'' @ p | None \<Rightarrow> []);
          bld = (case build v of Some b \<Rightarrow> ''+'' @ b | None \<Rightarrow> []);
          mat = (if skip_matcher then [] else show_matcher (matcher v))
      in mat @ show_nat (unwrap_or_default (major v)) @ ''.'' @ show_nat (unwrap_or_default (minor v)) @
         ''.'' @ show_nat (unwrap_or_default (patch v)) @ pre @ bld)"

definition is_unbounded :: "VersionSpecifier \<Rightarrow> bool" where
  "is_unbounded v \<longleftrightarrow> major v = None \<and> minor v = None \<and> patch v = None"

definition is_lower_bound :: "VersionSpecifier \<Rightarrow> bool" where
  "is_lower_bound v \<longleftrightarrow> \<not> is_unbounded v \<and> (matcher v = GreaterThan \<or> matcher v = GreaterThanOrEqualTo)"

definition is_upper_bound :: "VersionSpecifier \<Rightarrow> bool" where
  "is_upper_bound v \<longleftrightarrow> \<not> is_unbounded v \<and> (matcher v = LessThan \<or> matcher v = LessThanOrEqualTo)"

definition is_exact :: "VersionSpecifier \<Rightarrow> bool" where
  "is_exact v \<longleftrightarrow> \<not> is_unbounded v \<and> matcher v = Exact"

definition is_prerelease :: "VersionSpecifier \<Rightarrow> bool" where
  "is_prerelease v \<longleftrightarrow> prerelease v \<noteq> None"

definition version_is_prerelease :: "Version \<Rightarrow> bool" where
  "version_is_prerelease v \<longleftrightarrow> (case v of Spec s \<Rightarrow> is_prerelease s | _ \<Rightarrow> False)"

section \<open>Comparison\<close>

definition str_cmp :: "string \<Rightarrow> string \<Rightarrow> ordering" where
  "str_cmp a b = compare a b"

definition part_cmp :: "string \<Rightarrow> string \<Rightarrow> ordering" where
  "part_cmp a b =
     (case (parse_uint u32_max a, parse_uint u32_max b) of
        (Some x, Some y) \<Rightarrow> compare x y
      | (Some _, None) \<Rightarrow> Less
      | (None, Some _) \<Rightarrow> Greater
      | (None, None) \<Rightarrow> str_cmp a b)"

fun parts_cmp :: "(string \<times> string) list \<Rightarrow> ordering" where
  "parts_cmp [] = Equal"
| "parts_cmp ((a, b) # ps) = (if part_cmp a b \<noteq> Equal then part_cmp a b else parts_cmp ps)"

text \<open>The lengths are compared as the strings of their decimal digits, as the code has it.\<close>

definition nat_cmp :: "string option \<Rightarrow> string option \<Rightarrow> ordering" where
  "nat_cmp a b =
     (let a = (case a of Some s \<Rightarrow> s | None \<Rightarrow> []);
          b = (case b of Some s \<Rightarrow> s | None \<Rightarrow> []);
          c = parts_cmp (zip (split_on (CHR ''.'') a) (split_on (CHR ''.'') b))
      in if c \<noteq> Equal then c else str_cmp (show_nat (str_len a)) (show_nat (str_len b)))"

definition matcher_cmp :: "VersionSpecifier \<Rightarrow> VersionSpecifier \<Rightarrow> ordering" where
  "matcher_cmp v w =
     (if (matcher v = GreaterThanOrEqualTo \<and> matcher w = LessThanOrEqualTo) \<or>
         (matcher v = LessThanOrEqualTo \<and> matcher w = GreaterThanOrEqualTo) then Equal
      else if (matcher v = LessThan \<and> matcher w = LessThanOrEqualTo) \<or>
         (matcher w = GreaterThan \<and> matcher v = GreaterThanOrEqualTo) \<or>
         (is_lower_bound v \<and> is_upper_bound w) then Less
      else if (matcher w = LessThan \<and> matcher v = LessThanOrEqualTo) \<or>
         (matcher v = GreaterThan \<and> matcher w = GreaterThanOrEqualTo) \<or>
         (is_lower_bound w \<and> is_upper_bound v) then Greater
      else Equal)"

definition spec_cmp :: "VersionSpecifier \<Rightarrow> VersionSpecifier \<Rightarrow> ordering" where
  "spec_cmp v w =
     (if is_unbounded v \<or> is_unbounded w then Equal
      else if compare_option (major v) (major w) \<noteq> Equal then compare_option (major v) (major w)
      else if compare_option (minor v) (minor w) \<noteq> Equal then compare_option (minor v) (minor w)
      else if compare_option (patch v) (patch w) \<noteq> Equal then compare_option (patch v) (patch w)
      else if prerelease v = None \<and> prerelease w \<noteq> None
           then (if matcher v = LessThan then Less else Greater)
      else if prerelease v \<noteq> None \<and> prerelease w = None then Less
      else if prerelease v \<noteq> None \<and> nat_cmp (prerelease v) (prerelease w) \<noteq> Equal
           then nat_cmp (prerelease v) (prerelease w)
      else matcher_cmp v w)"

section \<open>Parsing\<close>

definition id_char :: "char \<Rightarrow> bool" where
  "id_char c \<longleftrightarrow> is_ascii_alphanumeric c \<or> c = CHR ''-''"

text \<open>\<^verbatim>\<open>0|[1-9]\d*|\d*[a-zA-Z-][0-9a-zA-Z-]*\<close>\<close>

definition is_identifier :: "string \<Rightarrow> bool" where
  "is_identifier s \<longleftrightarrow> s \<noteq> [] \<and> list_all id_char s \<and>
     (list_all is_ascii_digit s \<longrightarrow> s = ''0'' \<or> hd s \<noteq> CHR ''0'')"

definition is_prerelease_text :: "string \<Rightarrow> bool" where
  "is_prerelease_text s \<longleftrightarrow> list_all is_identifier (split_on (CHR ''.'') s)"

definition is_build_text :: "string \<Rightarrow> bool" where
  "is_build_text s \<longleftrightarrow> list_all (\<lambda>c. id_char c \<or> c = CHR ''.'') s"

text \<open>
  The end of the expression, after the patch number. No prerelease contains a plus sign, so the
  build part starts at the first one; the dash before a prerelease is consumed when what follows
  is a prerelease without it, and is read as part of the prerelease otherwise.
\<close>

definition match_extra :: "string \<Rightarrow> (string option \<times> string option) option" where
  "match_extra s =
     (let (a, bld) = (case split_once (CHR ''+'') s of None \<Rightarrow> (s, None) | Some (a, b) \<Rightarrow> (a, Some b))
      in if bld \<noteq> None \<and> \<not> is_build_text (the bld) then None
         else if a = [] then Some (None, bld)
         else if hd a = CHR ''-'' \<and> is_prerelease_text (tl a) then Some (Some (tl a), bld)
         else if is_prerelease_text a then Some (Some a, bld)
         else None)"

text \<open>\<^verbatim>\<open>0|[1-9]\d*\<close> followed by a dot: the number is the longest run of digits.\<close>

definition match_number_dot :: "string \<Rightarrow> (string \<times> string) option" where
  "match_number_dot s =
     (let ds = takeWhile is_ascii_digit s; rest = dropWhile is_ascii_digit s
      in if ds \<noteq> [] \<and> (ds = ''0'' \<or> hd ds \<noteq> CHR ''0'') \<and> rest \<noteq> [] \<and> hd rest = CHR ''.''
         then Some (ds, tl rest) else None)"

text \<open>The patch number is tried from the longest run of digits down to one digit.\<close>

fun match_patch :: "nat \<Rightarrow> string \<Rightarrow> (string \<times> string option \<times> string option) option" where
  "match_patch 0 s = None"
| "match_patch (Suc n) s =
     (case match_extra (drop (Suc n) s) of
        Some (pre, bld) \<Rightarrow> Some (take (Suc n) s, pre, bld)
      | None \<Rightarrow> match_patch n s)"

definition match_patch_extra :: "string \<Rightarrow> (string \<times> string option \<times> string option) option" where
  "match_patch_extra s =
     (let ds = takeWhile is_ascii_digit s
      in if ds = [] then None else match_patch (if hd ds = CHR ''0'' then 1 else length ds) s)"

definition match_matcher :: "string \<Rightarrow> string option \<times> string" where
  "match_matcher s =
     (if starts_with s ''>='' \<or> starts_with s ''<='' then (Some (take 2 s), drop 2 s)
      else if starts_with s ''>'' \<or> starts_with s ''<'' \<or> starts_with s ''='' then (Some (take 1 s), drop 1 s)
      else (None, s))"

definition from_str :: "string \<Rightarrow> VersionSpecifier fs_result" where
  "from_str s =
     (let (mat, rest) = match_matcher s;
          no_match = Inl (Err RuntimeError (''Error parsing semver version '' @ s))
      in case match_number_dot rest of
           None \<Rightarrow> no_match
         | Some (maj, rest) \<Rightarrow>
           (case match_number_dot rest of
              None \<Rightarrow> no_match
            | Some (mnr, rest) \<Rightarrow>
              (case match_patch_extra rest of
                 None \<Rightarrow> no_match
               | Some (pat, pre, bld) \<Rightarrow>
                 rmap (\<lambda>m. \<lparr>major = parse_uint u64_max maj, minor = parse_uint u64_max mnr,
                     patch = parse_uint u64_max pat, prerelease = pre, build = bld, matcher = m\<rparr>)
                   (case mat of None \<Rightarrow> Inr Exact | Some m \<Rightarrow> matcher_try_from m))))"

section \<open>Ranges\<close>

definition runtime_error :: "string \<Rightarrow> 'a fs_result" where
  "runtime_error msg = Inl (Err RuntimeError msg)"

definition try_combine_exact :: "VersionSpecifier \<Rightarrow> VersionSpecifier \<Rightarrow> VersionSpecifier fs_result" where
  "try_combine_exact a b =
     (if spec_cmp a b = Equal then Inr a
      else runtime_error (''Cannot combine non-exact versions: '' @ to_version_string a False @ '' and '' @
        to_version_string b False))"

definition incompatible :: "VersionSpecifier \<Rightarrow> VersionSpecifier \<Rightarrow> 'a fs_result" where
  "incompatible a b =
     runtime_error (''Versions are not compatible: '' @ to_version_string a False @ '' and '' @
       to_version_string b False)"

definition try_combine_lower_bound_with_exact ::
    "VersionSpecifier \<Rightarrow> VersionSpecifier \<Rightarrow> VersionSpecifier fs_result" where
  "try_combine_lower_bound_with_exact lower exact =
     (if spec_cmp lower exact = Less \<or> (spec_cmp lower exact = Equal \<and> matcher lower = GreaterThanOrEqualTo)
      then Inr exact else incompatible lower exact)"

definition try_combine_lower_bound ::
    "VersionSpecifier \<Rightarrow> VersionSpecifier \<Rightarrow> VersionSpecifier fs_result" where
  "try_combine_lower_bound a b =
     (if is_unbounded b then Inr a
      else if is_unbounded a then Inr b
      else if \<not> (is_exact a \<or> is_exact b) then (if spec_cmp a b = Less then Inr b else Inr a)
      else if is_exact a then try_combine_lower_bound_with_exact b a
      else try_combine_lower_bound_with_exact a b)"

definition try_combine_upper_bound_with_exact ::
    "VersionSpecifier \<Rightarrow> VersionSpecifier \<Rightarrow> VersionSpecifier fs_result" where
  "try_combine_upper_bound_with_exact upper exact =
     (if spec_cmp upper exact = Greater \<or> (spec_cmp upper exact = Equal \<and> matcher upper = LessThanOrEqualTo)
      then Inr exact else incompatible upper exact)"

definition try_combine_upper_bound ::
    "VersionSpecifier \<Rightarrow> VersionSpecifier \<Rightarrow> VersionSpecifier fs_result" where
  "try_combine_upper_bound a b =
     (if is_unbounded b then Inr a
      else if is_unbounded a then Inr b
      else if \<not> (is_exact a \<or> is_exact b) then (if spec_cmp a b = Greater then Inr b else Inr a)
      else if is_exact a then try_combine_upper_bound_with_exact b a
      else try_combine_upper_bound_with_exact a b)"

text \<open>\<^verbatim>\<open>Debug\<close> of a specifier; the texts the parser accepts need no escapes.\<close>

definition debug_option :: "('a \<Rightarrow> string) \<Rightarrow> 'a option \<Rightarrow> string" where
  "debug_option f x = (case x of None \<Rightarrow> ''None'' | Some a \<Rightarrow> ''Some('' @ f a @ '')'')"

definition debug_str :: "string \<Rightarrow> string" where
  "debug_str s = [CHR 0x22] @ s @ [CHR 0x22]"

fun debug_matcher :: "Matchers \<Rightarrow> string" where
  "debug_matcher GreaterThan = ''GreaterThan''"
| "debug_matcher GreaterThanOrEqualTo = ''GreaterThanOrEqualTo''"
| "debug_matcher LessThan = ''LessThan''"
| "debug_matcher LessThanOrEqualTo = ''LessThanOrEqualTo''"
| "debug_matcher Exact = ''Exact''"

definition debug_spec :: "VersionSpecifier \<Rightarrow> string" where
  "debug_spec v = ''VersionSpecifier { major: '' @ debug_option show_nat (major v) @
     '', minor: '' @ debug_option show_nat (minor v) @ '', patch: '' @ debug_option show_nat (patch v) @
     '', prerelease: '' @ debug_option debug_str (prerelease v) @
     '', build: '' @ debug_option debug_str (build v) @ '', matcher: '' @ debug_matcher (matcher v) @ '' }''"

definition reduce :: "VersionRange \<Rightarrow> VersionRange \<Rightarrow> VersionRange fs_result" where
  "reduce r other =
     rbind
       (if is_exact (start r) \<and> is_exact (start other)
        then rmap (\<lambda>s. (s, s)) (try_combine_exact (start r) (start other))
        else rbind (try_combine_lower_bound (start r) (start other))
               (\<lambda>s. rmap (\<lambda>e. (s, e)) (try_combine_upper_bound (end_of r) (end_of other))))
       (\<lambda>(s, e). if spec_cmp s e = Greater
          then runtime_error (''Invalid range: '' @ debug_spec s @ '' and '' @ debug_spec e)
          else Inr \<lparr>start = s, end_of = e\<rparr>)"

definition show_range :: "VersionRange \<Rightarrow> string" where
  "show_range r =
     (if is_unbounded (start r) \<and> is_unbounded (end_of r) then ''ANY''
      else join '', ''
        ((if \<not> is_unbounded (start r) then [to_version_string (start r) False] else []) @
         (if \<not> is_unbounded (end_of r) then [to_version_string (end_of r) False] else [])))"

definition range_from :: "VersionSpecifier \<Rightarrow> VersionRange" where
  "range_from s =
     (case matcher s of
        Exact \<Rightarrow> \<lparr>start = s, end_of = s\<rparr>
      | GreaterThan \<Rightarrow> \<lparr>start = s, end_of = default_spec\<rparr>
      | GreaterThanOrEqualTo \<Rightarrow> \<lparr>start = s, end_of = default_spec\<rparr>
      | LessThan \<Rightarrow> \<lparr>start = default_spec, end_of = s\<rparr>
      | LessThanOrEqualTo \<Rightarrow> \<lparr>start = default_spec, end_of = s\<rparr>)"

fun collect_specifiers :: "Version list \<Rightarrow> VersionSpecifier list fs_result" where
  "collect_specifiers [] = Inr []"
| "collect_specifiers (Spec s # vs) =
     rmap (\<lambda>ss. if is_unbounded s then ss else s # ss) (collect_specifiers vs)"
| "collect_specifiers (Range r # vs) =
     rmap (\<lambda>ss. (if \<not> is_unbounded (start r) then [start r] else []) @
                (if \<not> is_unbounded (end_of r) then [end_of r] else []) @ ss) (collect_specifiers vs)"
| "collect_specifiers (StringVersion t # vs) =
     rbind (from_str t) (\<lambda>s. rmap (\<lambda>ss. s # ss) (collect_specifiers vs))"

fun reduce_all :: "VersionRange \<Rightarrow> VersionSpecifier list \<Rightarrow> VersionRange fs_result" where
  "reduce_all r [] = Inr r"
| "reduce_all r (s # ss) = rbind (reduce r (range_from s)) (\<lambda>r'. reduce_all r' ss)"

definition reduce_versions :: "Version list \<Rightarrow> VersionRange fs_result" where
  "reduce_versions versions =
     rbind (collect_specifiers versions)
       (\<lambda>ss. if ss = [] then Inr \<lparr>start = default_spec, end_of = default_spec\<rparr>
             else reduce_all (range_from (last ss)) (butlast ss))"

definition versions_compatible :: "Version list \<Rightarrow> bool" where
  "versions_compatible versions =
     (if length versions = 1 then True else is_ok (reduce_versions versions))"

section \<open>Choosing a version\<close>

definition in_range :: "VersionRange \<Rightarrow> VersionSpecifier \<Rightarrow> bool" where
  "in_range rng v = versions_compatible [Spec v, Spec (start rng), Spec (end_of rng)]"

fun resolve_loop ::
    "VersionRange \<Rightarrow> (VersionSpecifier \<times> string) option \<Rightarrow> string list \<Rightarrow> string option fs_result" where
  "resolve_loop rng best [] = Inr (map_option snd best)"
| "resolve_loop rng best (version_str # rest) =
     rbind (from_str version_str)
       (\<lambda>version. resolve_loop rng
          (if in_range rng version \<and> (case best of None \<Rightarrow> True | Some (m, _) \<Rightarrow> spec_cmp m version = Less)
           then Some (version, version_str) else best) rest)"

definition resolve_to_specific_version :: "VersionRange \<Rightarrow> string list \<Rightarrow> string option fs_result" where
  "resolve_to_specific_version rng available_versions = resolve_loop rng None available_versions"

fun collect_installable ::
    "bool \<Rightarrow> string list \<Rightarrow> (string, string) bmap \<Rightarrow> VersionSpecifier list \<Rightarrow>
     ((string, string) bmap \<times> VersionSpecifier list) fs_result" where
  "collect_installable install_prerelease [] m acc = Inr (m, acc)"
| "collect_installable install_prerelease (version_str # rest) m acc =
     rbind (from_str version_str)
       (\<lambda>version. if install_prerelease \<or> \<not> is_prerelease version
          then collect_installable install_prerelease rest
                 (bm_insert (to_version_string version False) version_str m) (acc @ [version])
          else collect_installable install_prerelease rest m acc)"

definition filter_installable :: "string list \<Rightarrow> bool \<Rightarrow> string list fs_result" where
  "filter_installable versions install_prerelease =
     rbind (collect_installable install_prerelease versions [] [])
       (\<lambda>(m, installable). collect_results
          (\<lambda>v. case map_of m (to_version_string v False) of
                 Some s \<Rightarrow> Inr s
               | None \<Rightarrow> Inl (Panic ''called `Option::unwrap()` on a `None` value''))
          (sort_by spec_cmp installable))"

end
