(* ===== verification/Semver_Correct.thy ===== *)
theory Semver_Correct imports Semver "HOL-Library.Product_Lexorder" begin

text \<open>
  Properties of package versions: what the parser accepts is printed and read back unchanged, the
  comparison of release versions is the order on their numbers, a list of requirements is
  compatible with an exact version exactly when the version meets each of them, and the version
  that is chosen is the greatest one available that meets the range.
\<close>

section \<open>Decimal numerals\<close>

lemma show_nat_hd: "0 < n \<Longrightarrow> hd (show_nat n) \<noteq> CHR ''0''"
proof (induction n rule: show_nat.induct)
  case (1 n)
  have "digit_char n \<noteq> CHR ''0''" if "n < 10"
  proof
    assume "digit_char n = CHR ''0''"
    then have "char_code (digit_char n) = 48" by (simp add: char_code_def)
    then show False using that 1(2) by simp
  qed
  moreover have "hd (show_nat (n div 10)) \<noteq> CHR ''0''" if "\<not> n < 10" using 1 that by simp
  moreover have "show_nat (n div 10) \<noteq> []" using show_nat_digits by blast
  ultimately show ?case by (subst show_nat.simps) auto
qed

lemma show_nat_0: "show_nat 0 = ''0''"
proof -
  have "digit_char 0 = CHR ''0''" by (simp add: digit_char_def char_of_def bit_iff_odd)
  then show ?thesis by (simp add: show_nat.simps)
qed

lemma show_nat_numeral: "show_nat n \<noteq> [] \<and> (show_nat n = ''0'' \<or> hd (show_nat n) \<noteq> CHR ''0'')"
  using show_nat_digits [of n] show_nat_hd [of n] show_nat_0 by (cases "n = 0") auto

lemma span_digits:
  "rest = [] \<or> \<not> is_ascii_digit (hd rest) \<Longrightarrow>
   takeWhile is_ascii_digit (show_nat n @ rest) = show_nat n \<and>
   dropWhile is_ascii_digit (show_nat n @ rest) = rest"
proof -
  assume "rest = [] \<or> \<not> is_ascii_digit (hd rest)"
  then have r: "takeWhile is_ascii_digit rest = []" "dropWhile is_ascii_digit rest = rest"
    by (cases rest; simp)+
  have "\<forall>c \<in> set (show_nat n). is_ascii_digit c" using show_nat_digits [of n] by (simp add: list_all_iff)
  then show ?thesis using r by simp
qed

lemma dot_plus_dash [simp]:
  "\<not> is_ascii_digit (CHR ''.'')" "\<not> is_ascii_digit (CHR ''-'')" "\<not> id_char (CHR ''+'')" "id_char (CHR ''-'')"
  by (simp_all add: is_ascii_digit_def id_char_def is_ascii_alphanumeric_def is_ascii_alphabetic_def
      is_ascii_upper_def is_ascii_lower_def char_code_def)

section \<open>Round trip\<close>

definition version_wf :: "VersionSpecifier \<Rightarrow> bool" where
  "version_wf v \<longleftrightarrow>
     (\<exists>a \<le> u64_max. major v = Some a) \<and> (\<exists>b \<le> u64_max. minor v = Some b) \<and> (\<exists>c \<le> u64_max. patch v = Some c) \<and>
     (\<forall>p. prerelease v = Some p \<longrightarrow> is_prerelease_text p) \<and> (\<forall>b. build v = Some b \<longrightarrow> is_build_text b)"

lemma split_on_chars: "c \<in> set s \<Longrightarrow> c \<noteq> d \<Longrightarrow> \<exists>p \<in> set (split_on d s). c \<in> set p"
proof (induction s)
  case (Cons x xs)
  then show ?case by (cases "split_on d xs") (auto split: if_splits)
qed simp

lemma prerelease_no_plus: "is_prerelease_text p \<Longrightarrow> CHR ''+'' \<notin> set p"
proof
  assume p: "is_prerelease_text p" and "CHR ''+'' \<in> set p"
  then obtain q where "q \<in> set (split_on (CHR ''.'') p)" "CHR ''+'' \<in> set q"
    using split_on_chars by blast
  with p show False
    using dot_plus_dash(3) unfolding is_prerelease_text_def is_identifier_def list_all_iff by blast
qed

lemma prerelease_not_empty: "is_prerelease_text p \<Longrightarrow> p \<noteq> []"
  by (auto simp: is_prerelease_text_def is_identifier_def)

lemma match_number_dot_show: "match_number_dot (show_nat n @ CHR ''.'' # rest) = Some (show_nat n, rest)"
  using span_digits [of "CHR ''.'' # rest" n] show_nat_numeral [of n]
  by (simp add: match_number_dot_def)

definition extra_text :: "VersionSpecifier \<Rightarrow> string" where
  "extra_text v = (case prerelease v of Some p \<Rightarrow> ''-'' @ p | None \<Rightarrow> []) @
     (case build v of Some b \<Rightarrow> ''+'' @ b | None \<Rightarrow> [])"

lemma match_extra_show: "version_wf v \<Longrightarrow> match_extra (extra_text v) = Some (prerelease v, build v)"
proof -
  assume wf: "version_wf v"
  have p: "CHR ''+'' \<notin> set (case prerelease v of Some p \<Rightarrow> ''-'' @ p | None \<Rightarrow> [])"
    using wf prerelease_no_plus by (auto simp: version_wf_def split: option.splits)
  have s: "(case split_once (CHR ''+'') (extra_text v) of None \<Rightarrow> (extra_text v, None) | Some (a, b) \<Rightarrow> (a, Some b)) =
      (case prerelease v of Some p \<Rightarrow> ''-'' @ p | None \<Rightarrow> [], build v)"
  proof (cases "build v")
    case None
    then show ?thesis using p by (simp add: extra_text_def split_once_def)
  next
    case (Some b)
    then show ?thesis using split_once_intro [OF p, of b] by (simp add: extra_text_def)
  qed
  show ?thesis
    unfolding match_extra_def Let_def s
    using wf prerelease_not_empty
    by (cases "prerelease v"; cases "build v") (auto simp: version_wf_def)
qed

lemma extra_text_start: "extra_text v = [] \<or> \<not> is_ascii_digit (hd (extra_text v))"
  by (auto simp: extra_text_def split: option.splits)

lemma match_patch_show:
  assumes "version_wf v"
  shows "match_patch_extra (show_nat n @ extra_text v) = Some (show_nat n, prerelease v, build v)"
proof -
  let ?s = "show_nat n @ extra_text v"
  have ds: "takeWhile is_ascii_digit ?s = show_nat n" using span_digits [OF extra_text_start] by blast
  have l: "(if hd (show_nat n) = CHR ''0'' then 1 else length (show_nat n)) = length (show_nat n)"
    using show_nat_numeral [of n] by auto
  obtain k where k: "length (show_nat n) = Suc k" using show_nat_numeral [of n] by (cases "show_nat n") auto
  have "drop (Suc k) ?s = extra_text v" "take (Suc k) ?s = show_nat n" using k by auto
  then have "match_patch (Suc k) ?s = Some (show_nat n, prerelease v, build v)"
    using match_extra_show [OF assms] by simp
  then show ?thesis
    using show_nat_numeral [of n] by (simp add: match_patch_extra_def Let_def ds l k)
qed

lemma match_matcher_show:
  "match_matcher (show_matcher m @ show_nat n @ rest) = (Some (show_matcher m), show_nat n @ rest)"
proof -
  obtain c cs where c: "show_nat n = c # cs" using show_nat_numeral [of n] by (cases "show_nat n") auto
  have "is_ascii_digit c" using show_nat_digits [of n] c by simp
  then have "c \<noteq> CHR ''=''" by (auto simp: is_ascii_digit_def char_code_def)
  then show ?thesis by (cases m) (auto simp: match_matcher_def starts_with_def c)
qed

lemma from_str_to_string:
  assumes "version_wf v"
  shows "from_str (to_version_string v False) = Inr v"
proof -
  obtain a b c where v: "major v = Some a" "minor v = Some b" "patch v = Some c"
    "a \<le> u64_max" "b \<le> u64_max" "c \<le> u64_max"
    using assms by (auto simp: version_wf_def)
  have s: "to_version_string v False =
     show_matcher (matcher v) @ show_nat a @ (CHR ''.'' # show_nat b @ (CHR ''.'' # show_nat c @ extra_text v))"
    by (simp add: to_version_string_def extra_text_def v unwrap_or_default_def)
  have m: "matcher_try_from (show_matcher m) = Inr m" for m by (cases m) (simp_all add: matcher_try_from_def)
  show ?thesis
    unfolding from_str_def s match_matcher_show Let_def prod.case match_number_dot_show option.case
      match_patch_show [OF assms] m
    using v by (simp add: parse_uint_show_nat)
qed

lemma match_extra_wf:
  "match_extra s = Some (pre, bld) \<Longrightarrow>
   (\<forall>p. pre = Some p \<longrightarrow> is_prerelease_text p) \<and> (\<forall>b. bld = Some b \<longrightarrow> is_build_text b)"
  by (auto simp: match_extra_def Let_def split: option.splits prod.splits if_splits)

lemma match_patch_wf:
  "match_patch n s = Some (pat, pre, bld) \<Longrightarrow>
   (\<forall>p. pre = Some p \<longrightarrow> is_prerelease_text p) \<and> (\<forall>b. bld = Some b \<longrightarrow> is_build_text b)"
proof (induction n)
  case (Suc n)
  then show ?case
    using match_extra_wf by (cases "match_extra (drop (Suc n) s)") auto
qed simp

lemma parse_uint_le: "parse_uint mx s = Some n \<Longrightarrow> n \<le> mx"
  by (auto simp: parse_uint_def Let_def split: if_splits)

lemma from_str_wf:
  assumes "from_str s = Inr v" and "major v \<noteq> None" and "minor v \<noteq> None" and "patch v \<noteq> None"
  shows "version_wf v"
proof -
  obtain mat rest where m: "match_matcher s = (mat, rest)" by fastforce
  obtain maj r1 where 1: "match_number_dot rest = Some (maj, r1)"
    using assms(1) by (cases "match_number_dot rest") (auto simp: from_str_def m)
  obtain mnr r2 where 2: "match_number_dot r1 = Some (mnr, r2)"
    using assms(1) by (cases "match_number_dot r1") (auto simp: from_str_def m 1)
  obtain pat pre bld where 3: "match_patch_extra r2 = Some (pat, pre, bld)"
    using assms(1) by (cases "match_patch_extra r2") (auto simp: from_str_def m 1 2)
  obtain k where "match_patch k r2 = Some (pat, pre, bld)"
    using 3 by (auto simp: match_patch_extra_def Let_def split: if_splits)
  from match_patch_wf [OF this]
  have pb: "\<forall>p. pre = Some p \<longrightarrow> is_prerelease_text p" "\<forall>b. bld = Some b \<longrightarrow> is_build_text b" by auto
  obtain mt where v: "v = \<lparr>major = parse_uint u64_max maj, minor = parse_uint u64_max mnr,
      patch = parse_uint u64_max pat, prerelease = pre, build = bld, matcher = mt\<rparr>"
    using assms(1) by (auto simp: from_str_def m 1 2 3 rmap_eq_Inr)
  show ?thesis
    using assms(2-4) pb parse_uint_le by (auto simp: version_wf_def v)
qed

section \<open>The order on versions\<close>

text \<open>A release: three numbers and no prerelease.\<close>

definition release :: "VersionSpecifier \<Rightarrow> bool" where
  "release v \<longleftrightarrow> version_wf v \<and> prerelease v = None"

definition numbers :: "VersionSpecifier \<Rightarrow> nat \<times> nat \<times> nat" where
  "numbers v = (unwrap_or_default (major v), unwrap_or_default (minor v), unwrap_or_default (patch v))"

lemma version_wf_bounded: "version_wf v \<Longrightarrow> \<not> is_unbounded v"
  by (auto simp: version_wf_def is_unbounded_def)

lemma spec_cmp_release:
  assumes "release v" and "release w"
  shows "spec_cmp v w = (if numbers v = numbers w then matcher_cmp v w else compare (numbers v) (numbers w))"
proof -
  obtain a b c where v: "major v = Some a" "minor v = Some b" "patch v = Some c"
    using assms(1) by (auto simp: release_def version_wf_def)
  obtain a' b' c' where w: "major w = Some a'" "minor w = Some b'" "patch w = Some c'"
    using assms(2) by (auto simp: release_def version_wf_def)
  have "prerelease v = None" "prerelease w = None" using assms by (auto simp: release_def)
  with v w show ?thesis
    by (simp add: spec_cmp_def is_unbounded_def numbers_def unwrap_or_default_def compare_def less_prod_def)
qed

lemma matcher_cmp_exact: "matcher v = Exact \<Longrightarrow> matcher_cmp v w = Equal" "matcher w = Exact \<Longrightarrow> matcher_cmp v w = Equal"
  by (auto simp: matcher_cmp_def is_lower_bound_def is_upper_bound_def)

lemma spec_cmp_exact_release:
  assumes "release v" and "release w" and "matcher v = Exact \<or> matcher w = Exact"
  shows "spec_cmp v w = compare (numbers v) (numbers w)"
  using spec_cmp_release [OF assms(1,2)] assms(3) matcher_cmp_exact by auto

text \<open>On releases that are exact versions the comparison is the order of their numbers.\<close>

definition exact_release :: "VersionSpecifier \<Rightarrow> bool" where
  "exact_release v \<longleftrightarrow> release v \<and> matcher v = Exact"

lemma exact_release_cmp: "exact_release v \<Longrightarrow> exact_release w \<Longrightarrow> spec_cmp v w = compare (numbers v) (numbers w)"
  using spec_cmp_exact_release by (simp add: exact_release_def)

interpretation exact_releases: total_comparison "{v. exact_release v}" spec_cmp
proof unfold_locales
  fix v w assume "v \<in> {v. exact_release v}" "w \<in> {v. exact_release v}"
  then show "spec_cmp w v = ordering_reverse (spec_cmp v w)"
    using compare_reverse [of "numbers w" "numbers v"] by (simp add: exact_release_cmp)
qed (auto simp: exact_release_cmp)

section \<open>Requirements\<close>

text \<open>A version meets a requirement.\<close>

definition meets :: "VersionSpecifier \<Rightarrow> VersionSpecifier \<Rightarrow> bool" where
  "meets s v \<longleftrightarrow> is_unbounded s \<or>
     (case matcher s of
        Exact \<Rightarrow> spec_cmp s v = Equal
      | GreaterThan \<Rightarrow> spec_cmp s v = Less
      | GreaterThanOrEqualTo \<Rightarrow> spec_cmp s v = Less \<or> spec_cmp s v = Equal
      | LessThan \<Rightarrow> spec_cmp s v = Greater
      | LessThanOrEqualTo \<Rightarrow> spec_cmp s v = Greater \<or> spec_cmp s v = Equal)"

lemma meets_release:
  assumes "release s" and "release v" and "matcher v = Exact"
  shows "meets s v \<longleftrightarrow>
    (case matcher s of
       Exact \<Rightarrow> numbers v = numbers s
     | GreaterThan \<Rightarrow> numbers s < numbers v
     | GreaterThanOrEqualTo \<Rightarrow> numbers s \<le> numbers v
     | LessThan \<Rightarrow> numbers v < numbers s
     | LessThanOrEqualTo \<Rightarrow> numbers v \<le> numbers s)"
proof -
  have "spec_cmp s v = compare (numbers s) (numbers v)" using spec_cmp_exact_release assms by blast
  moreover have "\<not> is_unbounded s" using assms(1) version_wf_bounded by (simp add: release_def)
  ultimately show ?thesis by (auto simp: meets_def less_le_not_le split: Matchers.splits)
qed

text \<open>Two prerelease texts the comparison cannot tell apart are equal.\<close>

lemma part_cmp_refl [simp]: "part_cmp a a = Equal"
  by (auto simp: part_cmp_def str_cmp_def split: option.splits)

lemma parts_cmp_refl [simp]: "parts_cmp (zip xs xs) = Equal"
  by (induction xs) auto

lemma nat_cmp_refl [simp]: "nat_cmp a a = Equal"
  by (simp add: nat_cmp_def Let_def str_cmp_def)

lemma part_cmp_reverse: "part_cmp b a = ordering_reverse (part_cmp a b)"
  by (auto simp: part_cmp_def str_cmp_def split: option.splits intro: compare_reverse)

lemma parts_cmp_reverse: "parts_cmp (zip ys xs) = ordering_reverse (parts_cmp (zip xs ys))"
proof (induction ys arbitrary: xs)
  case (Cons y ys)
  show ?case
  proof (cases xs)
    case (Cons x xs')
    then show ?thesis using Cons.IH [of xs'] part_cmp_reverse [of y x] by (cases "part_cmp x y") auto
  qed simp
qed simp

lemma nat_cmp_reverse: "nat_cmp b a = ordering_reverse (nat_cmp a b)"
proof -
  define s t where "s = (case a of Some s \<Rightarrow> s | None \<Rightarrow> [])" and "t = (case b of Some s \<Rightarrow> s | None \<Rightarrow> [])"
  note p = parts_cmp_reverse [of "split_on (CHR ''.'') t" "split_on (CHR ''.'') s"]
  show ?thesis
    unfolding nat_cmp_def Let_def s_def [symmetric] t_def [symmetric] p str_cmp_def
    by (cases "parts_cmp (zip (split_on CHR ''.'' s) (split_on CHR ''.'' t))")
      (auto intro: compare_reverse)
qed

lemma show_nat_inj: "show_nat m = show_nat n \<longleftrightarrow> m = n"
  using show_nat_digits by metis

lemma identifier_show_nat:
  assumes "is_identifier a" and "parse_uint mx a = Some n"
  shows "a = show_nat n"
proof -
  obtain c r where a: "a = c # r" using assms(1) by (cases a) (auto simp: is_identifier_def)
  have "c \<noteq> CHR ''+''" using assms(1) dot_plus_dash(3) by (auto simp: is_identifier_def a)
  then have n: "list_all is_ascii_digit a" "n = dec_val a"
    using assms(2) by (auto simp: parse_uint_def Let_def a split: if_splits)
  then have "length a = 1 \<or> hd a \<noteq> CHR ''0''" using assms(1) by (auto simp: is_identifier_def)
  then show ?thesis using show_nat_dec_val [of a] n a by simp
qed

lemma identifier_parse:
  assumes "is_identifier a" and "is_identifier b" and "part_cmp a b = Equal"
  shows "a = b"
proof (cases "parse_uint u32_max a")
  case None
  then show ?thesis using assms(3) by (auto simp: part_cmp_def str_cmp_def split: option.splits)
next
  case (Some n)
  then obtain m where "parse_uint u32_max b = Some m" "n = m"
    using assms(3) by (auto simp: part_cmp_def split: option.splits)
  then show ?thesis using identifier_show_nat assms(1,2) Some by metis
qed

lemma parts_cmp_prefix:
  "list_all is_identifier xs \<Longrightarrow> list_all is_identifier ys \<Longrightarrow> parts_cmp (zip xs ys) = Equal \<Longrightarrow>
   (\<exists>zs. ys = xs @ zs) \<or> (\<exists>zs. xs = ys @ zs)"
proof (induction xs arbitrary: ys)
  case (Cons x xs)
  show ?case
  proof (cases ys)
    case ys: (Cons y ys')
    then have "x = y" using Cons.prems identifier_parse by (auto split: if_splits)
    then show ?thesis using Cons.IH [of ys'] Cons.prems ys by (auto split: if_splits)
  qed simp
qed simp

lemma join_longer:
  "xs \<noteq> [] \<Longrightarrow> zs \<noteq> [] \<Longrightarrow> str_len (join ''.'' xs) < str_len (join ''.'' (xs @ zs))"
proof (induction xs rule: induct_list012)
  case (2 x)
  then obtain z zs' where "zs = z # zs'" by (cases zs) auto
  then show ?case by (simp add: str_len_def)
next
  case (3 x y ys)
  then show ?case by (simp add: str_len_def)
qed simp

lemma nat_cmp_Equal:
  assumes "is_prerelease_text p" and "is_prerelease_text q" and "nat_cmp (Some p) (Some q) = Equal"
  shows "p = q"
proof -
  let ?ps = "split_on (CHR ''.'') p" and ?qs = "split_on (CHR ''.'') q"
  have l: "str_len p = str_len q" and e: "parts_cmp (zip ?ps ?qs) = Equal"
    using assms(3) show_nat_inj by (auto simp: nat_cmp_def Let_def str_cmp_def split: if_splits)
  have p: "p = join ''.'' ?ps" and q: "q = join ''.'' ?qs" by simp_all
  consider zs where "?qs = ?ps @ zs" | zs where "?ps = ?qs @ zs"
    using parts_cmp_prefix [OF _ _ e] assms(1,2) by (auto simp: is_prerelease_text_def)
  then have "?ps = ?qs"
  proof cases
    case (1 zs)
    then show ?thesis using join_longer [of ?ps zs] p q l by (cases "zs = []") auto
  next
    case (2 zs)
    then show ?thesis using join_longer [of ?qs zs] p q l by (cases "zs = []") auto
  qed
  then show ?thesis using p q by metis
qed

section \<open>Compatibility\<close>

text \<open>The comparison does not read the build metadata.\<close>

definition same :: "VersionSpecifier \<Rightarrow> VersionSpecifier \<Rightarrow> bool" where
  "same v w \<longleftrightarrow> major w = major v \<and> minor w = minor v \<and> patch w = patch v \<and>
     prerelease w = prerelease v \<and> matcher w = matcher v"

lemma same_cmp:
  assumes "same v w"
  shows "spec_cmp s w = spec_cmp s v" and "spec_cmp w s = spec_cmp v s"
proof -
  have f: "major w = major v" "minor w = minor v" "patch w = patch v" "prerelease w = prerelease v"
    "matcher w = matcher v" using assms by (simp_all add: same_def)
  show "spec_cmp s w = spec_cmp s v" and "spec_cmp w s = spec_cmp v s"
    unfolding spec_cmp_def matcher_cmp_def is_unbounded_def is_lower_bound_def is_upper_bound_def f
    by (rule refl)+
qed

lemma spec_cmp_refl: "matcher v = Exact \<Longrightarrow> spec_cmp v v = Equal"
  by (cases "prerelease v") (simp_all add: spec_cmp_def matcher_cmp_exact)

lemma spec_cmp_exact_Equal:
  assumes "version_wf v" and "version_wf w" and "matcher v = Exact" and "matcher w = Exact"
    and "spec_cmp v w = Equal"
  shows "same v w"
proof -
  have u: "\<not> is_unbounded v" "\<not> is_unbounded w" using assms(1,2) version_wf_bounded by auto
  have n: "major w = major v" "minor w = minor v" "patch w = patch v"
    using assms(5) u by (auto simp: spec_cmp_def split: if_splits)
  have "prerelease w = prerelease v"
  proof (cases "prerelease v"; cases "prerelease w")
    fix p q assume pq: "prerelease v = Some p" "prerelease w = Some q"
    then have "nat_cmp (Some p) (Some q) = Equal"
      using assms(5) u n by (auto simp: spec_cmp_def split: if_splits)
    moreover have "is_prerelease_text p" "is_prerelease_text q" using assms(1,2) pq by (simp_all add: version_wf_def)
    ultimately have "p = q" using nat_cmp_Equal by blast
    then show ?thesis using pq by simp
  qed (use assms(5) u n in \<open>auto simp: spec_cmp_def split: if_splits\<close>)
  then show ?thesis using n assms(3,4) by (simp add: same_def)
qed

lemma same_props:
  assumes "same v w" and "version_wf v" and "matcher v = Exact"
  shows "matcher w = Exact" and "\<not> is_unbounded w" and "is_exact w"
  using assms version_wf_bounded [OF assms(2)] by (auto simp: same_def is_unbounded_def is_exact_def)

lemma default_unbounded [simp]: "is_unbounded default_spec" "\<not> is_exact default_spec"
  by (simp_all add: default_spec_def is_unbounded_def is_exact_def)

text \<open>Once a range holds only the exact version, every further requirement is checked against it.\<close>

definition pinned :: "VersionSpecifier \<Rightarrow> VersionRange \<Rightarrow> bool" where
  "pinned v r \<longleftrightarrow> (\<exists>w. same v w \<and> start r = w \<and> end_of r = w)"

lemma reduce_pinned:
  assumes v: "version_wf v" "matcher v = Exact" and r: "pinned v r" and s: "\<not> is_unbounded s"
    and sym: "matcher s = Exact \<Longrightarrow> spec_cmp v s = Equal \<longleftrightarrow> spec_cmp s v = Equal"
  shows "if meets s v then \<exists>r'. reduce r (range_from s) = Inr r' \<and> pinned v r'
         else \<not> is_ok (reduce r (range_from s))"
proof -
  obtain w where w: "same v w" "start r = w" "end_of r = w" using r by (auto simp: pinned_def)
  note wp = same_props [OF w(1) v]
  have ww: "spec_cmp w w = Equal" using wp(1) by (rule spec_cmp_refl)
  note sw = same_cmp(1) [OF w(1), of s] and ws = same_cmp(2) [OF w(1), of s]
  have ex: "is_exact s \<longleftrightarrow> matcher s = Exact" using s by (simp add: is_exact_def)
  have pin: "pinned v \<lparr>start = w, end_of = w\<rparr>" using w(1) by (auto simp: pinned_def)
  note d = reduce_def range_from_def meets_def runtime_error_def incompatible_def
  note c = try_combine_exact_def try_combine_lower_bound_def try_combine_upper_bound_def
    try_combine_lower_bound_with_exact_def try_combine_upper_bound_with_exact_def
  show ?thesis
    by (cases "matcher s") (use sym s pin in \<open>simp_all add: d c w(2,3) wp ex ww sw ws\<close>)
qed

lemma spec_cmp_exact_sym:
  assumes "version_wf v" and "version_wf s" and "matcher v = Exact" and "matcher s = Exact"
  shows "spec_cmp v s = Equal \<longleftrightarrow> spec_cmp s v = Equal"
proof -
  have "spec_cmp b a = Equal" if ab: "version_wf a" "version_wf b" "matcher a = Exact" "matcher b = Exact"
    "spec_cmp a b = Equal" for a b
    using same_cmp(2) [OF spec_cmp_exact_Equal [OF ab], of a] spec_cmp_refl [OF ab(3)] by simp
  then show ?thesis using assms by blast
qed

lemma reduce_all_pinned:
  assumes v: "version_wf v" "matcher v = Exact"
  shows "pinned v r \<Longrightarrow> \<forall>s \<in> set ss. version_wf s \<Longrightarrow> is_ok (reduce_all r ss) \<longleftrightarrow> (\<forall>s \<in> set ss. meets s v)"
proof (induction ss arbitrary: r)
  case (Cons s ss)
  have s: "version_wf s" "\<not> is_unbounded s" using Cons.prems(2) version_wf_bounded by auto
  have sym: "matcher s = Exact \<Longrightarrow> spec_cmp v s = Equal \<longleftrightarrow> spec_cmp s v = Equal"
    using spec_cmp_exact_sym [OF v(1) s(1) v(2)] by simp
  note step = reduce_pinned [OF v Cons.prems(1) s(2) sym]
  show ?case
  proof (cases "meets s v")
    case True
    then obtain r' where "reduce r (range_from s) = Inr r'" "pinned v r'" using step by auto
    then show ?thesis using Cons.IH [of r'] Cons.prems(2) True by simp
  next
    case False
    then obtain e where "reduce r (range_from s) = Inl e"
      using step by (cases "reduce r (range_from s)") auto
    then show ?thesis using False by simp
  qed
qed simp

text \<open>The first requirement is the last of the list; the version then pins the range.\<close>

lemma reduce_first:
  assumes v: "version_wf v" "matcher v = Exact" and s: "version_wf s"
  shows "if meets s v then \<exists>r. reduce (range_from s) (range_from v) = Inr r \<and> pinned v r
         else \<not> is_ok (reduce (range_from s) (range_from v))"
proof -
  have u: "\<not> is_unbounded v" "\<not> is_unbounded s" using v(1) s version_wf_bounded by auto
  have ev: "is_exact v" using u v(2) by (simp add: is_exact_def)
  have ex: "is_exact s \<longleftrightarrow> matcher s = Exact" using u by (simp add: is_exact_def)
  have vv: "spec_cmp v v = Equal" using v(2) by (rule spec_cmp_refl)
  have ss: "matcher s = Exact \<Longrightarrow> spec_cmp s s = Equal" by (rule spec_cmp_refl)
  have pin: "pinned v \<lparr>start = v, end_of = v\<rparr>" by (auto simp: pinned_def same_def)
  have pin2: "pinned v \<lparr>start = s, end_of = s\<rparr>" if "matcher s = Exact" "spec_cmp s v = Equal"
  proof -
    have "spec_cmp v s = Equal" using spec_cmp_exact_sym [OF v(1) s v(2)] that by simp
    then have "same v s" using spec_cmp_exact_Equal v s that by blast
    then show ?thesis by (auto simp: pinned_def)
  qed
  note d = reduce_def range_from_def meets_def runtime_error_def incompatible_def
  note c = try_combine_exact_def try_combine_lower_bound_def try_combine_upper_bound_def
    try_combine_lower_bound_with_exact_def try_combine_upper_bound_with_exact_def
  show ?thesis
    by (cases "matcher s") (use pin pin2 in \<open>simp_all add: d c u ev ex vv ss v(2)\<close>)
qed

lemma collect_specs: "collect_specifiers (map Spec ss) = Inr (filter (\<lambda>s. \<not> is_unbounded s) ss)"
  by (induction ss) auto

lemma unbounded_meets: "is_unbounded s \<Longrightarrow> meets s v"
  by (simp add: meets_def)

lemma compatible_iff_meets:
  assumes v: "version_wf v" "matcher v = Exact" and ss: "\<forall>s \<in> set ss. is_unbounded s \<or> version_wf s"
  shows "versions_compatible (map Spec (v # ss)) \<longleftrightarrow> (\<forall>s \<in> set ss. meets s v)"
proof (cases ss)
  case Nil
  then show ?thesis by (simp add: versions_compatible_def)
next
  case (Cons s0 ss0)
  let ?b = "filter (\<lambda>s. \<not> is_unbounded s) ss"
  have u: "\<not> is_unbounded v" using v(1) by (rule version_wf_bounded)
  have m: "(\<forall>s \<in> set ss. meets s v) \<longleftrightarrow> (\<forall>s \<in> set ?b. meets s v)" using unbounded_meets by auto
  have wf: "\<forall>s \<in> set ?b. version_wf s" using ss by auto
  have l: "versions_compatible (map Spec (v # ss)) \<longleftrightarrow> is_ok (reduce_versions (map Spec (v # ss)))"
    using Cons by (simp add: versions_compatible_def)
  have c: "collect_specifiers (map Spec (v # ss)) = Inr (v # ?b)" using collect_specs [of "v # ss"] u by simp
  show ?thesis
  proof (cases ?b rule: rev_cases)
    case Nil
    then show ?thesis using l c m by (simp add: reduce_versions_def)
  next
    case (snoc b s)
    have s: "version_wf s" and b: "\<forall>x \<in> set b. version_wf x" using wf snoc by auto
    have rv: "reduce_versions (map Spec (v # ss)) =
        rbind (reduce (range_from s) (range_from v)) (\<lambda>r'. reduce_all r' b)"
      unfolding reduce_versions_def c snoc by (simp add: butlast_append)
    show ?thesis
    proof (cases "meets s v")
      case True
      then obtain r where "reduce (range_from s) (range_from v) = Inr r" "pinned v r"
        using reduce_first [OF v s] by auto
      then show ?thesis using l rv m snoc True reduce_all_pinned [OF v _ b] by simp
    next
      case False
      then obtain e where "reduce (range_from s) (range_from v) = Inl e"
        using reduce_first [OF v s] by (cases "reduce (range_from s) (range_from v)") auto
      then show ?thesis using l rv m snoc False by simp
    qed
  qed
qed

section \<open>The version that is chosen\<close>

definition bound_ok :: "VersionSpecifier \<Rightarrow> bool" where
  "bound_ok s \<longleftrightarrow> is_unbounded s \<or> version_wf s"

lemma in_range_meets:
  assumes "version_wf v" and "matcher v = Exact" and "bound_ok (start r)" and "bound_ok (end_of r)"
  shows "in_range r v \<longleftrightarrow> meets (start r) v \<and> meets (end_of r) v"
  using compatible_iff_meets [of v "[start r, end_of r]"] assms by (simp add: in_range_def bound_ok_def)

text \<open>The scan keeps the greatest matching release seen so far.\<close>

definition best_of :: "VersionRange \<Rightarrow> (VersionSpecifier \<times> string) list \<Rightarrow> (VersionSpecifier \<times> string) option \<Rightarrow> bool" where
  "best_of r seen best \<longleftrightarrow>
     (case best of
        None \<Rightarrow> \<forall>(v, s) \<in> set seen. \<not> in_range r v
      | Some (m, t) \<Rightarrow> (m, t) \<in> set seen \<and> in_range r m \<and>
          (\<forall>(v, s) \<in> set seen. in_range r v \<longrightarrow> numbers v \<le> numbers m))"

lemma resolve_loop_best:
  "list_all2 (\<lambda>s v. from_str s = Inr v \<and> exact_release v) ss vs \<Longrightarrow> best_of r seen best \<Longrightarrow>
   (\<forall>(v, s) \<in> set seen. exact_release v) \<Longrightarrow>
   \<exists>best'. resolve_loop r best ss = Inr (map_option snd best') \<and> best_of r (seen @ zip vs ss) best'"
proof (induction ss arbitrary: vs seen best)
  case (Cons s ss)
  obtain v vs' where vs: "vs = v # vs'" "from_str s = Inr v" "exact_release v"
    "list_all2 (\<lambda>s v. from_str s = Inr v \<and> exact_release v) ss vs'"
    using Cons.prems(1) by (auto simp: list_all2_Cons1)
  let ?best = "if in_range r v \<and> (case best of None \<Rightarrow> True | Some (m, _) \<Rightarrow> spec_cmp m v = Less)
      then Some (v, s) else best"
  have seen: "\<forall>(v, s) \<in> set (seen @ [(v, s)]). exact_release v" using Cons.prems(3) vs(3) by auto
  have "best_of r (seen @ [(v, s)]) ?best"
  proof (cases best)
    case None
    then show ?thesis using Cons.prems(2) by (auto simp: best_of_def)
  next
    case (Some mt)
    obtain m t where mt: "mt = (m, t)" by (cases mt)
    have m: "(m, t) \<in> set seen" "in_range r m" "\<forall>(v, s) \<in> set seen. in_range r v \<longrightarrow> numbers v \<le> numbers m"
      using Cons.prems(2) Some mt by (auto simp: best_of_def)
    have "exact_release m" using m(1) Cons.prems(3) by auto
    then have "spec_cmp m v = Less \<longleftrightarrow> numbers m < numbers v" using exact_release_cmp vs(3) by simp
    then show ?thesis using m Some mt by (fastforce simp: best_of_def)
  qed
  from Cons.IH [OF vs(4) this seen] show ?case using vs(1,2) by simp
qed (auto simp: best_of_def)

lemma resolve_correct:
  assumes "list_all2 (\<lambda>s v. from_str s = Inr v \<and> exact_release v) available vs"
    and "bound_ok (start r)" and "bound_ok (end_of r)"
  shows "case resolve_to_specific_version r available of
      Inl e \<Rightarrow> False
    | Inr None \<Rightarrow> \<forall>v \<in> set vs. \<not> (meets (start r) v \<and> meets (end_of r) v)
    | Inr (Some s) \<Rightarrow> s \<in> set available \<and>
        (\<exists>m. from_str s = Inr m \<and> meets (start r) m \<and> meets (end_of r) m \<and>
          (\<forall>v \<in> set vs. meets (start r) v \<and> meets (end_of r) v \<longrightarrow> numbers v \<le> numbers m))"
proof -
  have "best_of r [] None" by (simp add: best_of_def)
  from resolve_loop_best [OF assms(1) this] obtain best where
    b: "resolve_to_specific_version r available = Inr (map_option snd best)" "best_of r (zip vs available) best"
    by (auto simp: resolve_to_specific_version_def)
  have len: "length available = length vs" using assms(1) by (rule list_all2_lengthD)
  have z: "from_str s = Inr v \<and> exact_release v" if "(v, s) \<in> set (zip vs available)" for v s
    using that assms(1) by (auto simp: list_all2_conv_all_nth set_zip)
  have vs: "\<exists>s. (v, s) \<in> set (zip vs available)" if "v \<in> set vs" for v
    using that len by (metis in_set_impl_in_set_zip1)
  have ir: "in_range r v \<longleftrightarrow> meets (start r) v \<and> meets (end_of r) v" if "(v, s) \<in> set (zip vs available)" for v s
    using in_range_meets assms(2,3) z [OF that] by (simp add: exact_release_def release_def)
  show ?thesis
  proof (cases best)
    case None
    then have "\<forall>v \<in> set vs. \<not> (meets (start r) v \<and> meets (end_of r) v)"
      using b(2) vs ir by (fastforce simp: best_of_def)
    then show ?thesis using b(1) None by simp
  next
    case (Some mt)
    obtain m t where mt: "mt = (m, t)" by (cases mt)
    have m: "(m, t) \<in> set (zip vs available)" "in_range r m"
      "\<forall>(v, s) \<in> set (zip vs available). in_range r v \<longrightarrow> numbers v \<le> numbers m"
      using b(2) Some mt by (auto simp: best_of_def)
    have "\<forall>v \<in> set vs. meets (start r) v \<and> meets (end_of r) v \<longrightarrow> numbers v \<le> numbers m"
      using m(3) vs ir by fastforce
    moreover have "t \<in> set available" using m(1) by (rule set_zip_rightD)
    ultimately show ?thesis using b(1) Some mt m(2) ir [OF m(1)] z [OF m(1)] by auto
  qed
qed

section \<open>Installable versions\<close>

lemma to_version_string_inj:
  "version_wf v \<Longrightarrow> version_wf w \<Longrightarrow> to_version_string v False = to_version_string w False \<Longrightarrow> v = w"
  using from_str_to_string by (metis sum.inject(2))

lemma collect_installable_spec:
  "list_all2 (\<lambda>s v. from_str s = Inr v) ss vs \<Longrightarrow>
   \<exists>m'. collect_installable b ss m acc = Inr (m', acc @ filter (\<lambda>v. b \<or> \<not> is_prerelease v) vs) \<and>
     (\<forall>k s. map_of m' k = Some s \<longrightarrow> map_of m k = Some s \<or>
        (s \<in> set ss \<and> (\<exists>v. from_str s = Inr v \<and> to_version_string v False = k))) \<and>
     dom (map_of m') = dom (map_of m) \<union>
       (\<lambda>v. to_version_string v False) ` set (filter (\<lambda>v. b \<or> \<not> is_prerelease v) vs)"
proof (induction ss arbitrary: vs m acc)
  case (Cons s ss)
  obtain v vs' where vs: "vs = v # vs'" "from_str s = Inr v" "list_all2 (\<lambda>s v. from_str s = Inr v) ss vs'"
    using Cons.prems by (auto simp: list_all2_Cons1)
  show ?case
  proof (cases "b \<or> \<not> is_prerelease v")
    case True
    from Cons.IH [OF vs(3), of "bm_insert (to_version_string v False) s m" "acc @ [v]"] obtain m' where
      "collect_installable b ss (bm_insert (to_version_string v False) s m) (acc @ [v]) =
         Inr (m', (acc @ [v]) @ filter (\<lambda>v. b \<or> \<not> is_prerelease v) vs')"
      "\<forall>k t. map_of m' k = Some t \<longrightarrow> map_of (bm_insert (to_version_string v False) s m) k = Some t \<or>
        (t \<in> set ss \<and> (\<exists>v. from_str t = Inr v \<and> to_version_string v False = k))"
      "dom (map_of m') = dom (map_of (bm_insert (to_version_string v False) s m)) \<union>
       (\<lambda>v. to_version_string v False) ` set (filter (\<lambda>v. b \<or> \<not> is_prerelease v) vs')" by blast
    then show ?thesis using vs(1,2) True by (intro exI [of _ m']) (auto split: if_splits)
  next
    case False
    from Cons.IH [OF vs(3), of m acc] obtain m' where
      "collect_installable b ss m acc = Inr (m', acc @ filter (\<lambda>v. b \<or> \<not> is_prerelease v) vs')"
      "\<forall>k t. map_of m' k = Some t \<longrightarrow> map_of m k = Some t \<or>
        (t \<in> set ss \<and> (\<exists>v. from_str t = Inr v \<and> to_version_string v False = k))"
      "dom (map_of m') = dom (map_of m) \<union>
       (\<lambda>v. to_version_string v False) ` set (filter (\<lambda>v. b \<or> \<not> is_prerelease v) vs')" by blast
    then show ?thesis using vs(1,2) False by (intro exI [of _ m']) auto
  qed
qed simp

lemma filter_installable_correct:
  assumes "list_all2 (\<lambda>s v. from_str s = Inr v) versions vs" and "\<forall>v \<in> set vs. version_wf v"
  shows "\<exists>ys. filter_installable versions b = Inr ys \<and> set ys \<subseteq> set versions \<and>
     list_all2 (\<lambda>s v. from_str s = Inr v) ys (sort_by spec_cmp (filter (\<lambda>v. b \<or> \<not> is_prerelease v) vs))"
proof -
  let ?inst = "filter (\<lambda>v. b \<or> \<not> is_prerelease v) vs"
  obtain m where m: "collect_installable b versions [] [] = Inr (m, ?inst)"
    "\<And>k s. map_of m k = Some s \<Longrightarrow> s \<in> set versions \<and> (\<exists>v. from_str s = Inr v \<and> to_version_string v False = k)"
    "dom (map_of m) = (\<lambda>v. to_version_string v False) ` set ?inst"
    using collect_installable_spec [OF assms(1), of b "[]" "[]"] by auto
  have vs: "version_wf v" if "from_str s = Inr v" "s \<in> set versions" for s v
  proof -
    obtain i where "i < length versions" "versions ! i = s" using \<open>s \<in> set versions\<close> by (auto simp: in_set_conv_nth)
    then show ?thesis using assms that(1) by (auto simp: list_all2_conv_all_nth)
  qed
  define f where "f v = the (map_of m (to_version_string v False))" for v
  have f: "map_of m (to_version_string v False) = Some (f v) \<and> f v \<in> set versions \<and> from_str (f v) = Inr v"
    if v: "v \<in> set ?inst" for v
  proof -
    have "to_version_string v False \<in> dom (map_of m)" using m(3) v by auto
    then have s: "map_of m (to_version_string v False) = Some (f v)" by (auto simp: f_def)
    from m(2) [OF this] obtain w where w: "from_str (f v) = Inr w"
      "to_version_string w False = to_version_string v False" "f v \<in> set versions" by blast
    have "version_wf w" "version_wf v" using vs [OF w(1,3)] assms(2) v by auto
    then have "w = v" using to_version_string_inj w(2) by blast
    then show ?thesis using s w by simp
  qed
  let ?sorted = "sort_by spec_cmp ?inst"
  have "collect_results (\<lambda>v. case map_of m (to_version_string v False) of Some s \<Rightarrow> Inr s
               | None \<Rightarrow> Inl (Panic ''called `Option::unwrap()` on a `None` value'')) ?sorted = Inr (map f ?sorted)"
    using f by (intro collect_results_map) simp
  then have "filter_installable versions b = Inr (map f ?sorted)"
    by (simp add: filter_installable_def m(1))
  moreover have "list_all2 (\<lambda>s v. from_str s = Inr v) (map f ?sorted) ?sorted"
    unfolding list_all2_map1 by (rule list.rel_refl_strong) (use f in simp)
  moreover have "set (map f ?sorted) \<subseteq> set versions" using f by auto
  ultimately show ?thesis by blast
qed

section \<open>Where the comparison is not an order\<close>

definition pre_version :: "string \<Rightarrow> VersionSpecifier" where
  "pre_version p = \<lparr>major = Some 1, minor = Some 0, patch = Some 0, prerelease = Some p, build = None, matcher = Exact\<rparr>"

text \<open>
  The lengths of two prereleases are compared as strings of digits, so that 10 is below 2: three
  prereleases are each below the next around a circle, and \<^verbatim>\<open>sort\<close> is called on such values.
\<close>

lemmas text_eval = parse_uint_def Let_def dec_val_def digit_val_def is_ascii_digit_def char_code_def
  str_len_def show_nat.simps digit_char_def char_of_def bit_iff_odd starts_with_def split_once_def
  is_ascii_alphanumeric_def is_ascii_alphabetic_def is_ascii_upper_def is_ascii_lower_def

lemmas version_eval = pre_version_def spec_cmp_def is_unbounded_def nat_cmp_def part_cmp_def str_cmp_def
  matcher_cmp_def compare_def less_char_def

text \<open>A fourth number is read as a prerelease when the third has two digits.\<close>

lemmas parse_eval = from_str_def match_matcher_def match_number_dot_def match_patch_extra_def match_extra_def
  is_prerelease_text_def is_identifier_def id_char_def

lemma four_numbers:
  "is_ok (from_str ''1.2.12.3'') \<and> \<not> is_ok (from_str ''1.2.3.4'')"
  by (simp add: parse_eval text_eval)

end
