(* ===== verification/Semver_Contract.thy ===== *)
theory Semver_Contract imports Semver_Correct "HOL-Library.Multiset" begin

text \<open>
  What package resolution may rely on of \<^verbatim>\<open>crates/dbt-deps/src/semver.rs\<close>: versions survive printing
  and parsing, requirements on releases mean what their operators say, the resolved version is the
  greatest available one in range, and where the comparison is not the order its users assume.
\<close>

lemma mset_sort_by: "mset (sort_by c xs) = mset xs"
proof -
  have "mset (insert_by c x ys) = add_mset x (mset ys)" for x ys by (induction ys) auto
  then show ?thesis unfolding sort_by_def by (induction xs) auto
qed

text \<open>Version \<open>a.b.c\<close> with a matcher, as the parser returns it.\<close>

definition plain :: "Matchers \<Rightarrow> nat \<Rightarrow> nat \<Rightarrow> nat \<Rightarrow> VersionSpecifier" where
  "plain m a b c = \<lparr>major = Some a, minor = Some b, patch = Some c, prerelease = None, build = None, matcher = m\<rparr>"

lemma plain_wf: "a \<le> u64_max \<Longrightarrow> b \<le> u64_max \<Longrightarrow> c \<le> u64_max \<Longrightarrow> release (plain m a b c)"
  by (simp add: plain_def release_def version_wf_def)

lemma plain_simps [simp]:
  "matcher (plain m a b c) = m" "numbers (plain m a b c) = (a, b, c)"
  by (simp_all add: plain_def numbers_def unwrap_or_default_def)

lemma plain_small [simp]: "a \<le> 100 \<Longrightarrow> b \<le> 100 \<Longrightarrow> c \<le> 100 \<Longrightarrow> release (plain m a b c)"
  by (rule plain_wf) simp_all

text \<open>A version whose numbers are 64 bit and whose prerelease and build texts are in the grammar is
  read back from its printed form unchanged; and what the parser accepts, when its numbers fit, is
  such a version.\<close>

theorem version_round_trip:
  "(version_wf v \<longrightarrow> from_str (to_version_string v False) = Inr v) \<and>
   (from_str s = Inr v \<and> major v \<noteq> None \<and> minor v \<noteq> None \<and> patch v \<noteq> None \<longrightarrow> version_wf v)"
  using from_str_to_string from_str_wf by blast

theorem version_round_trip_witness:
  "from_str (to_version_string (plain GreaterThan 1 2 3) False) = Inr (plain GreaterThan 1 2 3)"
  using version_round_trip [of "plain GreaterThan 1 2 3" "[]"] plain_small [of 1 2 3 GreaterThan]
  by (simp add: release_def)

text \<open>An exact release is compatible with a list of requirements on releases exactly when its numbers
  satisfy the operator of each of them.\<close>

theorem versions_compatible_releases:
  assumes "exact_release v" and "\<forall>s \<in> set ss. release s"
  shows "versions_compatible (map Spec (v # ss)) \<longleftrightarrow>
    (\<forall>s \<in> set ss.
       case matcher s of
         Exact \<Rightarrow> numbers v = numbers s
       | GreaterThan \<Rightarrow> numbers s < numbers v
       | GreaterThanOrEqualTo \<Rightarrow> numbers s \<le> numbers v
       | LessThan \<Rightarrow> numbers v < numbers s
       | LessThanOrEqualTo \<Rightarrow> numbers v \<le> numbers s)"
  using compatible_iff_meets [of v ss] meets_release [of _ v] assms by (auto simp: exact_release_def release_def)

theorem versions_compatible_witness:
  "versions_compatible (map Spec [plain Exact 1 5 0, plain GreaterThanOrEqualTo 1 2 0, plain LessThan 2 0 0]) \<and>
   \<not> versions_compatible (map Spec [plain Exact 2 0 0, plain GreaterThanOrEqualTo 1 2 0, plain LessThan 2 0 0])"
  using versions_compatible_releases [of "plain Exact 1 5 0" "[plain GreaterThanOrEqualTo 1 2 0, plain LessThan 2 0 0]"]
    versions_compatible_releases [of "plain Exact 2 0 0" "[plain GreaterThanOrEqualTo 1 2 0, plain LessThan 2 0 0]"]
  by (simp add: exact_release_def less_prod_def less_eq_prod_def)

text \<open>C31 Resolving a range among published exact releases never fails; it returns none of them only when none
  is in the range, and otherwise one in the range with the greatest numbers.\<close>

theorem resolve_to_specific_version_greatest:
  assumes "list_all2 (\<lambda>s v. from_str s = Inr v \<and> exact_release v) available vs"
    and "bound_ok (start r)" and "bound_ok (end_of r)"
  shows "case resolve_to_specific_version r available of
      Inl e \<Rightarrow> False
    | Inr None \<Rightarrow> \<forall>v \<in> set vs. \<not> (meets (start r) v \<and> meets (end_of r) v)
    | Inr (Some s) \<Rightarrow> s \<in> set available \<and>
        (\<exists>m. from_str s = Inr m \<and> meets (start r) m \<and> meets (end_of r) m \<and>
          (\<forall>v \<in> set vs. meets (start r) v \<and> meets (end_of r) v \<longrightarrow> numbers v \<le> numbers m))"
  using resolve_correct [OF assms] .

theorem resolve_to_specific_version_witness:
  "\<exists>s. resolve_to_specific_version \<lparr>start = default_spec, end_of = default_spec\<rparr>
     [to_version_string (plain Exact 1 2 3) False] = Inr s"
proof -
  have "version_wf (plain Exact 1 2 3)" "exact_release (plain Exact 1 2 3)"
    using plain_small [of 1 2 3 Exact] by (simp_all add: release_def exact_release_def)
  then show ?thesis
    using resolve_to_specific_version_greatest [of "[to_version_string (plain Exact 1 2 3) False]"
      "[plain Exact 1 2 3]" "\<lparr>start = default_spec, end_of = default_spec\<rparr>"] from_str_to_string
    by (auto simp: bound_ok_def split: sum.splits)
qed

text \<open>Listing the installable versions of a package drops the prereleases unless they are asked for and,
  on exact releases, returns published texts sorted by version number, none lost and none invented.\<close>

theorem filter_installable_sorted:
  assumes "list_all2 (\<lambda>s v. from_str s = Inr v) versions vs"
    and "\<forall>v \<in> set vs. version_wf v \<and> (is_prerelease v \<or> exact_release v)"
  shows "\<exists>ys ws. filter_installable versions False = Inr ys \<and> set ys \<subseteq> set versions \<and>
     list_all2 (\<lambda>s v. from_str s = Inr v) ys ws \<and>
     mset ws = mset (filter (\<lambda>v. \<not> is_prerelease v) vs) \<and> sorted (map numbers ws)"
proof -
  let ?vs = "filter (\<lambda>v. \<not> is_prerelease v) vs"
  have rel: "exact_release v" if "v \<in> set ?vs" for v using assms(2) that by auto
  then have "set ?vs \<subseteq> {v. exact_release v}" by auto
  from exact_releases.sorted_sort_by [OF this]
  have "sorted_wrt (\<lambda>v w. numbers v \<le> numbers w) (sort_by spec_cmp ?vs)"
    by (rule sorted_wrt_mono_rel [rotated]) (auto simp: exact_release_cmp rel not_less)
  then have "sorted (map numbers (sort_by spec_cmp ?vs))" by (simp add: sorted_wrt_map)
  then show ?thesis
    using filter_installable_correct [of versions vs False] assms mset_sort_by [of spec_cmp ?vs] by auto
qed

theorem filter_installable_witness:
  "\<exists>ys. filter_installable [to_version_string (plain Exact 1 2 3) False] False = Inr ys \<and> length ys = 1"
proof -
  have "version_wf (plain Exact 1 2 3)" "exact_release (plain Exact 1 2 3)" "\<not> is_prerelease (plain Exact 1 2 3)"
    using plain_small [of 1 2 3 Exact] by (simp_all add: release_def exact_release_def is_prerelease_def)
  then show ?thesis
    using filter_installable_sorted [of "[to_version_string (plain Exact 1 2 3) False]" "[plain Exact 1 2 3]"]
      from_str_to_string
    by (auto dest!: list_all2_lengthD)
qed

text \<open>What the comparison of exact versions does guarantee.\<close>

lemma exact_cmp_reverse:
  assumes "version_wf v" and "version_wf w" and "matcher v = Exact" and "matcher w = Exact"
  shows "spec_cmp w v = ordering_reverse (spec_cmp v w)"
proof -
  note rev = compare_option_reverse [of "major w" "major v"] compare_option_reverse [of "minor w" "minor v"]
    compare_option_reverse [of "patch w" "patch v"] nat_cmp_reverse [of "prerelease w" "prerelease v"]
  have u: "\<not> is_unbounded v" "\<not> is_unbounded w" using assms(1,2) version_wf_bounded by auto
  have e: "ordering_reverse c = Equal \<longleftrightarrow> c = Equal" for c by (cases c) simp_all
  show ?thesis
    unfolding spec_cmp_def rev e matcher_cmp_exact(1) [OF assms(3)] matcher_cmp_exact(1) [OF assms(4)]
    using u assms(3,4) by simp
qed

lemma exact_cmp_numbers:
  assumes "version_wf v" and "version_wf w" and "numbers v \<noteq> numbers w"
  shows "spec_cmp v w = compare (numbers v) (numbers w)"
proof -
  obtain a b c where v: "major v = Some a" "minor v = Some b" "patch v = Some c"
    using assms(1) by (auto simp: version_wf_def)
  obtain a' b' c' where w: "major w = Some a'" "minor w = Some b'" "patch w = Some c'"
    using assms(2) by (auto simp: version_wf_def)
  show ?thesis
    using v w assms(3) by (auto simp: spec_cmp_def is_unbounded_def numbers_def unwrap_or_default_def compare_def less_prod_def)
qed

lemma same_numbers:
  assumes "version_wf v" and "version_wf w" and "numbers v = numbers w"
  shows "major w = major v" and "minor w = minor v" and "patch w = patch v"
  using assms by (auto simp: version_wf_def numbers_def unwrap_or_default_def)

lemma same_cmp_Equal:
  assumes "same v w" and "matcher v = Exact"
  shows "spec_cmp v w = Equal"
  using same_cmp(1) [OF assms(1), of v] spec_cmp_refl [OF assms(2)] by simp

lemma prerelease_cmp:
  assumes "version_wf v" and "nat_cmp (Some p) (Some q) = Less"
  shows "spec_cmp (v\<lparr>prerelease := Some p\<rparr>) (v\<lparr>prerelease := Some q\<rparr>) = Less"
proof -
  have "\<not> is_unbounded (v\<lparr>prerelease := x\<rparr>)" for x
    using version_wf_bounded [OF assms(1)] by (simp add: is_unbounded_def)
  then show ?thesis using assms(2) by (simp add: spec_cmp_def)
qed

lemma short_identifiers: "is_identifier ''a''" "is_identifier ''aa''" "is_identifier ''bbbbbbb''"
  by (simp_all add: is_identifier_def id_char_def is_ascii_alphanumeric_def is_ascii_alphabetic_def is_ascii_upper_def is_ascii_lower_def
      is_ascii_digit_def char_code_def)

text \<open>C34 What holds of the comparison of exact versions, and what fails. It is antisymmetric, equal only on
  versions that differ at most in their build metadata, decided by the numbers when they differ, and
  puts a prerelease below the release of its numbers. But at every number there are three
  prereleases, in the grammar, that are below one another in a circle, because texts with equal
  prefixes are ordered by the decimal texts of their lengths; and every upper bound \<^verbatim>\<open><n\<close> and every
  prerelease of \<open>n\<close> are each below the other. So the comparison is neither transitive nor, with
  requirements, antisymmetric.\<close>

theorem version_comparison_laws:
  assumes "version_wf v" and "version_wf w" and "matcher v = Exact" and "matcher w = Exact"
  shows "spec_cmp w v = ordering_reverse (spec_cmp v w) \<and>
    (spec_cmp v w = Equal \<longleftrightarrow> same v w) \<and>
    (numbers v \<noteq> numbers w \<longrightarrow> spec_cmp v w = compare (numbers v) (numbers w)) \<and>
    (numbers v = numbers w \<and> prerelease v \<noteq> None \<and> prerelease w = None \<longrightarrow> spec_cmp v w = Less) \<and>
    (\<exists>p q r. is_prerelease_text p \<and> is_prerelease_text q \<and> is_prerelease_text r \<and>
      spec_cmp (v\<lparr>prerelease := Some p\<rparr>) (v\<lparr>prerelease := Some q\<rparr>) = Less \<and>
      spec_cmp (v\<lparr>prerelease := Some q\<rparr>) (v\<lparr>prerelease := Some r\<rparr>) = Less \<and>
      spec_cmp (v\<lparr>prerelease := Some r\<rparr>) (v\<lparr>prerelease := Some p\<rparr>) = Less) \<and>
    (numbers v = numbers w \<and> prerelease w \<noteq> None \<longrightarrow>
      spec_cmp (v\<lparr>prerelease := None, matcher := LessThan\<rparr>) w = Less \<and>
      spec_cmp w (v\<lparr>prerelease := None, matcher := LessThan\<rparr>) = Less)"
proof (intro conjI impI)
  have u: "\<not> is_unbounded v" "\<not> is_unbounded w" using assms(1,2) version_wf_bounded by auto
  show "spec_cmp w v = ordering_reverse (spec_cmp v w)" by (rule exact_cmp_reverse [OF assms])
  show "spec_cmp v w = Equal \<longleftrightarrow> same v w"
    using spec_cmp_exact_Equal [OF assms] same_cmp_Equal assms(3) by blast
  show "spec_cmp v w = compare (numbers v) (numbers w)" if "numbers v \<noteq> numbers w"
    by (rule exact_cmp_numbers [OF assms(1,2) that])
  show "spec_cmp v w = Less" if "numbers v = numbers w \<and> prerelease v \<noteq> None \<and> prerelease w = None"
    using that u same_numbers [OF assms(1,2)] by (auto simp: spec_cmp_def)
  have "nat_cmp (Some ''aa.bbbbbbb'') (Some ''aa'') = Less" "nat_cmp (Some ''aa'') (Some ''aa.a'') = Less"
    "nat_cmp (Some ''aa.a'') (Some ''aa.bbbbbbb'') = Less"
    by (simp_all add: version_eval text_eval)
  moreover have "is_prerelease_text ''aa.bbbbbbb''" "is_prerelease_text ''aa''" "is_prerelease_text ''aa.a''"
    by (simp_all add: version_eval text_eval is_prerelease_text_def short_identifiers)
  ultimately show "\<exists>p q r. is_prerelease_text p \<and> is_prerelease_text q \<and> is_prerelease_text r \<and>
      spec_cmp (v\<lparr>prerelease := Some p\<rparr>) (v\<lparr>prerelease := Some q\<rparr>) = Less \<and>
      spec_cmp (v\<lparr>prerelease := Some q\<rparr>) (v\<lparr>prerelease := Some r\<rparr>) = Less \<and>
      spec_cmp (v\<lparr>prerelease := Some r\<rparr>) (v\<lparr>prerelease := Some p\<rparr>) = Less"
    using prerelease_cmp [OF assms(1)] by blast
  show "spec_cmp (v\<lparr>prerelease := None, matcher := LessThan\<rparr>) w = Less"
    "spec_cmp w (v\<lparr>prerelease := None, matcher := LessThan\<rparr>) = Less"
    if "numbers v = numbers w \<and> prerelease w \<noteq> None"
    using that u same_numbers [OF assms(1,2)] by (auto simp: spec_cmp_def is_unbounded_def)
qed

theorem version_comparison_witness:
  "spec_cmp (plain Exact 1 10 0) (plain Exact 1 9 5) = Greater \<and>
   spec_cmp (plain LessThan 1 0 0) (plain Exact 1 0 0\<lparr>prerelease := Some ''a''\<rparr>) = Less \<and>
   spec_cmp (plain Exact 1 0 0\<lparr>prerelease := Some ''a''\<rparr>) (plain LessThan 1 0 0) = Less"
proof -
  have wf: "version_wf (plain Exact a b c)" if "a \<le> 100" "b \<le> 100" "c \<le> 100" for a b c
    using plain_small [OF that, of Exact] by (simp add: release_def)
  have pre: "version_wf (plain Exact 1 0 0\<lparr>prerelease := Some ''a''\<rparr>)"
    by (simp add: plain_def version_wf_def is_prerelease_text_def version_eval text_eval short_identifiers)
  have "plain LessThan 1 0 0 = plain Exact 1 0 0\<lparr>prerelease := None, matcher := LessThan\<rparr>" by (simp add: plain_def)
  then show ?thesis
    using version_comparison_laws [of "plain Exact 1 10 0" "plain Exact 1 9 5"]
      version_comparison_laws [of "plain Exact 1 0 0" "plain Exact 1 0 0\<lparr>prerelease := Some ''a''\<rparr>"] wf pre
    by (auto simp: compare_def numbers_def unwrap_or_default_def plain_def)
qed

end
