(* ===== verification/Selector_Syntax.thy ===== *)
theory Selector_Syntax imports Dbt_Prelude begin

text \<open>
  Node selectors, from \<^verbatim>\<open>crates/dbt-common/src/node_selector.rs\<close>: the selection criteria and
  expressions, their rendering, the parser of the command line (a match of \<^verbatim>\<open>RAW_SELECTOR_RE\<close> with
  the checks that follow it) and the transformations of expressions.

  A criterion and an expression refer to each other, so the struct \<^verbatim>\<open>SelectionCriteria\<close> is a
  datatype with one constructor whose selectors are the fields. Depths are \<^verbatim>\<open>u32\<close>, with the largest
  value for an unlimited walk. An \<open>Unsupported\<close> value stands for a YAML value, a type of another
  crate, by the text of its \<^verbatim>\<open>Debug\<close> form, which is all the code asks of it.
\<close>

section \<open>Criteria and expressions\<close>

datatype IndirectSelection = Eager | Buildable | Cautious | Empty

datatype MethodName = Access | Config | Exposure | File | Function | Fqn | Group | Metric | Package
  | Path | ResourceType | Result | SavedQuery | SemanticModel | Source | SourceStatus | State | Tag
  | TestName | TestType | UnitTest | Version | Column | Selector

fun show_method :: "MethodName \<Rightarrow> string" where
  "show_method Access = ''access''"
| "show_method Config = ''config''"
| "show_method Exposure = ''exposure''"
| "show_method File = ''file''"
| "show_method Function = ''function''"
| "show_method Fqn = ''fqn''"
| "show_method Group = ''group''"
| "show_method Metric = ''metric''"
| "show_method Package = ''package''"
| "show_method Path = ''path''"
| "show_method ResourceType = ''resource_type''"
| "show_method Result = ''result''"
| "show_method SavedQuery = ''saved_query''"
| "show_method SemanticModel = ''semantic_model''"
| "show_method Source = ''source''"
| "show_method SourceStatus = ''source_status''"
| "show_method State = ''state''"
| "show_method Tag = ''tag''"
| "show_method TestName = ''test_name''"
| "show_method TestType = ''test_type''"
| "show_method UnitTest = ''unit_test''"
| "show_method Version = ''version''"
| "show_method Column = ''column''"
| "show_method Selector = ''selector''"

definition all_methods :: "MethodName list" where
  "all_methods = [Access, Config, Exposure, File, Function, Fqn, Group, Metric, Package, Path,
     ResourceType, Result, SavedQuery, SemanticModel, Source, SourceStatus, State, Tag, TestName,
     TestType, UnitTest, Version, Column, Selector]"

text \<open>\<^verbatim>\<open>MethodName::from_str\<close>, derived with \<^verbatim>\<open>ascii_case_insensitive\<close>.\<close>

definition method_from_str :: "string \<Rightarrow> MethodName option" where
  "method_from_str s = find (\<lambda>m. eq_ignore_ascii_case s (show_method m)) all_methods"

text \<open>\<^verbatim>\<open>MAIN_SEPARATOR\<close> of the Unix targets.\<close>

definition main_separator :: char where
  "main_separator = CHR ''/''"

definition default_for :: "string \<Rightarrow> MethodName" where
  "default_for value =
     (if main_separator \<in> set value \<or> (main_separator \<noteq> CHR ''/'' \<and> CHR ''/'' \<in> set value) then Path
      else if ends_with (to_ascii_lowercase value) ''.sql'' \<or> ends_with (to_ascii_lowercase value) ''.py'' \<or>
        ends_with (to_ascii_lowercase value) ''.csv'' then File
      else Fqn)"

datatype SelectionValue = Scalar string | Unsupported string

definition value_as_str :: "SelectionValue \<Rightarrow> string option" where
  "value_as_str v = (case v of Scalar s \<Rightarrow> Some s | Unsupported _ \<Rightarrow> None)"

definition value_resolve :: "SelectionValue \<Rightarrow> MethodName \<Rightarrow> string fs_result" where
  "value_resolve v method =
     (case v of
        Scalar s \<Rightarrow> Inr s
      | Unsupported y \<Rightarrow> Inl (Err SelectorError (''selector method `'' @ show_method method @
          ''` was given a value with no selection semantics ('' @ y @
          ''); dbt Core would also only fail here once this selector is actually resolved'')))"

definition show_value :: "SelectionValue \<Rightarrow> string" where
  "show_value v = (case v of Scalar s \<Rightarrow> s | Unsupported _ \<Rightarrow> ''<unsupported value>'')"

datatype SelectionCriteria = Criteria
  (sel_method: MethodName)
  (sel_args: "string list")
  (sel_value: SelectionValue)
  (sel_childrens_parents: bool)
  (sel_parents_depth: "nat option")
  (sel_children_depth: "nat option")
  (sel_indirect: "IndirectSelection option")
  (sel_exclude: "SelectExpression option")
and SelectExpression = Atom SelectionCriteria | And "SelectExpression list" | Or "SelectExpression list"
  | Exclude SelectExpression

section \<open>Rendering\<close>

definition show_depth :: "nat \<Rightarrow> string" where
  "show_depth depth = (if 0 < depth \<and> depth \<noteq> u32_max then show_nat depth else [])"

definition show_criteria :: "SelectionCriteria \<Rightarrow> string" where
  "show_criteria c =
     (if sel_childrens_parents c then ''@'' else []) @
     (case sel_parents_depth c of Some depth \<Rightarrow> show_depth depth @ ''+'' | None \<Rightarrow> []) @
     (if sel_args c \<noteq> []
      then to_ascii_lowercase (show_method (sel_method c)) @ ''.'' @ join ''.'' (sel_args c) @ '':''
      else to_ascii_lowercase (show_method (sel_method c)) @ '':'') @
     show_value (sel_value c) @
     (case sel_children_depth c of Some depth \<Rightarrow> ''+'' @ show_depth depth | None \<Rightarrow> [])"

fun show_expression :: "SelectExpression \<Rightarrow> string" where
  "show_expression (And es) = join '','' (map show_expression es)"
| "show_expression (Or es) = join '' '' (map show_expression es)"
| "show_expression (Atom c) = show_criteria c"
| "show_expression (Exclude e) = ''exclude('' @ show_expression e @ '')''"

section \<open>Transformations\<close>

fun set_indirect_selection :: "IndirectSelection \<Rightarrow> SelectExpression \<Rightarrow> SelectExpression" where
  "set_indirect_selection mode (And es) = And (map (set_indirect_selection mode) es)"
| "set_indirect_selection mode (Or es) = Or (map (set_indirect_selection mode) es)"
| "set_indirect_selection mode (Atom (Criteria m a v cp pd cd i ex)) =
     Atom (Criteria m a v cp pd cd (Some mode) ex)"
| "set_indirect_selection mode (Exclude e) = Exclude (set_indirect_selection mode e)"

fun apply_default_indirect_selection :: "IndirectSelection \<Rightarrow> SelectExpression \<Rightarrow> SelectExpression" where
  "apply_default_indirect_selection mode (And es) = And (map (apply_default_indirect_selection mode) es)"
| "apply_default_indirect_selection mode (Or es) = Or (map (apply_default_indirect_selection mode) es)"
| "apply_default_indirect_selection mode (Atom (Criteria m a v cp pd cd i ex)) =
     Atom (Criteria m a v cp pd cd (if i = None then Some mode else i) ex)"
| "apply_default_indirect_selection mode (Exclude e) = Exclude (apply_default_indirect_selection mode e)"

text \<open>The node part of a \<^verbatim>\<open>column:\<close> value: what precedes the last dot, nothing without a dot.\<close>

definition column_node_part :: "string \<Rightarrow> string" where
  "column_node_part value = (case rsplit_once (CHR ''.'') value of Some (node, _) \<Rightarrow> node | None \<Rightarrow> [])"

definition convert_atom :: "SelectionCriteria \<Rightarrow> SelectionCriteria \<times> bool" where
  "convert_atom c =
     (case c of Criteria m a v cp pd cd i ex \<Rightarrow>
        if m = Column
        then (case value_as_str v of
                Some s \<Rightarrow> (Criteria Fqn a (Scalar (column_node_part s)) cp pd cd i ex, True)
              | None \<Rightarrow> (c, False))
        else (c, False))"

fun convert_column_selectors_to_fqn :: "SelectExpression \<Rightarrow> SelectExpression \<times> bool" where
  "convert_column_selectors_to_fqn (Atom (Criteria m a v cp pd cd i ex)) =
     (let inner = map_option convert_column_selectors_to_fqn ex;
          (c, converted) = convert_atom (Criteria m a v cp pd cd i (map_option fst inner))
      in (Atom c, (case inner of Some (_, changed) \<Rightarrow> changed | None \<Rightarrow> False) \<or> converted))"
| "convert_column_selectors_to_fqn (And es) =
     (let rs = map convert_column_selectors_to_fqn es in (And (map fst rs), list_ex snd rs))"
| "convert_column_selectors_to_fqn (Or es) =
     (let rs = map convert_column_selectors_to_fqn es in (Or (map fst rs), list_ex snd rs))"
| "convert_column_selectors_to_fqn (Exclude e) =
     (let r = convert_column_selectors_to_fqn e in (Exclude (fst r), snd r))"

fun contains_state_selector :: "SelectExpression \<Rightarrow> bool" where
  "contains_state_selector (Atom (Criteria m a v cp pd cd i ex)) =
     (m = State \<or> (case ex of Some e \<Rightarrow> contains_state_selector e | None \<Rightarrow> False))"
| "contains_state_selector (And es) = list_ex contains_state_selector es"
| "contains_state_selector (Or es) = list_ex contains_state_selector es"
| "contains_state_selector (Exclude e) = contains_state_selector e"

definition selectors_require_manifest :: "SelectExpression option \<Rightarrow> SelectExpression option \<Rightarrow> bool" where
  "selectors_require_manifest select excl =
     (let select_requires = (case select of Some e \<Rightarrow> contains_state_selector e | None \<Rightarrow> False);
          exclude_requires = (case excl of Some e \<Rightarrow> contains_state_selector e | None \<Rightarrow> False)
      in select_requires \<or> exclude_requires)"

fun conjoin_expression :: "SelectExpression option \<Rightarrow> SelectExpression option \<Rightarrow> SelectExpression option" where
  "conjoin_expression (Some s) (Some s2) = Some (And [s, s2])"
| "conjoin_expression (Some s) None = Some s"
| "conjoin_expression None (Some s) = Some s"
| "conjoin_expression None None = None"

fun conjoin_predicate :: "SelectExpression option \<Rightarrow> SelectionCriteria option \<Rightarrow> SelectExpression option" where
  "conjoin_predicate None None = None"
| "conjoin_predicate (Some sel) None = Some sel"
| "conjoin_predicate None (Some c) = Some (Atom c)"
| "conjoin_predicate (Some sel) (Some c) =
     Some (case sel of And v \<Rightarrow> And (v @ [Atom c]) | _ \<Rightarrow> And [sel, Atom c])"

section \<open>Parsing\<close>

text \<open>The groups of \<^verbatim>\<open>RAW_SELECTOR_RE\<close>.\<close>

record captures =
  cap_childrens_parents :: bool
  cap_parents :: "string option"
  cap_method :: "string option"
  cap_value :: string
  cap_children :: "string option"

text \<open>\<^verbatim>\<open>(?P<parents>(?P<parents_depth>\d*)\+)?\<close>\<close>

definition match_parents :: "string \<Rightarrow> string option \<times> string" where
  "match_parents s =
     (let ds = takeWhile is_ascii_digit s; rest = dropWhile is_ascii_digit s
      in if rest \<noteq> [] \<and> hd rest = CHR ''+'' then (Some ds, tl rest) else (None, s))"

text \<open>\<^verbatim>\<open>(?:(?P<method>[\w.]+):)?\<close>\<close>

definition method_char :: "char \<Rightarrow> bool" where
  "method_char c \<longleftrightarrow> is_regex_word c \<or> c = CHR ''.''"

definition match_method :: "string \<Rightarrow> string option \<times> string" where
  "match_method s =
     (let m = takeWhile method_char s; rest = dropWhile method_char s
      in if m \<noteq> [] \<and> rest \<noteq> [] \<and> hd rest = CHR '':'' then (Some m, tl rest) else (None, s))"

text \<open>
  \<^verbatim>\<open>(?P<value>.*?)(?P<children>\+(?P<children_depth>\d*) )?$\<close>: the shortest value after which a plus
  sign and digits end the text, and the whole text when there is none.
\<close>

definition match_children :: "string \<Rightarrow> string \<times> string option" where
  "match_children s =
     (case rsplit_once (CHR ''+'') s of
        Some (v, ds) \<Rightarrow> if list_all is_ascii_digit ds then (v, Some ds) else (s, None)
      | None \<Rightarrow> (s, None))"

definition match_selector :: "string \<Rightarrow> captures option" where
  "match_selector raw =
     (if CHR 0x0A \<in> set raw then None
      else (let (at, s) = (if raw \<noteq> [] \<and> hd raw = CHR ''@'' then (True, tl raw) else (False, raw));
                (parents, s) = match_parents s;
                (m, s) = match_method s;
                (v, children) = match_children s
            in Some \<lparr>cap_childrens_parents = at, cap_parents = parents, cap_method = m,
                     cap_value = v, cap_children = children\<rparr>))"

definition parse_depth :: "string option \<Rightarrow> nat option fs_result" where
  "parse_depth d =
     (case d of
        None \<Rightarrow> Inr None
      | Some ds \<Rightarrow>
          if ds = [] then Inr (Some u32_max)
          else (case parse_uint u32_max ds of
                  Some n \<Rightarrow> Inr (Some n)
                | None \<Rightarrow> Inl (Panic ''called `Result::unwrap()` on an `Err` value: ParseIntError { kind: PosOverflow }'')))"

definition invalid_spec :: "string \<Rightarrow> 'a fs_result" where
  "invalid_spec raw = Inl (Err SelectorError (''Invalid selector spec: `'' @ raw @ ''`''))"

definition parse_method :: "string option \<Rightarrow> string \<Rightarrow> (MethodName \<times> string list) fs_result" where
  "parse_method m value =
     (case m of
        Some m \<Rightarrow>
          (case split_on (CHR ''.'') m of
             head # parts \<Rightarrow>
               (case method_from_str head of
                  Some name \<Rightarrow> Inr (name, parts)
                | None \<Rightarrow> Inl (Err SelectorError (''Invalid node selector method: `'' @ head @ ''`'')))
           | [] \<Rightarrow> Inl (Panic ''called `Option::unwrap()` on a `None` value''))
      | None \<Rightarrow> Inr (default_for value, []))"

text \<open>The checks after the criterion is built; \<open>Inr ()\<close> when it passes.\<close>

definition check_criteria :: "string \<Rightarrow> SelectionCriteria \<Rightarrow> unit fs_result" where
  "check_criteria raw c =
     (let value_str = (case value_as_str (sel_value c) of Some s \<Rightarrow> s | None \<Rightarrow> [])
      in if sel_childrens_parents c \<and> sel_children_depth c \<noteq> None
         then Inl (Err SelectorError (''Invalid selector `'' @ raw @ ''` - '' @ [CHR 0x22] @ ''@'' @ [CHR 0x22] @
                '' and trailing '' @ [CHR 0x22] @ ''+'' @ [CHR 0x22] @ '' are incompatible''))
         else if sel_method c = Column \<and>
           (case rsplit_once (CHR ''.'') value_str of Some (_, column) \<Rightarrow> column = [] | None \<Rightarrow> True)
         then invalid_spec raw
         else if sel_parents_depth c = None \<and> sel_children_depth c = None \<and> CHR ''+'' \<in> set value_str
         then Inl (Err SelectorError (''Invalid model specifier near: '' @ raw))
         else Inr ())"

definition parse_single_selector :: "string \<Rightarrow> SelectionCriteria fs_result" where
  "parse_single_selector raw =
     (case match_selector raw of
        None \<Rightarrow> invalid_spec raw
      | Some caps \<Rightarrow>
          if cap_value caps = [] then invalid_spec raw
          else rbind (parse_method (cap_method caps) (cap_value caps))
            (\<lambda>(method, method_args). rbind (parse_depth (cap_parents caps))
              (\<lambda>parents_depth. rbind (parse_depth (cap_children caps))
                (\<lambda>children_depth.
                   let criteria = Criteria method method_args (Scalar (cap_value caps))
                     (cap_childrens_parents caps) parents_depth children_depth (Some Eager) None
                   in rmap (\<lambda>_. criteria) (check_criteria raw criteria)))))"

definition collapse :: "(SelectExpression list \<Rightarrow> SelectExpression) \<Rightarrow> SelectExpression list \<Rightarrow> SelectExpression option" where
  "collapse f es = (case es of [] \<Rightarrow> None | [e] \<Rightarrow> Some e | _ \<Rightarrow> Some (f es))"

definition token_pieces :: "string \<Rightarrow> string list" where
  "token_pieces token = filter (\<lambda>s. s \<noteq> []) (map trim (split_on (CHR '','') token))"

fun parse_tokens :: "string list \<Rightarrow> SelectExpression list fs_result" where
  "parse_tokens [] = Inr []"
| "parse_tokens (token # tokens) =
     (if trim token = [] then parse_tokens tokens
      else rbind (collect_results (\<lambda>piece. rmap Atom (parse_single_selector piece)) (token_pieces token))
        (\<lambda>and_terms. case collapse And and_terms of
             None \<Rightarrow> parse_tokens tokens
           | Some inner \<Rightarrow> rmap (\<lambda>es. inner # es) (parse_tokens tokens)))"

definition parse_model_specifiers :: "string list \<Rightarrow> SelectExpression fs_result" where
  "parse_model_specifiers tokens =
     (if tokens = [] then Inl (Err SelectorError ''empty selector list passed to --select/--exclude'')
      else rmap (\<lambda>or_terms. case collapse Or or_terms of
             None \<Rightarrow> Atom (Criteria Fqn [] (Scalar (join '' '' tokens)) False None None (Some Eager) None)
           | Some root \<Rightarrow> root) (parse_tokens tokens))"

end
