(* ===== verification/Selector_Syntax_Correct.thy ===== *)
theory Selector_Syntax_Correct imports Selector_Syntax begin

text \<open>
  Properties of the selector syntax: a parsed criterion is printed and parsed back unchanged, also
  at the level of whole command lines; the parser panics exactly on depths that do not fit \<^verbatim>\<open>u32\<close>;
  the expression it builds is an OR of ANDs of criteria without superfluous wrappers; and the
  conversion of column selectors leaves none behind.
\<close>

section \<open>Strings\<close>

lemma split_on_append: "c \<notin> set a \<Longrightarrow> split_on c (a @ c # b) = a # split_on c b"
  by (induction a) auto

lemma split_on_none: "c \<notin> set a \<Longrightarrow> split_on c a = [a]"
  by (induction a) auto

lemma split_on_join: "ps \<noteq> [] \<Longrightarrow> \<forall>p \<in> set ps. c \<notin> set p \<Longrightarrow> split_on c (join [c] ps) = ps"
  by (induction ps rule: induct_list012) (auto simp: split_on_none split_on_append)

lemma set_join: "set (join sep ps) \<subseteq> set sep \<union> \<Union> (set ` set ps)"
  by (induction ps rule: induct_list012) auto

lemma span_all: "\<forall>x \<in> set a. P x \<Longrightarrow> \<not> P y \<Longrightarrow> takeWhile P (a @ y # b) = a \<and> dropWhile P (a @ y # b) = y # b"
  by (induction a) auto

lemmas char_eval = is_regex_word_def method_char_def is_ascii_alphanumeric_def is_ascii_alphabetic_def
  is_ascii_digit_def is_ascii_lower_def is_ascii_upper_def char_code_def

lemma digit_not [simp]:
  "\<not> is_ascii_digit (CHR ''@'')" "\<not> is_ascii_digit (CHR '':'')" "\<not> method_char (CHR '':'')"
  "\<not> is_regex_word (CHR ''.'')" "\<not> is_ascii_digit (CHR 0x0A)" "\<not> is_regex_word (CHR 0x0A)" "method_char (CHR ''.'')"
  by (simp_all add: char_eval)

section \<open>Method names\<close>

lemma show_method_start:
  "\<exists>c r. show_method m = c # r \<and> \<not> is_ascii_digit c \<and> c \<noteq> CHR ''+'' \<and> c \<noteq> CHR ''@''"
  by (cases m) (simp_all add: char_eval)

lemma show_method_chars: "list_all is_regex_word (show_method m)"
  by (cases m) (simp_all add: char_eval)

lemma show_method_lower: "to_ascii_lowercase (show_method m) = show_method m"
  by (cases m) (simp_all add: to_ascii_lowercase_def ascii_lower_def is_ascii_upper_def char_code_def)

lemma show_method_inj: "show_method m = show_method n \<longleftrightarrow> m = n"
  by (cases m; cases n) simp_all

lemma method_from_show: "method_from_str (show_method m) = Some m"
proof -
  have "eq_ignore_ascii_case (show_method m) (show_method n) \<longleftrightarrow> m = n" for n
    by (simp add: eq_ignore_ascii_case_def show_method_lower show_method_inj)
  then show ?thesis by (cases m) (simp_all add: method_from_str_def all_methods_def)
qed

section \<open>Round trip of a criterion\<close>

definition criteria_wf :: "SelectionCriteria \<Rightarrow> bool" where
  "criteria_wf c \<longleftrightarrow>
     (\<exists>v. sel_value c = Scalar v \<and> v \<noteq> [] \<and> CHR 0x0A \<notin> set v \<and>
        (sel_children_depth c = None \<longrightarrow> match_children v = (v, None)) \<and>
        (sel_parents_depth c = None \<longrightarrow> sel_children_depth c = None \<longrightarrow> CHR ''+'' \<notin> set v) \<and>
        (sel_method c = Column \<longrightarrow> (\<exists>n col. rsplit_once (CHR ''.'') v = Some (n, col) \<and> col \<noteq> []))) \<and>
     list_all (list_all is_regex_word) (sel_args c) \<and>
     (\<forall>d. sel_parents_depth c = Some d \<longrightarrow> 0 < d \<and> d \<le> u32_max) \<and>
     (\<forall>d. sel_children_depth c = Some d \<longrightarrow> 0 < d \<and> d \<le> u32_max) \<and>
     \<not> (sel_childrens_parents c \<and> sel_children_depth c \<noteq> None) \<and>
     sel_indirect c = Some Eager \<and> sel_exclude c = None"

lemma show_depth_digits: "list_all is_ascii_digit (show_depth d)"
  using show_nat_digits by (auto simp: show_depth_def)

lemma parse_show_depth: "0 < d \<Longrightarrow> d \<le> u32_max \<Longrightarrow> parse_depth (Some (show_depth d)) = Inr (Some d)"
  using show_nat_digits [of d] by (auto simp: show_depth_def parse_depth_def parse_uint_show_nat)

definition method_text :: "MethodName \<Rightarrow> string list \<Rightarrow> string" where
  "method_text m args = join ''.'' (show_method m # args)"

lemma method_text_chars:
  "list_all (list_all is_regex_word) args \<Longrightarrow> \<forall>c \<in> set (method_text m args). method_char c"
  using set_join [of "''.''" "show_method m # args"] show_method_chars [of m]
  by (fastforce simp: method_text_def method_char_def list_all_iff)

lemma parse_method_text:
  assumes "list_all (list_all is_regex_word) args"
  shows "parse_method (Some (method_text m args)) v = Inr (m, args)"
proof -
  have "CHR ''.'' \<notin> set p" if "p \<in> set (show_method m # args)" for p
  proof -
    have "list_all is_regex_word p" using that assms show_method_chars [of m] by (auto simp: list_all_iff)
    then show ?thesis using digit_not(4) unfolding list_all_iff by blast
  qed
  then have "split_on (CHR ''.'') (method_text m args) = show_method m # args"
    unfolding method_text_def by (intro split_on_join) auto
  then show ?thesis by (simp add: parse_method_def method_from_show)
qed

lemma match_method_text:
  "list_all (list_all is_regex_word) args \<Longrightarrow>
   match_method (method_text m args @ CHR '':'' # rest) = (Some (method_text m args), rest)"
  using span_all [OF method_text_chars digit_not(3), of args m rest] show_method_start [of m]
  by (cases args) (auto simp: match_method_def method_text_def)

lemma method_text_start:
  "\<exists>c r. method_text m args = c # r \<and> \<not> is_ascii_digit c \<and> c \<noteq> CHR ''+'' \<and> c \<noteq> CHR ''@''"
  using show_method_start [of m] by (cases args) (auto simp: method_text_def)

definition parents_text :: "nat option \<Rightarrow> string" where
  "parents_text p = (case p of Some d \<Rightarrow> show_depth d @ ''+'' | None \<Rightarrow> [])"

definition children_text :: "nat option \<Rightarrow> string" where
  "children_text p = (case p of Some d \<Rightarrow> ''+'' @ show_depth d | None \<Rightarrow> [])"

lemma match_parents_text:
  "match_parents (parents_text p @ method_text m args @ rest) =
     (map_option show_depth p, method_text m args @ rest)"
proof (cases p)
  case None
  then show ?thesis using method_text_start [of m args] by (auto simp: parents_text_def match_parents_def)
next
  case (Some d)
  have "\<forall>c \<in> set (show_depth d). is_ascii_digit c" using show_depth_digits by (simp add: list_all_iff)
  from span_all [OF this is_ascii_digit_plus] Some show ?thesis
    by (simp add: parents_text_def match_parents_def)
qed

lemma match_children_text:
  assumes "p = None \<longrightarrow> match_children v = (v, None)"
  shows "match_children (v @ children_text p) = (v, map_option show_depth p)"
proof (cases p)
  case None
  then show ?thesis using assms by (simp add: children_text_def)
next
  case (Some d)
  have "CHR ''+'' \<notin> set (show_depth d)" using show_depth_digits [of d] is_ascii_digit_plus by (auto simp: list_all_iff)
  then have "rsplit_once (CHR ''+'') (v @ CHR ''+'' # show_depth d) = Some (v, show_depth d)"
    by (rule rsplit_once_intro)
  then show ?thesis using Some show_depth_digits [of d] by (simp add: children_text_def match_children_def)
qed

lemma parse_show_criteria:
  assumes "criteria_wf c"
  shows "parse_single_selector (show_criteria c) = Inr c"
proof -
  obtain m args v cp p d where c: "c = Criteria m args (Scalar v) cp p d (Some Eager) None"
    using assms by (cases c) (auto simp: criteria_wf_def)
  have wf: "v \<noteq> []" "CHR 0x0A \<notin> set v" "d = None \<longrightarrow> match_children v = (v, None)"
    "list_all (list_all is_regex_word) args"
    "p = None \<longrightarrow> d = None \<longrightarrow> CHR ''+'' \<notin> set v" "\<not> (cp \<and> d \<noteq> None)"
    "m = Column \<longrightarrow> (\<exists>n col. rsplit_once (CHR ''.'') v = Some (n, col) \<and> col \<noteq> [])"
    "\<And>x. p = Some x \<Longrightarrow> 0 < x \<and> x \<le> u32_max" "\<And>x. d = Some x \<Longrightarrow> 0 < x \<and> x \<le> u32_max"
    using assms by (auto simp: criteria_wf_def c)
  let ?body = "parents_text p @ method_text m args @ CHR '':'' # v @ children_text d"
  have s: "show_criteria c = (if cp then ''@'' else []) @ ?body"
    by (cases args) (simp_all add: show_criteria_def c parents_text_def children_text_def show_value_def
        method_text_def show_method_lower)
  have dd: "list_all is_ascii_digit (show_depth x)" for x by (rule show_depth_digits)
  have nl: "CHR 0x0A \<notin> set (show_depth x)" for x
    using dd [of x] digit_not(5) by (auto simp: list_all_iff)
  have "CHR 0x0A \<notin> set (method_text m args)"
    using method_text_chars [OF wf(4)] by (fastforce simp: char_eval)
  then have nl: "CHR 0x0A \<notin> set (show_criteria c)"
    using nl wf(2) by (auto simp: s parents_text_def children_text_def split: option.splits)
  have "parents_text p = [] \<or> hd (parents_text p) \<noteq> CHR ''@''"
  proof (cases p)
    case (Some x)
    then show ?thesis using dd [of x] by (cases "show_depth x") (auto simp: parents_text_def)
  qed (simp add: parents_text_def)
  then have at: "?body \<noteq> [] \<and> hd ?body \<noteq> CHR ''@''"
    using method_text_start [of m args] by (cases "parents_text p") auto
  have hd_at: "(if show_criteria c \<noteq> [] \<and> hd (show_criteria c) = CHR ''@'' then (True, tl (show_criteria c))
      else (False, show_criteria c)) = (cp, ?body)"
    using at by (simp add: s)
  have caps: "match_selector (show_criteria c) = Some \<lparr>cap_childrens_parents = cp,
      cap_parents = map_option show_depth p, cap_method = Some (method_text m args), cap_value = v,
      cap_children = map_option show_depth d\<rparr>"
    unfolding match_selector_def hd_at Let_def prod.case match_parents_text match_method_text [OF wf(4)]
      match_children_text [OF wf(3)]
    using nl by simp
  have pd: "parse_depth (map_option show_depth p) = Inr p" and cd: "parse_depth (map_option show_depth d) = Inr d"
    using wf(8,9) parse_show_depth by (cases p; cases d; auto simp: parse_depth_def [of None])+
  have col: "\<not> (m = Column \<and> (case rsplit_once (CHR ''.'') v of Some (_, column) \<Rightarrow> column = [] | None \<Rightarrow> True))"
    using wf(7) by auto
  have "check_criteria (show_criteria c) c = Inr ()"
    unfolding check_criteria_def Let_def c SelectionCriteria.sel value_as_str_def SelectionValue.case option.case
    using wf(5,6) col by auto
  then show ?thesis
    unfolding parse_single_selector_def caps option.case
    using wf(1) by (simp add: parse_method_text [OF wf(4)] pd cd Let_def c [symmetric])
qed

section \<open>What the parser returns\<close>

lemma match_children_spec:
  "match_children s = (v, ds) \<Longrightarrow>
   (case ds of None \<Rightarrow> v = s \<and> match_children v = (v, None)
    | Some x \<Rightarrow> s = v @ CHR ''+'' # x \<and> list_all is_ascii_digit x)"
  using rsplit_once_Some [of "CHR ''+''" s]
  by (cases "rsplit_once (CHR ''+'') s") (auto simp: match_children_def split: if_splits)

lemma match_method_spec:
  "match_method s = (m, rest) \<Longrightarrow>
   (\<forall>x. m = Some x \<longrightarrow> s = x @ CHR '':'' # rest \<and> list_all method_char x) \<and> (m = None \<longrightarrow> rest = s)"
proof -
  assume m: "match_method s = (m, rest)"
  have "\<forall>c \<in> set (takeWhile method_char s). method_char c" by (auto dest: set_takeWhileD)
  then show ?thesis
    using m takeWhile_dropWhile_id [of method_char s]
    by (cases "dropWhile method_char s") (auto simp: match_method_def Let_def list_all_iff split: if_splits)
qed

lemma match_parents_spec:
  "match_parents s = (p, rest) \<Longrightarrow>
   (\<forall>x. p = Some x \<longrightarrow> s = x @ CHR ''+'' # rest \<and> list_all is_ascii_digit x) \<and> (p = None \<longrightarrow> rest = s)"
proof -
  assume m: "match_parents s = (p, rest)"
  have "\<forall>c \<in> set (takeWhile is_ascii_digit s). is_ascii_digit c" by (auto dest: set_takeWhileD)
  then show ?thesis
    using m takeWhile_dropWhile_id [of is_ascii_digit s]
    by (cases "dropWhile is_ascii_digit s") (auto simp: match_parents_def Let_def list_all_iff split: if_splits)
qed

text \<open>The groups of a match, in the order they stand in the text.\<close>

lemma match_selector_spec:
  assumes "match_selector raw = Some caps"
  shows "CHR 0x0A \<notin> set raw \<and>
    raw = (if cap_childrens_parents caps then ''@'' else []) @
      (case cap_parents caps of Some x \<Rightarrow> x @ ''+'' | None \<Rightarrow> []) @
      (case cap_method caps of Some x \<Rightarrow> x @ '':'' | None \<Rightarrow> []) @ cap_value caps @
      (case cap_children caps of Some x \<Rightarrow> ''+'' @ x | None \<Rightarrow> []) \<and>
    (\<forall>x. cap_parents caps = Some x \<longrightarrow> list_all is_ascii_digit x) \<and>
    (\<forall>x. cap_children caps = Some x \<longrightarrow> list_all is_ascii_digit x) \<and>
    (\<forall>x. cap_method caps = Some x \<longrightarrow> list_all method_char x) \<and>
    (cap_children caps = None \<longrightarrow> match_children (cap_value caps) = (cap_value caps, None))"
proof -
  obtain at s0 where at: "(if raw \<noteq> [] \<and> hd raw = CHR ''@'' then (True, tl raw) else (False, raw)) = (at, s0)"
    by fastforce
  obtain p s1 where p: "match_parents s0 = (p, s1)" by fastforce
  obtain m s2 where m: "match_method s1 = (m, s2)" by fastforce
  obtain v ch where ch: "match_children s2 = (v, ch)" by fastforce
  have nl: "CHR 0x0A \<notin> set raw" using assms by (auto simp: match_selector_def split: if_splits)
  have caps: "caps = \<lparr>cap_childrens_parents = at, cap_parents = p, cap_method = m, cap_value = v, cap_children = ch\<rparr>"
    using assms nl unfolding match_selector_def at Let_def prod.case p m ch by simp
  have r: "raw = (if at then ''@'' else []) @ s0" using at by (cases raw) (auto split: if_splits)
  have s0: "s0 = (case p of Some x \<Rightarrow> x @ ''+'' | None \<Rightarrow> []) @ s1"
    using match_parents_spec [OF p] by (cases p) auto
  have s1: "s1 = (case m of Some x \<Rightarrow> x @ '':'' | None \<Rightarrow> []) @ s2"
    using match_method_spec [OF m] by (cases m) auto
  have s2: "s2 = v @ (case ch of Some x \<Rightarrow> ''+'' @ x | None \<Rightarrow> [])"
    using match_children_spec [OF ch] by (cases ch) auto
  have "raw = (if at then ''@'' else []) @ (case p of Some x \<Rightarrow> x @ ''+'' | None \<Rightarrow> []) @
      (case m of Some x \<Rightarrow> x @ '':'' | None \<Rightarrow> []) @ v @ (case ch of Some x \<Rightarrow> ''+'' @ x | None \<Rightarrow> [])"
    unfolding r by (subst s0, subst s1, subst s2) (rule refl)
  moreover have "\<forall>x. ch = Some x \<longrightarrow> list_all is_ascii_digit x" "ch = None \<longrightarrow> match_children v = (v, None)"
    using match_children_spec [OF ch] by (cases ch; simp)+
  ultimately show ?thesis
    unfolding caps captures.simps using nl match_parents_spec [OF p] match_method_spec [OF m] by blast
qed

lemma parse_depth_Inr:
  "parse_depth x = Inr d \<Longrightarrow> (d = None \<longleftrightarrow> x = None) \<and> (\<forall>n. d = Some n \<longrightarrow> n \<le> u32_max)"
  by (auto simp: parse_depth_def parse_uint_def Let_def split: option.splits if_splits)

lemma parse_method_Inr:
  assumes "parse_method mt v = Inr (m, args)" and "\<forall>x. mt = Some x \<longrightarrow> list_all method_char x"
  shows "list_all (list_all is_regex_word) args"
proof (cases mt)
  case None
  then show ?thesis using assms(1) by (auto simp: parse_method_def)
next
  case (Some x)
  have "set args \<subseteq> set (split_on (CHR ''.'') x)"
    using assms(1) Some by (cases "split_on (CHR ''.'') x") (auto simp: parse_method_def split: option.splits)
  moreover have "list_all is_regex_word p" if p: "p \<in> set (split_on (CHR ''.'') x)" for p
  proof -
    have "set p \<subseteq> set x" using p by (rule split_on_subset)
    then show ?thesis
      using split_on_pieces [OF p] assms(2) Some by (fastforce simp: list_all_iff method_char_def)
  qed
  ultimately show ?thesis by (auto simp: list_all_iff)
qed

lemma parse_single_selector_Inr:
  assumes "parse_single_selector raw = Inr c"
  obtains caps m args p d where "match_selector raw = Some caps" "cap_value caps \<noteq> []"
    "parse_method (cap_method caps) (cap_value caps) = Inr (m, args)"
    "parse_depth (cap_parents caps) = Inr p" "parse_depth (cap_children caps) = Inr d"
    "c = Criteria m args (Scalar (cap_value caps)) (cap_childrens_parents caps) p d (Some Eager) None"
    "check_criteria raw c = Inr ()"
proof -
  obtain caps where caps: "match_selector raw = Some caps"
    using assms by (cases "match_selector raw") (auto simp: parse_single_selector_def invalid_spec_def)
  show ?thesis
    using assms caps that
    by (auto simp: parse_single_selector_def invalid_spec_def rbind_eq_Inr rmap_eq_Inr Let_def
        split: if_splits prod.splits)
qed

lemma check_criteria_Inr:
  assumes "check_criteria raw c = Inr ()" and "sel_value c = Scalar v"
  shows "\<not> (sel_childrens_parents c \<and> sel_children_depth c \<noteq> None)"
    and "sel_method c = Column \<Longrightarrow> \<exists>n col. rsplit_once (CHR ''.'') v = Some (n, col) \<and> col \<noteq> []"
    and "sel_parents_depth c = None \<Longrightarrow> sel_children_depth c = None \<Longrightarrow> CHR ''+'' \<notin> set v"
proof -
  show "\<not> (sel_childrens_parents c \<and> sel_children_depth c \<noteq> None)"
    using assms by (auto simp: check_criteria_def Let_def split: if_splits)
  then show "sel_method c = Column \<Longrightarrow> \<exists>n col. rsplit_once (CHR ''.'') v = Some (n, col) \<and> col \<noteq> []"
    using assms by (cases "rsplit_once (CHR ''.'') v")
      (auto simp: check_criteria_def Let_def value_as_str_def invalid_spec_def split: if_splits)
  show "sel_parents_depth c = None \<Longrightarrow> sel_children_depth c = None \<Longrightarrow> CHR ''+'' \<notin> set v"
    using assms by (auto simp: check_criteria_def Let_def value_as_str_def invalid_spec_def split: if_splits)
qed

text \<open>What the parser returns is well formed, up to a depth of zero, which is printed as no depth.\<close>

lemma parse_single_selector_wf:
  assumes "parse_single_selector raw = Inr c"
    and "sel_parents_depth c \<noteq> Some 0" and "sel_children_depth c \<noteq> Some 0"
  shows "criteria_wf c"
proof -
  obtain caps m args p d where r: "match_selector raw = Some caps" "cap_value caps \<noteq> []"
    "parse_method (cap_method caps) (cap_value caps) = Inr (m, args)"
    "parse_depth (cap_parents caps) = Inr p" "parse_depth (cap_children caps) = Inr d"
    "c = Criteria m args (Scalar (cap_value caps)) (cap_childrens_parents caps) p d (Some Eager) None"
    "check_criteria raw c = Inr ()"
    using parse_single_selector_Inr [OF assms(1)] .
  note ms = match_selector_spec [OF r(1)]
  have v: "sel_value c = Scalar (cap_value caps)" using r(6) by simp
  have "CHR 0x0A \<notin> set (cap_value caps)" using ms by (metis UnCI set_append)
  moreover have "list_all (list_all is_regex_word) args" using parse_method_Inr [OF r(3)] ms by blast
  moreover have "d = None \<longrightarrow> match_children (cap_value caps) = (cap_value caps, None)"
    using parse_depth_Inr [OF r(5)] ms by blast
  ultimately show ?thesis
    using assms(2,3) r(2) parse_depth_Inr [OF r(4)] parse_depth_Inr [OF r(5)] check_criteria_Inr [OF r(7) v]
    by (auto simp: criteria_wf_def r(6))
qed

section \<open>Panics\<close>

definition depth_overflow :: "string option \<Rightarrow> bool" where
  "depth_overflow x \<longleftrightarrow> (\<exists>ds. x = Some ds \<and> u32_max < dec_val ds)"

lemma parse_depth_panic:
  assumes "\<forall>ds. x = Some ds \<longrightarrow> list_all is_ascii_digit ds"
  shows "(\<exists>msg. parse_depth x = Inl (Panic msg)) \<longleftrightarrow> depth_overflow x"
    and "parse_depth x \<noteq> Inl (Err k msg)"
  using assms by (auto simp: parse_depth_def depth_overflow_def parse_uint_digits dec_val_def split: option.splits)

lemma dec_val_bound: "list_all is_ascii_digit ds \<Longrightarrow> dec_val ds < 10 ^ length ds"
proof (induction ds rule: rev_induct)
  case (snoc c ds)
  then have "dec_val ds < 10 ^ length ds" "digit_val c < 10" using digit_val_less by auto
  then show ?case by simp
qed (simp add: dec_val_def)

lemma parse_method_no_panic: "parse_method m v \<noteq> Inl (Panic msg)"
  by (auto simp: parse_method_def split: option.splits list.splits)

lemma check_criteria_no_panic: "check_criteria raw c \<noteq> Inl (Panic msg)"
  by (auto simp: check_criteria_def Let_def invalid_spec_def)

lemma parse_single_selector_panic:
  assumes "parse_single_selector raw = Inl (Panic msg)"
  obtains caps where "match_selector raw = Some caps" "cap_value caps \<noteq> []"
    "depth_overflow (cap_parents caps) \<or> depth_overflow (cap_children caps)"
proof -
  obtain caps where caps: "match_selector raw = Some caps" "cap_value caps \<noteq> []"
    using assms by (cases "match_selector raw") (auto simp: parse_single_selector_def invalid_spec_def split: if_splits)
  note ms = match_selector_spec [OF caps(1)]
  have "depth_overflow (cap_parents caps) \<or> depth_overflow (cap_children caps)"
  proof (rule ccontr)
    assume no: "\<not> ?thesis"
    obtain p d where pd: "parse_depth (cap_parents caps) = Inr p" "parse_depth (cap_children caps) = Inr d"
      using parse_depth_panic [of "cap_parents caps"] parse_depth_panic [of "cap_children caps"] ms no
      by (metis failure.exhaust sum.exhaust)
    show False
      using assms caps pd parse_method_no_panic [of "cap_method caps" "cap_value caps" msg]
        check_criteria_no_panic [of raw]
      by (cases "parse_method (cap_method caps) (cap_value caps)")
        (auto simp: parse_single_selector_def invalid_spec_def Let_def rmap_def split: if_splits prod.splits sum.splits)
  qed
  with caps that show ?thesis by blast
qed

lemma parse_single_selector_short:
  assumes "length raw \<le> 11"
  shows "parse_single_selector raw \<noteq> Inl (Panic msg)"
proof
  assume "parse_single_selector raw = Inl (Panic msg)"
  then obtain caps where caps: "match_selector raw = Some caps" "cap_value caps \<noteq> []"
    "depth_overflow (cap_parents caps) \<or> depth_overflow (cap_children caps)"
    by (rule parse_single_selector_panic)
  note ms = match_selector_spec [OF caps(1)]
  obtain ds where ds: "cap_parents caps = Some ds \<or> cap_children caps = Some ds" "u32_max < dec_val ds"
    using caps(3) by (auto simp: depth_overflow_def)
  have "dec_val ds < 10 ^ length ds" using ms dec_val_bound ds(1) by blast
  then have "u32_max < 10 ^ length ds" using ds(2) by simp
  then have "9 < length ds"
    using power_increasing [of "length ds" 9 "10::nat"] by (cases "length ds \<le> 9") auto
  moreover have "length ds + 1 + length (cap_value caps) \<le> length raw"
  proof -
    have "length raw = length ((if cap_childrens_parents caps then ''@'' else []) @
      (case cap_parents caps of Some x \<Rightarrow> x @ ''+'' | None \<Rightarrow> []) @
      (case cap_method caps of Some x \<Rightarrow> x @ '':'' | None \<Rightarrow> []) @ cap_value caps @
      (case cap_children caps of Some x \<Rightarrow> ''+'' @ x | None \<Rightarrow> []))"
      using ms by metis
    then show ?thesis using ds(1) by auto
  qed
  ultimately show False using assms caps(2) by (cases "cap_value caps") auto
qed

section \<open>Command lines\<close>

definition and_term :: "SelectionCriteria list \<Rightarrow> SelectExpression" where
  "and_term cs = (case cs of [c] \<Rightarrow> Atom c | _ \<Rightarrow> And (map Atom cs))"

definition cli_expression :: "SelectionCriteria list list \<Rightarrow> SelectExpression" where
  "cli_expression css = (case css of [cs] \<Rightarrow> and_term cs | _ \<Rightarrow> Or (map and_term css))"

lemma collect_results_rmap:
  "collect_results (\<lambda>x. rmap g (f x)) xs = rmap (map g) (collect_results f xs)"
proof (induction xs)
  case (Cons x xs)
  then show ?case by (cases "f x"; cases "collect_results f xs") auto
qed simp

lemma dropWhile_whitespace: "trim s = [] \<longleftrightarrow> list_all is_whitespace s"
proof -
  have "trim s = [] \<longleftrightarrow> (\<forall>x \<in> set (dropWhile is_whitespace s). is_whitespace x)"
    by (simp add: trim_def dropWhile_eq_Nil_conv)
  also have "\<dots> \<longleftrightarrow> dropWhile is_whitespace s = []"
  proof -
    have "(\<forall>x \<in> set w. is_whitespace x) \<longleftrightarrow> w = []" if "w \<noteq> [] \<Longrightarrow> \<not> is_whitespace (hd w)" for w
      using that by (cases w) auto
    from this [OF hd_dropWhile [of is_whitespace s]] show ?thesis .
  qed
  finally show ?thesis by (simp add: dropWhile_eq_Nil_conv list_all_iff)
qed

lemma comma_not_whitespace: "\<not> is_whitespace (CHR '','')"
  by (simp add: is_whitespace_def char_code_def Let_def)

lemma blank_token: "trim token = [] \<Longrightarrow> token_pieces token = []"
proof -
  assume t: "trim token = []"
  then have "CHR '','' \<notin> set token"
    using comma_not_whitespace by (auto simp: dropWhile_whitespace list_all_iff)
  then show ?thesis using t by (simp add: token_pieces_def split_on_none)
qed

lemma parse_tokens_eq:
  "parse_tokens tokens =
     rmap (map and_term)
       (collect_results (collect_results parse_single_selector) (filter (\<lambda>ps. ps \<noteq> []) (map token_pieces tokens)))"
proof (induction tokens)
  case (Cons token tokens)
  show ?case
  proof (cases "token_pieces token = []")
    case True
    then show ?thesis using Cons by (simp add: collapse_def)
  next
    case False
    then have "trim token \<noteq> []" using blank_token by blast
    show ?thesis
    proof (cases "collect_results parse_single_selector (token_pieces token)")
      case (Inl e)
      then show ?thesis using False \<open>trim token \<noteq> []\<close> by (simp add: collect_results_rmap)
    next
      case (Inr cs)
      have "cs \<noteq> []" using Inr False by (auto simp: collect_results_Inr)
      then have "collapse And (map Atom cs) = Some (and_term cs)"
        by (auto simp: collapse_def and_term_def split: list.splits)
      then show ?thesis
        using Cons False \<open>trim token \<noteq> []\<close> Inr
        by (cases "collect_results (collect_results parse_single_selector)
              (filter (\<lambda>ps. ps \<noteq> []) (map token_pieces tokens))")
          (simp_all add: collect_results_rmap)
    qed
  qed
qed simp

lemma parse_model_specifiers_eq:
  assumes "tokens \<noteq> []"
  shows "parse_model_specifiers tokens =
     (let pieces = filter (\<lambda>ps. ps \<noteq> []) (map token_pieces tokens) in
      if pieces = [] then Inr (Atom (Criteria Fqn [] (Scalar (join '' '' tokens)) False None None (Some Eager) None))
      else rmap cli_expression (collect_results (collect_results parse_single_selector) pieces))"
proof -
  let ?ps = "filter (\<lambda>ps. ps \<noteq> []) (map token_pieces tokens)"
  show ?thesis
  proof (cases "collect_results (collect_results parse_single_selector) ?ps")
    case (Inl e)
    then have "?ps \<noteq> []" by auto
    then show ?thesis using assms Inl by (simp add: parse_model_specifiers_def parse_tokens_eq Let_def)
  next
    case (Inr css)
    then have "css = [] \<longleftrightarrow> ?ps = []" by (auto simp: collect_results_Inr)
    then show ?thesis
      using assms Inr
      by (auto simp: parse_model_specifiers_def parse_tokens_eq Let_def collapse_def cli_expression_def
          split: list.splits)
  qed
qed

definition show_token :: "SelectionCriteria list \<Rightarrow> string" where
  "show_token cs = join '','' (map show_criteria cs)"

lemma show_and_term: "cs \<noteq> [] \<Longrightarrow> show_expression (and_term cs) = show_token cs"
  by (cases cs rule: list.exhaust; cases "tl cs") (auto simp: and_term_def show_token_def comp_def)

definition token_safe :: "SelectionCriteria \<Rightarrow> bool" where
  "token_safe c \<longleftrightarrow> criteria_wf c \<and> CHR '','' \<notin> set (show_criteria c) \<and> trim (show_criteria c) = show_criteria c"

lemma token_pieces_show:
  assumes "cs \<noteq> []" and "\<forall>c \<in> set cs. token_safe c"
  shows "token_pieces (show_token cs) = map show_criteria cs"
proof -
  have "split_on (CHR '','') (show_token cs) = map show_criteria cs"
    unfolding show_token_def using assms by (intro split_on_join) (auto simp: token_safe_def)
  moreover have "map trim (map show_criteria cs) = map show_criteria cs"
    using assms(2) by (auto simp: token_safe_def)
  moreover have "show_criteria c \<noteq> []" for c
    using show_method_start [of "sel_method c"] by (auto simp: show_criteria_def)
  ultimately show ?thesis by (simp add: token_pieces_def)
qed

lemma parse_show_expression:
  assumes "css \<noteq> []" and "\<forall>cs \<in> set css. cs \<noteq> [] \<and> (\<forall>c \<in> set cs. token_safe c)"
  shows "parse_model_specifiers (map show_token css) = Inr (cli_expression css)"
proof -
  have p: "map token_pieces (map show_token css) = map (map show_criteria) css"
    using assms(2) token_pieces_show by auto
  have f: "filter (\<lambda>ps. ps \<noteq> []) (map (map show_criteria) css) = map (map show_criteria) css"
    using assms(2) by (auto simp: filter_id_conv)
  have c: "collect_results parse_single_selector (map show_criteria cs) = Inr cs" if "cs \<in> set css" for cs
    using that assms(2) parse_show_criteria
    by (auto simp: collect_results_Inr token_safe_def list.rel_map intro!: list.rel_refl_strong)
  have "collect_results (collect_results parse_single_selector) (map (map show_criteria) css) = Inr css"
    using c by (auto simp: collect_results_Inr list.rel_map intro!: list.rel_refl_strong)
  then show ?thesis
    using parse_model_specifiers_eq [of "map show_token css", unfolded Let_def p f] assms(1) by simp
qed

section \<open>Column selectors\<close>

fun has_column :: "SelectExpression \<Rightarrow> bool" where
  "has_column (Atom (Criteria m a v cp pd cd i ex)) =
     ((m = Column \<and> value_as_str v \<noteq> None) \<or> (case ex of Some e \<Rightarrow> has_column e | None \<Rightarrow> False))"
| "has_column (And es) = list_ex has_column es"
| "has_column (Or es) = list_ex has_column es"
| "has_column (Exclude e) = has_column e"

lemma convert_column_correct:
  "\<not> has_column (fst (convert_column_selectors_to_fqn e)) \<and>
   (snd (convert_column_selectors_to_fqn e) \<longleftrightarrow> has_column e) \<and>
   (\<not> has_column e \<longrightarrow> fst (convert_column_selectors_to_fqn e) = e)"
proof (induction e rule: convert_column_selectors_to_fqn.induct)
  case (1 m a v cp pd cd i ex)
  then show ?case
    by (cases ex) (auto simp: convert_atom_def Let_def value_as_str_def split: prod.splits SelectionValue.splits if_splits)
next
  case (2 es)
  then show ?case by (auto simp: list_ex_iff Let_def map_idI)
next
  case (3 es)
  then show ?case by (auto simp: list_ex_iff Let_def map_idI)
qed (auto simp: Let_def)

end
