(* ===== verification/Selector_Contract.thy ===== *)
theory Selector_Contract imports Selector_Syntax_Correct begin

text \<open>
  What the selection language of \<^verbatim>\<open>crates/dbt-common/src/node_selector.rs\<close> promises: criteria and whole
  command lines survive printing and parsing, a command line is an Or of Ands of its pieces, the only
  panic is a depth above 32 bits, and column selectors are rewritten everywhere and nothing else is.
\<close>

text \<open>A criterion \<open>fqn:v\<close> with optional depths.\<close>

definition fqn_criterion :: "string \<Rightarrow> nat option \<Rightarrow> nat option \<Rightarrow> SelectionCriteria" where
  "fqn_criterion v p d = Criteria Fqn [] (Scalar v) False p d (Some Eager) None"

text \<open>A criterion that the grammar can write is parsed back from its printed form unchanged, and every
  criterion the parser returns is one the grammar can write, a depth of zero excepted, which is
  printed as an unlimited depth.\<close>

theorem selector_round_trip:
  "(criteria_wf c \<longrightarrow> parse_single_selector (show_criteria c) = Inr c) \<and>
   (parse_single_selector raw = Inr c \<and> sel_parents_depth c \<noteq> Some 0 \<and> sel_children_depth c \<noteq> Some 0 \<longrightarrow>
    criteria_wf c)"
  using parse_show_criteria parse_single_selector_wf by blast

theorem selector_round_trip_witness:
  "parse_single_selector (show_criteria (fqn_criterion ''orders'' (Some 2) None)) =
   Inr (fqn_criterion ''orders'' (Some 2) None)"
proof -
  have "criteria_wf (fqn_criterion ''orders'' (Some 2) None)"
    by (simp add: fqn_criterion_def criteria_wf_def match_children_def rsplit_once_notin)
  then show ?thesis using selector_round_trip by blast
qed

text \<open>C30 A list of tokens, each printed from criteria joined by commas, is parsed to the Or of the Ands of
  those criteria, without a wrapper around a single term.\<close>

theorem command_line_round_trip:
  assumes "css \<noteq> []" and "\<forall>cs \<in> set css. cs \<noteq> [] \<and> (\<forall>c \<in> set cs. token_safe c)"
  shows "parse_model_specifiers (map show_token css) = Inr (cli_expression css)"
  by (rule parse_show_expression [OF assms])

lemma token_safe_orders: "token_safe (fqn_criterion ''orders'' None None)" "token_safe (fqn_criterion ''users'' None None)"
  by (simp_all add: token_safe_def fqn_criterion_def criteria_wf_def match_children_def rsplit_once_notin show_criteria_def
      trim_def is_whitespace_def to_ascii_lowercase_def ascii_lower_def is_ascii_upper_def char_code_def show_value_def)

theorem command_line_round_trip_witness:
  "parse_model_specifiers (map show_token [[fqn_criterion ''orders'' None None], [fqn_criterion ''users'' None None]]) =
   Inr (Or [Atom (fqn_criterion ''orders'' None None), Atom (fqn_criterion ''users'' None None)])"
  using command_line_round_trip [of "[[fqn_criterion ''orders'' None None], [fqn_criterion ''users'' None None]]"]
    token_safe_orders by (simp add: cli_expression_def and_term_def)

lemma big_depth_match:
  "match_selector ''99999999999+m'' = Some \<lparr>cap_childrens_parents = False, cap_parents = Some ''99999999999'',
     cap_method = None, cap_value = ''m'', cap_children = None\<rparr>"
  by (simp add: match_selector_def match_parents_def match_method_def match_children_def char_eval rsplit_once_notin)

lemma big_depth_overflow: "parse_uint u32_max ''99999999999'' = None"
  by (simp add: parse_uint_def dec_val_def digit_val_def char_eval)

text \<open>C35 The selector parser panics only on a depth that does not fit 32 bits; no selector of at most
  eleven characters has one, and one of thirteen does.\<close>

theorem parse_single_selector_panics:
  "(parse_single_selector raw = Inl (Panic msg) \<longrightarrow>
      11 < length raw \<and>
      (\<exists>caps. match_selector raw = Some caps \<and>
        (depth_overflow (cap_parents caps) \<or> depth_overflow (cap_children caps)))) \<and>
   (\<exists>msg. parse_single_selector ''99999999999+m'' = Inl (Panic msg))"
proof -
  have "\<exists>msg. parse_single_selector ''99999999999+m'' = Inl (Panic msg)"
    by (simp add: parse_single_selector_def big_depth_match big_depth_overflow parse_method_def parse_depth_def
        default_for_def)
  then show ?thesis
    using parse_single_selector_short [of raw msg] parse_single_selector_panic [of raw msg] by (metis not_le)
qed

theorem parse_single_selector_panics_witness:
  "\<forall>msg. parse_single_selector ''+orders'' \<noteq> Inl (Panic msg)"
proof
  fix msg
  show "parse_single_selector ''+orders'' \<noteq> Inl (Panic msg)"
    using parse_single_selector_panics [of "''+orders''" msg] by auto
qed

text \<open>Rewriting column selectors leaves no column selector anywhere in an expression, nested excludes
  included, reports exactly whether there was one, and changes nothing when there was none.\<close>

theorem convert_column_selectors_complete:
  "\<not> has_column (fst (convert_column_selectors_to_fqn e)) \<and>
   (snd (convert_column_selectors_to_fqn e) \<longleftrightarrow> has_column e) \<and>
   (\<not> has_column e \<longrightarrow> fst (convert_column_selectors_to_fqn e) = e)"
  using convert_column_correct [of e] .

theorem convert_column_selectors_witness:
  "fst (convert_column_selectors_to_fqn (Atom (fqn_criterion ''orders'' None None))) =
   Atom (fqn_criterion ''orders'' None None)"
  using convert_column_selectors_complete [of "Atom (fqn_criterion ''orders'' None None)"]
  by (simp add: fqn_criterion_def)

end
