(* ===== verification/Nodes.thy ===== *)
theory Nodes imports Dbt_Prelude begin

text \<open>
  The resolved nodes of a project, from \<^verbatim>\<open>crates/dbt-schemas/src/schemas/nodes.rs\<close>. The selection and
  scheduling code reads a node through the traits \<^verbatim>\<open>InternalDbtNode\<close> and
  \<^verbatim>\<open>InternalDbtNodeAttributes\<close>; the record \<open>node\<close> has one field for each question they ask of it.
  \<open>nodes\<close> is the struct \<^verbatim>\<open>Nodes\<close>: one ordered map per kind of node.
\<close>

section \<open>Attributes\<close>

datatype NodeType = Unspecified | Model | Seed | Snapshot | SourceNode | TestNode | UnitTestNode | Macro
  | DocsMacro | Analysis | Operation | ExposureNode | MetricNode | SavedQueryNode | SemanticModelNode
  | FunctionNode | Check | Experimental

fun node_type_str :: "NodeType \<Rightarrow> string" where
  "node_type_str Unspecified = ''unspecified''"
| "node_type_str Model = ''model''"
| "node_type_str Seed = ''seed''"
| "node_type_str Snapshot = ''snapshot''"
| "node_type_str SourceNode = ''source''"
| "node_type_str TestNode = ''test''"
| "node_type_str UnitTestNode = ''unit_test''"
| "node_type_str Macro = ''macro''"
| "node_type_str DocsMacro = ''docs_macro''"
| "node_type_str Analysis = ''analysis''"
| "node_type_str Operation = ''operation''"
| "node_type_str ExposureNode = ''exposure''"
| "node_type_str MetricNode = ''metric''"
| "node_type_str SavedQueryNode = ''saved_query''"
| "node_type_str SemanticModelNode = ''semantic_model''"
| "node_type_str FunctionNode = ''function''"
| "node_type_str Check = ''check''"
| "node_type_str Experimental = ''experimental''"

datatype DbtMaterialization = MatSnapshot | MatSeed | MatView | MatTable | MatIncremental
  | MatMaterializedView | MatExternal | MatTest | Ephemeral | MatUnit | MatAnalysis | MatFunction
  | MatMetricView | MatStreamingTable | MatDynamicTable | MatInteractiveTable | MatInline
  | MatUnknown string

datatype Access = Private | Protected | Public

fun show_access :: "Access \<Rightarrow> string" where
  "show_access Private = ''private''"
| "show_access Protected = ''protected''"
| "show_access Public = ''public''"

datatype ComputeArg = Remote | Inline | Sidecar | Service

datatype DbtChecksum = ChecksumString string | ChecksumObject (checksum_name: string) (checksum_value: string)

text \<open>\<^verbatim>\<open>str::to_lowercase\<close> on the code points below 256.\<close>

definition lower_char :: "char \<Rightarrow> char" where
  "lower_char c =
     (if 65 \<le> char_code c \<and> char_code c \<le> 90 \<or> 192 \<le> char_code c \<and> char_code c \<le> 222 \<and> char_code c \<noteq> 215
      then char_of (char_code c + 32) else c)"

fun checksum_eq :: "DbtChecksum \<Rightarrow> DbtChecksum \<Rightarrow> bool" where
  "checksum_eq (ChecksumString s1) (ChecksumString s2) = (s1 = s2)"
| "checksum_eq (ChecksumObject n1 c1) (ChecksumObject n2 c2) =
     (map lower_char n1 = map lower_char n2 \<and> c1 = c2)"
| "checksum_eq (ChecksumString c1) (ChecksumObject _ c2) = (c1 = c2)"
| "checksum_eq (ChecksumObject _ c1) (ChecksumString c2) = (c1 = c2)"

text \<open>The hash function is of another crate.\<close>

definition checksum_hash :: "(string \<Rightarrow> string) \<Rightarrow> string \<Rightarrow> DbtChecksum" where
  "checksum_hash sha256_hex s = ChecksumObject ''sha256'' (sha256_hex s)"

text \<open>\<^verbatim>\<open>i64::from_str\<close>: an optional sign, at least one digit, a value in range.\<close>

definition parse_i64 :: "string \<Rightarrow> int option" where
  "parse_i64 s =
     (let (neg, d) = (case s of c # r \<Rightarrow> if c = CHR ''-'' then (True, r) else if c = CHR ''+'' then (False, r)
                        else (False, s) | [] \<Rightarrow> (False, s));
          v = (if neg then - int (dec_val d) else int (dec_val d))
      in if d \<noteq> [] \<and> list_all is_ascii_digit d \<and> - 9223372036854775808 \<le> v \<and> v \<le> 9223372036854775807
         then Some v else None)"

datatype StringOrInteger = VString string | VInteger int

text \<open>\<^verbatim>\<open>to_i64\<close> panics on a text that is not an integer.\<close>

definition to_i64 :: "StringOrInteger \<Rightarrow> int fs_result" where
  "to_i64 v =
     (case v of
        VString value \<Rightarrow> (case parse_i64 value of Some i \<Rightarrow> Inr i | None \<Rightarrow> Inl (Panic []))
      | VInteger i \<Rightarrow> Inr i)"

text \<open>
  A YAML value, a type of another crate: the variants the selectors tell apart, with the text the
  crate prints for a timestamp or a number.
\<close>

datatype yaml = YString string | YBool bool | YTimestamp string | YNumber string
  | YSequence "yaml list" | YMapping "(string \<times> yaml) list" | YOther

type_synonym location = string

text \<open>What a node's SQL asks of the warehouse while it is rendered.\<close>

datatype IntrospectionKind = IntroNone | IntroExecute | IntroThis | IntroUpstreamSchema | IntroInternalSchema
  | IntroExternalSchema | IntroUnknown

record node =
  unique_id :: string
  name :: string
  package_name :: string
  fqn :: "string list"
  resource_type :: NodeType
  experimental_type :: "string option"
  original_name :: "string option"
  is_versioned :: bool
  version :: "StringOrInteger option"
  latest_version :: "StringOrInteger option"
  original_file_path :: string
  patch_path :: "string option"
  source_name :: string
  test_metadata_name :: "string option"
  tags :: "string list"
  access :: "Access option"
  group :: "string option"
  serialized_config :: yaml
  depends_on :: "string list"
  ref_locations :: "(string \<times> location) list"
  materialized :: DbtMaterialization
  compute :: "ComputeArg option"
  enabled :: bool
  is_extended_model :: bool
  checksum :: DbtChecksum
  relation_name :: "string option"
  column_names :: "string list"
  introspection :: IntrospectionKind
  tested_node_unique_id :: "string option"
  continues_on_error :: bool

section \<open>The nodes of a project\<close>

record nodes =
  models :: "(string, node) bmap"
  seeds :: "(string, node) bmap"
  tests :: "(string, node) bmap"
  unit_tests :: "(string, node) bmap"
  sources :: "(string, node) bmap"
  snapshots :: "(string, node) bmap"
  analyses :: "(string, node) bmap"
  exposures :: "(string, node) bmap"
  semantic_models :: "(string, node) bmap"
  metrics :: "(string, node) bmap"
  saved_queries :: "(string, node) bmap"
  function_nodes :: "(string, node) bmap"
  checks :: "(string, node) bmap"
  experimentals :: "(string, node) bmap"
  project_name :: "string option"

definition empty_nodes :: nodes where
  "empty_nodes = \<lparr>models = [], seeds = [], tests = [], unit_tests = [], sources = [], snapshots = [],
     analyses = [], exposures = [], semantic_models = [], metrics = [], saved_queries = [],
     function_nodes = [], checks = [], experimentals = [], project_name = None\<rparr>"

definition or_else :: "'a option \<Rightarrow> 'a option \<Rightarrow> 'a option" where
  "or_else a b = (case a of Some x \<Rightarrow> Some x | None \<Rightarrow> b)"

definition get_node :: "nodes \<Rightarrow> string \<Rightarrow> node option" where
  "get_node ns uid =
     or_else (map_of (models ns) uid) (or_else (map_of (seeds ns) uid) (or_else (map_of (tests ns) uid)
     (or_else (map_of (unit_tests ns) uid) (or_else (map_of (sources ns) uid)
     (or_else (map_of (snapshots ns) uid) (or_else (map_of (analyses ns) uid)
     (or_else (map_of (exposures ns) uid) (or_else (map_of (function_nodes ns) uid)
     (or_else (map_of (checks ns) uid) (or_else (map_of (semantic_models ns) uid)
     (or_else (map_of (metrics ns) uid) (or_else (map_of (saved_queries ns) uid)
       (map_of (experimentals ns) uid)))))))))))))"

definition has_key :: "('k, 'v) bmap \<Rightarrow> 'k \<Rightarrow> bool" where
  "has_key m k \<longleftrightarrow> map_of m k \<noteq> None"

definition contains :: "nodes \<Rightarrow> string \<Rightarrow> bool" where
  "contains ns uid \<longleftrightarrow>
     has_key (models ns) uid \<or> has_key (seeds ns) uid \<or> has_key (tests ns) uid \<or>
     has_key (unit_tests ns) uid \<or> has_key (sources ns) uid \<or> has_key (snapshots ns) uid \<or>
     has_key (analyses ns) uid \<or> has_key (exposures ns) uid \<or> has_key (semantic_models ns) uid \<or>
     has_key (metrics ns) uid \<or> has_key (function_nodes ns) uid \<or> has_key (checks ns) uid \<or>
     has_key (saved_queries ns) uid \<or> has_key (experimentals ns) uid"

definition node_count :: "nodes \<Rightarrow> nat" where
  "node_count ns =
     length (models ns) + length (seeds ns) + length (tests ns) + length (unit_tests ns) +
     length (sources ns) + length (snapshots ns) + length (analyses ns) + length (exposures ns) +
     length (function_nodes ns) + length (checks ns) + length (semantic_models ns) + length (metrics ns) +
     length (saved_queries ns) + length (experimentals ns)"

definition iter :: "nodes \<Rightarrow> (string \<times> node) list" where
  "iter ns = models ns @ seeds ns @ tests ns @ unit_tests ns @ sources ns @ snapshots ns @ analyses ns @
     exposures ns @ function_nodes ns @ checks ns @ semantic_models ns @ metrics ns @ saved_queries ns @
     experimentals ns"

definition materializable_keys :: "nodes \<Rightarrow> string list" where
  "materializable_keys ns =
     map fst (models ns @ seeds ns @ tests ns @ unit_tests ns @ sources ns @ snapshots ns @ analyses ns @
       exposures ns @ function_nodes ns @ checks ns @ semantic_models ns @ metrics ns @ saved_queries ns)"

section \<open>Lookup and iteration agree\<close>

text \<open>
  A project as the resolver builds it: no id is in two maps, and every key is the id of its node.
\<close>

definition nodes_wf :: "nodes \<Rightarrow> bool" where
  "nodes_wf ns \<longleftrightarrow> distinct (map fst (iter ns)) \<and> (\<forall>(k, n) \<in> set (iter ns). unique_id n = k)"

lemma or_else_map_add: "or_else (f x) (g x) = (g ++ f) x"
  by (simp add: or_else_def map_add_def)

lemma get_node_map_of: "get_node ns uid = map_of (iter ns) uid"
  by (simp add: get_node_def iter_def map_add_def or_else_def split: option.splits)

lemma contains_iff_get_node: "contains ns uid \<longleftrightarrow> get_node ns uid \<noteq> None"
  by (auto simp: contains_def get_node_def has_key_def or_else_def split: option.splits)

lemma node_count_iter: "node_count ns = length (iter ns)"
  by (simp add: node_count_def iter_def)

lemma iter_get_node: "nodes_wf ns \<Longrightarrow> (k, n) \<in> set (iter ns) \<longleftrightarrow> get_node ns k = Some n"
  by (simp add: nodes_wf_def get_node_map_of)

lemma materializable_iter:
  "set (materializable_keys ns) \<union> fst ` set (experimentals ns) = {k. contains ns k}"
  unfolding contains_iff_get_node get_node_map_of
  by (auto simp: materializable_keys_def iter_def map_of_eq_None_iff)

end
