(* ===== verification/Node_Match.thy ===== *)
theory Node_Match imports Nodes Selector_Syntax "HOL-Library.Product_Lexorder" begin

text \<open>
  Matching of nodes against selection criteria, from \<^verbatim>\<open>crates/dbt-scheduler/src/node_selector.rs\<close>.

  Glob patterns and the normalisation of paths are of other crates (\<^verbatim>\<open>glob::Pattern\<close>,
  \<^verbatim>\<open>clean_path\<close>) and the identifier parser is of a dialect; they are the fields of \<open>env\<close>, an argument
  of every definition that uses them. The comparison manifest is read through the answers it gives
  (\<open>artifacts\<close>): whether a node is modified, new or present, the results of the previous run and the
  freshness results, with times as numbers.
\<close>

section \<open>What matching relies on\<close>

record env =
  glob_new :: "string \<Rightarrow> (string \<Rightarrow> bool) option"
  clean_path :: "string \<Rightarrow> string"
  parse_identifier :: "string \<Rightarrow> string option"

datatype ModificationType = Body | Configs | Relation | PersistedDescriptions | Macros | Contract

record artifacts =
  is_modified :: "node \<Rightarrow> ModificationType option \<Rightarrow> bool"
  is_new :: "node \<Rightarrow> bool"
  is_present :: "node \<Rightarrow> bool"
  run_results :: "(string \<times> string) list option"
  source_freshness_results :: "(string \<times> int) list option"
  target_path :: "string option"
  current_sources :: "(string \<times> int) list fs_result"

type_synonym state_selector_results = "(string, string bset) bmap"

definition modified_sub_type :: "string \<Rightarrow> ModificationType option" where
  "modified_sub_type s =
     (if s = ''body'' then Some Body
      else if s = ''configs'' then Some Configs
      else if s = ''relation'' then Some Relation
      else if s = ''persisted_descriptions'' then Some PersistedDescriptions
      else if s = ''macros'' then Some Macros
      else if s = ''contract'' then Some Contract
      else None)"

definition selector_error :: "string \<Rightarrow> 'a fs_result" where
  "selector_error msg = Inl (Err SelectorError msg)"

section \<open>Patterns\<close>

definition is_special_char :: "char \<Rightarrow> bool" where
  "is_special_char c \<longleftrightarrow> c = CHR ''*'' \<or> c = CHR ''?'' \<or> c = CHR ''['' \<or> c = CHR '']''"

definition has_special_chars :: "string \<Rightarrow> bool" where
  "has_special_chars pattern = list_ex is_special_char pattern"

definition fnmatch :: "env \<Rightarrow> string \<Rightarrow> string \<Rightarrow> bool" where
  "fnmatch E pattern text =
     (if has_special_chars pattern
      then (case glob_new E pattern of Some p \<Rightarrow> p text | None \<Rightarrow> False)
      else pattern = text)"

section \<open>Paths\<close>

text \<open>
  \<^verbatim>\<open>std::path\<close> on Unix: a path is rooted or not and has components; empty components and dots
  are dropped, a leading dot excepted.
\<close>

definition is_rooted :: "string \<Rightarrow> bool" where
  "is_rooted s \<longleftrightarrow> s \<noteq> [] \<and> hd s = CHR ''/''"

definition components :: "string \<Rightarrow> string list" where
  "components s =
     (let ps = split_on (CHR ''/'') s;
          keep = filter (\<lambda>p. p \<noteq> [] \<and> p \<noteq> ''.'')
      in if hd ps = ''.'' then ''.'' # keep (tl ps) else keep ps)"

definition path_eq :: "string \<Rightarrow> string \<Rightarrow> bool" where
  "path_eq a b \<longleftrightarrow> is_rooted a = is_rooted b \<and> components a = components b"

definition path_starts_with :: "string \<Rightarrow> string \<Rightarrow> bool" where
  "path_starts_with a b \<longleftrightarrow> (is_rooted b \<longrightarrow> is_rooted a) \<and>
     (is_rooted a \<longrightarrow> is_rooted b \<or> (\<not> is_rooted b \<and> components b = [])) \<and>
     take (length (components b)) (components a) = components b"

definition file_name :: "string \<Rightarrow> string option" where
  "file_name s =
     (let cs = components s in
      if cs = [] \<or> last cs = ''.'' \<or> last cs = ''..'' then None else Some (last cs))"

text \<open>The name up to its last dot; a name whose only dot is its first character has no extension.\<close>

definition file_stem :: "string \<Rightarrow> string option" where
  "file_stem s =
     map_option (\<lambda>f. case rsplit_once (CHR ''.'') f of
         Some (stem, _) \<Rightarrow> if stem = [] then f else stem
       | None \<Rightarrow> f) (file_name s)"

fun trim_rev :: "string \<Rightarrow> string" where
  "trim_rev (c # d # r) =
     (if c = CHR ''/'' then trim_rev (d # r)
      else if c = CHR ''.'' \<and> d = CHR ''/'' then trim_rev (d # r)
      else c # d # r)"
| "trim_rev s = s"

definition trim_path :: "string \<Rightarrow> string" where
  "trim_path s = rev (trim_rev (rev s))"

definition path_parent :: "string \<Rightarrow> string option" where
  "path_parent s =
     (let t = trim_path s in
      if t = [] \<or> t = ''/'' then None
      else Some (trim_path (rev (dropWhile (\<lambda>c. c \<noteq> CHR ''/'') (rev t)))))"

fun ancestors_of :: "nat \<Rightarrow> string \<Rightarrow> string list" where
  "ancestors_of 0 s = [s]"
| "ancestors_of (Suc n) s = s # (case path_parent s of None \<Rightarrow> [] | Some p \<Rightarrow> ancestors_of n p)"

text \<open>A parent is shorter than its path, so the length of the path bounds the number of ancestors.\<close>

definition ancestors :: "string \<Rightarrow> string list" where
  "ancestors s = ancestors_of (length s) s"

section \<open>Fully qualified names\<close>

definition is_selected_node :: "env \<Rightarrow> string list \<Rightarrow> string \<Rightarrow> bool \<Rightarrow> bool" where
  "is_selected_node E fq selector versioned =
     (if fq = [] then False
      else if CHR ''.'' \<notin> set selector \<and> has_special_chars selector
      then (case glob_new E selector of Some p \<Rightarrow> p (last fq) | None \<Rightarrow> False)
      else if versioned \<and> 2 \<le> length fq \<and>
        (fq ! (length fq - 2) = selector \<or>
         fq ! (length fq - 2) @ ''_'' @ fq ! (length fq - 1) =
           (case rsplit_once (CHR ''.'') selector of Some (h, t) \<Rightarrow> h @ ''_'' @ t | None \<Rightarrow> selector))
      then True
      else if \<not> versioned \<and> last fq = selector then True
      else (let flat_fqn = concat (map (split_on (CHR ''.'')) fq);
                sel_parts = split_on (CHR ''.'') selector
            in if length flat_fqn < length sel_parts then False
               else (let ix = length (takeWhile (\<lambda>p. \<not> has_special_chars p) sel_parts)
                     in if take ix flat_fqn \<noteq> take ix sel_parts then False
                        else if ix < length sel_parts
                        then (case glob_new E (join ''.'' (drop ix sel_parts)) of
                                Some p \<Rightarrow> p (join ''.'' (drop ix flat_fqn)) | None \<Rightarrow> False)
                        else True)))"

definition node_is_match :: "env \<Rightarrow> string \<Rightarrow> string list \<Rightarrow> bool \<Rightarrow> bool" where
  "node_is_match E selector fq versioned =
     (if is_selected_node E fq selector versioned then True
      else if 1 < length fq \<and> is_selected_node E (tl fq) selector versioned then True
      else False)"

section \<open>The methods\<close>

definition match_source :: "env \<Rightarrow> string \<Rightarrow> node \<Rightarrow> bool fs_result" where
  "match_source E pattern n =
     (if resource_type n \<noteq> SourceNode then Inr False
      else (let parts = split_on (CHR ''.'') pattern;
                target_package = (if length parts = 3 then parts ! 0 else ''*'');
                target_source = (if 2 \<le> length parts then parts ! (length parts - 2) else parts ! 0);
                target_table = (if 2 \<le> length parts then parts ! (length parts - 1) else ''*'')
            in if 3 < length parts
               then selector_error (''Invalid source selector value. Sources must be of the form ${source_name}, '' @
                 ''${source_name}.${target_name}, or ${package_name}.${source_name}.${target_name}'')
               else Inr (fnmatch E target_package (package_name n) \<and> fnmatch E target_source (source_name n) \<and>
                 fnmatch E target_table (name n))))"

definition match_resource_type :: "string \<Rightarrow> node \<Rightarrow> bool fs_result" where
  "match_resource_type pattern n =
     (if pattern = ''relation'' \<and> resource_type n \<notin> {TestNode, Check, Experimental} then Inr True
      else Inr (pattern = node_type_str (resource_type n) \<or> experimental_type n = Some pattern))"

definition generic_tests_dir :: string where
  "generic_tests_dir = ''generic_tests''"

definition match_test_type :: "string \<Rightarrow> node \<Rightarrow> bool fs_result" where
  "match_test_type pattern n =
     (if pattern = ''unit'' then Inr (resource_type n = UnitTestNode)
      else if pattern = ''data'' then Inr (resource_type n = TestNode)
      else if pattern = ''singular'' \<or> pattern = ''generic'' then
        (if resource_type n \<noteq> TestNode then Inr False
         else (let is_generic = str_contains (original_file_path n) generic_tests_dir
               in Inr ((pattern = ''generic'' \<and> is_generic) \<or> (pattern = ''singular'' \<and> \<not> is_generic))))
      else Inr False)"

definition compare_versions :: "(int \<Rightarrow> int \<Rightarrow> bool) \<Rightarrow> node \<Rightarrow> bool fs_result" where
  "compare_versions f n =
     (case (version n, latest_version n) of
        (Some v, Some l) \<Rightarrow> rbind (to_i64 v) (\<lambda>v. rmap (\<lambda>l. f v l) (to_i64 l))
      | _ \<Rightarrow> Inr False)"

definition match_version :: "string \<Rightarrow> node \<Rightarrow> bool fs_result" where
  "match_version pattern n =
     (if resource_type n \<noteq> Model then Inr False
      else (case file_stem (original_file_path n) of
              None \<Rightarrow> Inl (Panic ''Model should have a file name'')
            | Some stem \<Rightarrow>
                let file_version = ends_with stem ''_v1'' \<or> ends_with stem ''_v2''
                in if pattern = ''latest'' then
                     (case (version n, latest_version n) of (Some v, Some l) \<Rightarrow> Inr (v = l) | _ \<Rightarrow> Inr False)
                   else if pattern = ''prerelease'' then compare_versions (\<lambda>v l. l < v) n
                   else if pattern = ''old'' then compare_versions (\<lambda>v l. v < l) n
                   else if pattern = ''none'' then Inr (\<not> file_version)
                   else selector_error ''version must be one of old, none, latest, prerelease''))"

definition match_state :: "string \<Rightarrow> node \<Rightarrow> artifacts option \<Rightarrow> bool fs_result" where
  "match_state pattern n previous_state =
     (let parts = split_on (CHR ''.'') pattern in
      if unique_id n = [] then Inr False
      else (case previous_state of
              Some previous \<Rightarrow>
                if hd parts = ''modified'' then
                  (if 1 < length parts
                   then (case modified_sub_type (parts ! 1) of
                           Some t \<Rightarrow> Inr (is_modified previous n (Some t)) | None \<Rightarrow> Inr False)
                   else Inr (is_modified previous n None))
                else if hd parts = ''new'' then Inr (is_new previous n)
                else if hd parts = ''old'' then Inr (is_present previous n)
                else if hd parts = ''unmodified'' then Inr (is_present previous n \<and> \<not> is_modified previous n None)
                else Inr False
            | None \<Rightarrow> Inr (hd parts = ''new'')))"

definition match_fqn :: "env \<Rightarrow> string \<Rightarrow> node \<Rightarrow> bool fs_result" where
  "match_fqn E pattern n =
     (if resource_type n = SourceNode then Inr False
      else if fnmatch E pattern (name n) \<or> fnmatch E pattern (unique_id n) then Inr True
      else if (case original_name n of Some orig \<Rightarrow> fnmatch E pattern orig | None \<Rightarrow> False) then Inr True
      else Inr (node_is_match E pattern (fqn n) (is_versioned n)))"

text \<open>A column criterion matches the node part of its value as a fully qualified name.\<close>

definition match_column :: "env \<Rightarrow> string \<Rightarrow> node \<Rightarrow> bool fs_result" where
  "match_column E pattern n = match_fqn E (column_node_part pattern) n"

definition match_file :: "env \<Rightarrow> string \<Rightarrow> node \<Rightarrow> bool fs_result" where
  "match_file E pattern n =
     (case file_name (original_file_path n) of
        None \<Rightarrow> Inr False
      | Some fname \<Rightarrow>
          if fnmatch E pattern fname then Inr True
          else (case file_stem fname of Some stem \<Rightarrow> Inr (fnmatch E pattern stem) | None \<Rightarrow> Inr False))"

definition match_package :: "env \<Rightarrow> string \<Rightarrow> node \<Rightarrow> string option \<Rightarrow> bool fs_result" where
  "match_package E pattern n project =
     (let resolved = (if pattern = ''this'' then (case project of Some p \<Rightarrow> p | None \<Rightarrow> pattern) else pattern)
      in Inr (fnmatch E resolved (package_name n)))"

definition match_path :: "env \<Rightarrow> string \<Rightarrow> node \<Rightarrow> bool fs_result" where
  "match_path E pattern n =
     (let pattern = clean_path E pattern;
          node_path = original_file_path n;
          patch = patch_path n
      in if has_special_chars pattern
         then Inr (list_ex (fnmatch E pattern) (ancestors node_path) \<or>
           (case patch of Some p \<Rightarrow> fnmatch E pattern p | None \<Rightarrow> False))
         else if path_eq node_path pattern \<or> (case patch of Some p \<Rightarrow> path_eq p pattern | None \<Rightarrow> False) then Inr True
         else if path_starts_with node_path pattern then Inr True
         else Inr False)"

definition match_result :: "string \<Rightarrow> node \<Rightarrow> artifacts option \<Rightarrow> bool fs_result" where
  "match_result pattern n previous_state =
     (case previous_state of
        Some prev \<Rightarrow>
          (case run_results prev of
             Some results \<Rightarrow> Inr (list_ex (\<lambda>(uid, status). uid = unique_id n \<and> status = pattern) results)
           | None \<Rightarrow> Inr False)
      | None \<Rightarrow> Inr False)"

text \<open>The shape shared by exposures, functions, metrics, saved queries, semantic models and unit tests.\<close>

definition match_typed_name :: "NodeType \<Rightarrow> string \<Rightarrow> env \<Rightarrow> string \<Rightarrow> node \<Rightarrow> bool fs_result" where
  "match_typed_name ty msg E pattern n =
     (if resource_type n \<noteq> ty then Inr False
      else (let parts = split_on (CHR ''.'') pattern;
                target_package = (if length parts = 2 then parts ! 0 else ''*'');
                target_name = (if length parts = 2 then parts ! 1 else parts ! 0)
            in if 2 < length parts then selector_error msg
               else Inr (fnmatch E target_package (package_name n) \<and> fnmatch E target_name (name n))))"

definition match_exposure :: "env \<Rightarrow> string \<Rightarrow> node \<Rightarrow> bool fs_result" where
  "match_exposure = match_typed_name ExposureNode
     (''Invalid exposure selector value. Exposures must be of the form ${exposure_name} or '' @
      ''${exposure_package}.${exposure_name}'')"

definition match_function :: "env \<Rightarrow> string \<Rightarrow> node \<Rightarrow> bool fs_result" where
  "match_function = match_typed_name FunctionNode
     (''Invalid function selector value. Functions must be of the form ${function_name} or '' @
      ''${function_package}.${function_name}'')"

definition match_metric :: "env \<Rightarrow> string \<Rightarrow> node \<Rightarrow> bool fs_result" where
  "match_metric = match_typed_name MetricNode
     (''Invalid metric selector value. Metrics must be of the form ${metric_name} or '' @
      ''${metric_package}.${metric_name}'')"

definition match_saved_query :: "env \<Rightarrow> string \<Rightarrow> node \<Rightarrow> bool fs_result" where
  "match_saved_query = match_typed_name SavedQueryNode
     (''Invalid saved query selector value. Saved queries must be of the form ${saved_query_name} or '' @
      ''${saved_query_package}.${saved_query_name}'')"

definition match_semantic_model :: "env \<Rightarrow> string \<Rightarrow> node \<Rightarrow> bool fs_result" where
  "match_semantic_model = match_typed_name SemanticModelNode
     (''Invalid semantic model selector value. Semantic models must be of the form ${semantic_model_name} or '' @
      ''${semantic_model_package}.${semantic_model_name}'')"

definition match_unit_test :: "env \<Rightarrow> string \<Rightarrow> node \<Rightarrow> bool fs_result" where
  "match_unit_test = match_typed_name UnitTestNode
     (''Invalid unit test selector value. Unit tests must be of the form ${unit_test_name} or '' @
      ''${unit_test_package_name}.${unit_test_name}'')"

definition match_test_name :: "env \<Rightarrow> string \<Rightarrow> node \<Rightarrow> bool fs_result" where
  "match_test_name E pattern n =
     (if resource_type n = TestNode
      then (case test_metadata_name n of
              Some m \<Rightarrow> Inr (fnmatch E pattern m) | None \<Rightarrow> Inr (fnmatch E pattern (name n)))
      else if resource_type n = UnitTestNode then Inr (fnmatch E pattern (name n))
      else Inr False)"

definition show_bool :: "bool \<Rightarrow> string" where
  "show_bool b = (if b then ''true'' else ''false'')"

fun match_element :: "env \<Rightarrow> string \<Rightarrow> yaml \<Rightarrow> bool" where
  "match_element E pattern (YString s) = fnmatch E pattern s"
| "match_element E pattern (YTimestamp t) = fnmatch E pattern t"
| "match_element E pattern _ = False"

fun match_config_recursive :: "env \<Rightarrow> string \<Rightarrow> string list \<Rightarrow> yaml \<Rightarrow> bool fs_result" where
  "match_config_recursive E pattern [] config = Inr False"
| "match_config_recursive E pattern (key # args) config =
     (case config of
        YMapping cfg_map \<Rightarrow>
          (case map_of cfg_map key of
             Some (YString s) \<Rightarrow> Inr (fnmatch E pattern s)
           | Some (YBool b) \<Rightarrow> Inr (eq_ignore_ascii_case pattern (show_bool b))
           | Some (YTimestamp t) \<Rightarrow> Inr (fnmatch E pattern t)
           | Some (YNumber n) \<Rightarrow> Inr (n = pattern)
           | Some (YSequence arr) \<Rightarrow> Inr (list_ex (match_element E pattern) arr)
           | Some (YMapping m) \<Rightarrow> match_config_recursive E pattern args (YMapping m)
           | Some YOther \<Rightarrow> Inr False
           | None \<Rightarrow> Inr False)
      | _ \<Rightarrow> Inl (Panic ''called `Result::unwrap()` on an `Err` value''))"

definition match_config :: "env \<Rightarrow> string \<Rightarrow> string list \<Rightarrow> yaml \<Rightarrow> bool fs_result" where
  "match_config E pattern args config =
     (if args = []
      then (case split_once (CHR '':'') pattern of
              Some (key, value) \<Rightarrow> match_config_recursive E value [key] config
            | None \<Rightarrow> match_config_recursive E pattern args config)
      else match_config_recursive E pattern args config)"

definition match_access :: "string \<Rightarrow> Access option \<Rightarrow> bool fs_result" where
  "match_access pattern a = Inr (map_option show_access a = Some pattern)"

definition match_group :: "string \<Rightarrow> string option \<Rightarrow> bool fs_result" where
  "match_group pattern g = Inr (g = Some pattern)"

definition match_tag :: "env \<Rightarrow> string \<Rightarrow> string list \<Rightarrow> bool fs_result" where
  "match_tag E pattern ts = Inr (list_ex (fnmatch E pattern) ts)"

definition match_source_status :: "string \<Rightarrow> node \<Rightarrow> artifacts option \<Rightarrow> bool fs_result" where
  "match_source_status pattern n previous_state =
     (if resource_type n \<noteq> SourceNode then Inr False
      else (case previous_state of
              None \<Rightarrow> Inr False
            | Some prev \<Rightarrow>
              (case source_freshness_results prev of
                 None \<Rightarrow> Inr False
               | Some prev_results \<Rightarrow>
                 if to_ascii_lowercase pattern \<noteq> ''fresher'' then Inr False
                 else (case map_of prev_results (unique_id n) of
                         None \<Rightarrow> Inr False
                       | Some prev_loaded \<Rightarrow>
                         if target_path prev = None
                         then selector_error (''source_status:fresher selector requires target directory path '' @
                           ''to be available. This is an internal error.'')
                         else rmap (\<lambda>current. case map_of current (unique_id n) of
                             None \<Rightarrow> False | Some cur_loaded \<Rightarrow> prev_loaded < cur_loaded) (current_sources prev)))))"

definition predicate_include_identifier_node ::
    "env \<Rightarrow> SelectionCriteria \<Rightarrow> node \<Rightarrow> artifacts option \<Rightarrow> string option \<Rightarrow> bool fs_result" where
  "predicate_include_identifier_node E criteria n previous_state project =
     (let method = sel_method criteria in
      rbind (value_resolve (sel_value criteria) method) (\<lambda>pattern.
        case method of
          Source \<Rightarrow> match_source E pattern n
        | ResourceType \<Rightarrow> match_resource_type pattern n
        | TestType \<Rightarrow> match_test_type pattern n
        | Version \<Rightarrow> match_version pattern n
        | State \<Rightarrow> match_state pattern n previous_state
        | Fqn \<Rightarrow> match_fqn E pattern n
        | Column \<Rightarrow> match_column E pattern n
        | File \<Rightarrow> match_file E pattern n
        | Package \<Rightarrow> match_package E pattern n project
        | Path \<Rightarrow> match_path E pattern n
        | Result \<Rightarrow> match_result pattern n previous_state
        | Exposure \<Rightarrow> match_exposure E pattern n
        | Function \<Rightarrow> match_function E pattern n
        | Metric \<Rightarrow> match_metric E pattern n
        | SavedQuery \<Rightarrow> match_saved_query E pattern n
        | SemanticModel \<Rightarrow> match_semantic_model E pattern n
        | TestName \<Rightarrow> match_test_name E pattern n
        | UnitTest \<Rightarrow> match_unit_test E pattern n
        | Config \<Rightarrow> match_config E pattern (sel_args criteria) (serialized_config n)
        | MethodName.Access \<Rightarrow> match_access pattern (access n)
        | Group \<Rightarrow> match_group pattern (group n)
        | Tag \<Rightarrow> match_tag E pattern (tags n)
        | SourceStatus \<Rightarrow> match_source_status pattern n previous_state
        | Selector \<Rightarrow> selector_error
            ''selector: method cannot be evaluated per-node; it requires graph context''))"

section \<open>Filtering\<close>

fun select_expression_include_node ::
    "env \<Rightarrow> SelectExpression \<Rightarrow> node \<Rightarrow> artifacts option \<Rightarrow> string option \<Rightarrow> bool fs_result" where
  "select_expression_include_node E (And es) n ps project =
     rmap (list_all id) (collect_results (\<lambda>e. select_expression_include_node E e n ps project) es)"
| "select_expression_include_node E (Or es) n ps project =
     rmap (list_ex id) (collect_results (\<lambda>e. select_expression_include_node E e n ps project) es)"
| "select_expression_include_node E (Atom c) n ps project = predicate_include_identifier_node E c n ps project"
| "select_expression_include_node E (Exclude e) n ps project =
     rmap Not (select_expression_include_node E e n ps project)"

text \<open>The ids of the nodes a fallible predicate accepts, the first failure in iteration order winning.\<close>

fun filter_nodes :: "(node \<Rightarrow> bool fs_result) \<Rightarrow> (string \<times> node) list \<Rightarrow> string bset \<Rightarrow> string bset fs_result" where
  "filter_nodes P [] acc = Inr acc"
| "filter_nodes P ((_, n) # rest) acc =
     rbind (P n) (\<lambda>b. filter_nodes P rest (if b then bs_insert (unique_id n) acc else acc))"

definition filter_select :: "env \<Rightarrow> nodes \<Rightarrow> SelectExpression \<Rightarrow> artifacts option \<Rightarrow> string bset fs_result" where
  "filter_select E ns e ps =
     filter_nodes (\<lambda>n. select_expression_include_node E e n ps (project_name ns)) (iter ns) []"

definition filter_select_criteria ::
    "env \<Rightarrow> nodes \<Rightarrow> SelectionCriteria \<Rightarrow> artifacts option \<Rightarrow> string bset fs_result" where
  "filter_select_criteria E ns c ps =
     filter_nodes (\<lambda>n. predicate_include_identifier_node E c n ps (project_name ns)) (iter ns) []"

definition filter_select_criteria_with_state_selector_results ::
    "env \<Rightarrow> nodes \<Rightarrow> SelectionCriteria \<Rightarrow> artifacts option \<Rightarrow> state_selector_results option \<Rightarrow>
     string bset fs_result" where
  "filter_select_criteria_with_state_selector_results E ns c ps results =
     (if sel_method c = State
      then rmap (filter (\<lambda>uid. \<not> has_key (experimentals ns) uid))
        (case (case results of
                 Some rs \<Rightarrow> (case value_as_str (sel_value c) of Some v \<Rightarrow> map_of rs v | None \<Rightarrow> None)
               | None \<Rightarrow> None) of
           Some selected \<Rightarrow> Inr selected
         | None \<Rightarrow>
             if ps = None then selector_error ''Got a state selector method, but no comparison manifest''
             else filter_select_criteria E ns c ps)
      else filter_select_criteria E ns c ps)"

section \<open>Columns\<close>

record SelectionType =
  prefix_depth :: nat
  suffix_depth :: nat

definition sel_join :: "SelectionType \<Rightarrow> SelectionType \<Rightarrow> SelectionType" where
  "sel_join a b = \<lparr>prefix_depth = max (prefix_depth a) (prefix_depth b),
                   suffix_depth = max (suffix_depth a) (suffix_depth b)\<rparr>"

definition sel_meet :: "SelectionType \<Rightarrow> SelectionType \<Rightarrow> SelectionType" where
  "sel_meet a b = \<lparr>prefix_depth = min (prefix_depth a) (prefix_depth b),
                   suffix_depth = min (suffix_depth a) (suffix_depth b)\<rparr>"

definition show_selection_type :: "SelectionType \<Rightarrow> string" where
  "show_selection_type s = ''['' @ show_nat (prefix_depth s) @ '','' @ show_nat (suffix_depth s) @ '']''"

text \<open>\<^verbatim>\<open>ColId\<close>: the unique id of a table and a column, ordered in that order.\<close>

type_synonym col_id = "string \<times> string"
type_synonym column_selection = "(col_id, SelectionType) bmap"

definition union_maps :: "column_selection \<Rightarrow> column_selection \<Rightarrow> column_selection" where
  "union_maps m1 m2 =
     fold (\<lambda>(k, v) m. bm_insert k (case map_of m k of Some existing \<Rightarrow> sel_join existing v | None \<Rightarrow> v) m) m2 m1"

definition intersect_maps :: "column_selection \<Rightarrow> column_selection \<Rightarrow> column_selection" where
  "intersect_maps m1 m2 =
     fold (\<lambda>(k, v1) r. case map_of m2 k of Some v2 \<Rightarrow> bm_insert k (sel_meet v1 v2) r | None \<Rightarrow> r) m1 []"

definition create_selection_type :: "SelectionCriteria \<Rightarrow> SelectionType" where
  "create_selection_type c =
     (case (sel_parents_depth c, sel_children_depth c) of
        (Some p, Some d) \<Rightarrow> \<lparr>prefix_depth = p, suffix_depth = d\<rparr>
      | (Some p, None) \<Rightarrow> \<lparr>prefix_depth = p, suffix_depth = 0\<rparr>
      | (None, Some d) \<Rightarrow> \<lparr>prefix_depth = 0, suffix_depth = d\<rparr>
      | (None, None) \<Rightarrow> \<lparr>prefix_depth = 0, suffix_depth = 0\<rparr>)"

definition extract_column_name :: "string \<Rightarrow> string" where
  "extract_column_name identifier =
     (case rsplit_once (CHR ''.'') identifier of Some (_, c) \<Rightarrow> c | None \<Rightarrow> identifier)"

fun include_columns ::
    "env \<Rightarrow> string \<Rightarrow> string \<Rightarrow> SelectionType \<Rightarrow> string list \<Rightarrow> column_selection \<Rightarrow> column_selection fs_result" where
  "include_columns E uid pat t [] m = Inr m"
| "include_columns E uid pat t (col # cols) m =
     (if fnmatch E pat col
      then (case parse_identifier E col of
              Some c \<Rightarrow> include_columns E uid pat t cols (bm_insert (uid, c) t m)
            | None \<Rightarrow> Inl (Panic ''called `Result::unwrap()` on an `Err` value''))
      else include_columns E uid pat t cols m)"

definition predicate_include_node_column :: "env \<Rightarrow> SelectionCriteria \<Rightarrow> node \<Rightarrow> column_selection fs_result" where
  "predicate_include_node_column E c n =
     (if sel_method c = Column
      then (case value_as_str (sel_value c) of
              None \<Rightarrow> Inr []
            | Some value \<Rightarrow>
                let (table_pat, col_pat) =
                      (case rsplit_once (CHR ''.'') value of Some (t, c) \<Rightarrow> (t, c) | None \<Rightarrow> ([], value))
                in if table_pat = [] \<or> fnmatch E table_pat (unique_id n)
                   then include_columns E (unique_id n) (extract_column_name col_pat)
                          (create_selection_type c) (column_names n) []
                   else Inr [])
      else Inr [])"

text \<open>The results of the parts of an expression, combined in order; the first panic wins.\<close>

fun combine_maps ::
    "(column_selection \<Rightarrow> column_selection \<Rightarrow> column_selection) \<Rightarrow> column_selection \<Rightarrow>
     column_selection fs_result list \<Rightarrow> column_selection fs_result" where
  "combine_maps f acc [] = Inr acc"
| "combine_maps f acc (r # rs) = rbind r (\<lambda>m. combine_maps f (f acc m) rs)"

fun select_expression_include_node_column ::
    "env \<Rightarrow> SelectExpression \<Rightarrow> node \<Rightarrow> column_selection fs_result" where
  "select_expression_include_node_column E (Atom c) n = predicate_include_node_column E c n"
| "select_expression_include_node_column E (And es) n =
     (case map (\<lambda>e. select_expression_include_node_column E e n) es of
        [] \<Rightarrow> Inr []
      | r # rs \<Rightarrow> rbind r (\<lambda>acc. combine_maps intersect_maps acc rs))"
| "select_expression_include_node_column E (Or es) n =
     combine_maps union_maps [] (map (\<lambda>e. select_expression_include_node_column E e n) es)"
| "select_expression_include_node_column E (Exclude e) n = Inr []"

definition filter_select_column :: "env \<Rightarrow> nodes \<Rightarrow> SelectExpression \<Rightarrow> column_selection fs_result" where
  "filter_select_column E ns select =
     combine_maps union_maps []
       (map (\<lambda>(_, n). select_expression_include_node_column E select n)
         (filter (\<lambda>(uid, _). \<not> starts_with uid ''test.'') (iter ns)))"

end
