(* ===== verification/Node_Match_Contract.thy ===== *)
theory Node_Match_Contract imports Node_Match begin

text \<open>
  What node matching in \<^verbatim>\<open>crates/dbt-scheduler/src/node_selector.rs\<close> promises: filtering returns exactly
  the accepted nodes, an expression filters as the corresponding set operations, names and paths
  match by whole components, and column selections combine as a lattice.
\<close>

text \<open>An expression can be evaluated at a node.\<close>

definition evaluable :: "env \<Rightarrow> nodes \<Rightarrow> artifacts option \<Rightarrow> SelectExpression \<Rightarrow> bool" where
  "evaluable E ns ps e \<longleftrightarrow>
     (\<forall>(k, n) \<in> set (iter ns). is_ok (select_expression_include_node E e n ps (project_name ns)))"

section \<open>A small project\<close>

definition no_globs :: env where
  "no_globs = \<lparr>glob_new = (\<lambda>_. None), clean_path = id, parse_identifier = Some\<rparr>"

definition sample_node :: "string \<Rightarrow> string \<Rightarrow> node" where
  "sample_node uid nm = \<lparr>unique_id = uid, name = nm, package_name = ''shop'', fqn = [''shop'', nm],
     resource_type = Model, experimental_type = None, original_name = None, is_versioned = False,
     version = None, latest_version = None, original_file_path = ''models/'' @ nm, patch_path = None,
     source_name = [], test_metadata_name = None, tags = [], access = None, group = None,
     serialized_config = YMapping [], depends_on = [], ref_locations = [], materialized = MatTable,
     compute = None, enabled = True, is_extended_model = False, checksum = ChecksumString [], relation_name = None,
     column_names = [], introspection = IntroNone, tested_node_unique_id = None, continues_on_error = False\<rparr>"

definition sample_nodes :: nodes where
  "sample_nodes = empty_nodes \<lparr>models := [(''m.a'', sample_node ''m.a'' ''a''), (''m.b'', sample_node ''m.b'' ''b'')]\<rparr>"

lemma iter_sample: "iter sample_nodes = [(''m.a'', sample_node ''m.a'' ''a''), (''m.b'', sample_node ''m.b'' ''b'')]"
  by (simp add: iter_def sample_nodes_def empty_nodes_def)

lemma sample_nodes_wf: "nodes_wf sample_nodes"
  by (simp add: nodes_wf_def iter_sample) (simp add: sample_node_def)

definition resource_is :: "string \<Rightarrow> SelectExpression" where
  "resource_is t = Atom (Criteria ResourceType [] (Scalar t) False None None None None)"

lemma resource_is_eval:
  "select_expression_include_node E (resource_is t) n ps p = match_resource_type t n"
  by (simp add: resource_is_def predicate_include_identifier_node_def value_resolve_def)

lemma resource_is_evaluable [simp]: "evaluable E ns ps (resource_is t)"
  by (auto simp: evaluable_def resource_is_eval match_resource_type_def)

section \<open>Filtering\<close>

lemma filter_nodes_Inr:
  assumes "bset_wf acc" and "filter_nodes P ns acc = Inr S"
  shows "bset_wf S \<and> set S = set acc \<union> {unique_id n |k n. (k, n) \<in> set ns \<and> P n = Inr True} \<and>
    (\<forall>(k, n) \<in> set ns. is_ok (P n))"
  using assms
proof (induction ns arbitrary: acc)
  case (Cons kn ns)
  obtain k n where kn: "kn = (k, n)" by fastforce
  obtain b where b: "P n = Inr b" using Cons.prems(2) kn by (cases "P n") auto
  show ?case using Cons.IH [of "if b then bs_insert (unique_id n) acc else acc"] Cons.prems kn b by (cases b) auto
qed simp

lemma filter_nodes_ok:
  "(\<forall>(k, n) \<in> set ns. is_ok (P n)) \<Longrightarrow> \<exists>S. filter_nodes P ns acc = Inr S"
proof (induction ns arbitrary: acc)
  case (Cons kn ns)
  obtain k n where kn: "kn = (k, n)" by fastforce
  obtain b where b: "P n = Inr b" using Cons.prems kn by (cases "P n") auto
  show ?case using Cons.IH Cons.prems kn b by auto
qed simp

lemma filter_select_iff:
  assumes "filter_select E ns e ps = Inr S"
  shows "set S = {unique_id n |k n. (k, n) \<in> set (iter ns) \<and>
      select_expression_include_node E e n ps (project_name ns) = Inr True}"
  using filter_nodes_Inr [OF _ assms [unfolded filter_select_def]] by (simp add: bset_wf_def)

text \<open>Filtering a project by an expression fails exactly when the expression cannot be evaluated at
  some node; otherwise the result is ordered and holds exactly the ids of the nodes at which the
  expression is true.\<close>

theorem filter_select_correct:
  "(is_ok (filter_select E ns e ps) \<longleftrightarrow> evaluable E ns ps e) \<and>
   (\<forall>S. filter_select E ns e ps = Inr S \<longrightarrow> bset_wf S \<and>
     set S = {unique_id n |k n. (k, n) \<in> set (iter ns) \<and>
       select_expression_include_node E e n ps (project_name ns) = Inr True})"
proof -
  let ?P = "\<lambda>n. select_expression_include_node E e n ps (project_name ns)"
  have "is_ok (filter_select E ns e ps) \<Longrightarrow> evaluable E ns ps e"
    using filter_nodes_Inr [of "[]" ?P "iter ns"]
    by (cases "filter_select E ns e ps") (auto simp: filter_select_def evaluable_def bset_wf_def)
  moreover have "evaluable E ns ps e \<Longrightarrow> is_ok (filter_select E ns e ps)"
    using filter_nodes_ok [of "iter ns" ?P "[]"] by (auto simp: filter_select_def evaluable_def)
  moreover have "bset_wf S" if "filter_select E ns e ps = Inr S" for S
    using filter_nodes_Inr [of "[]" ?P "iter ns" S] that by (simp add: filter_select_def bset_wf_def)
  ultimately show ?thesis using filter_select_iff by blast
qed

theorem filter_select_witness:
  "\<exists>S. filter_select no_globs sample_nodes (resource_is ''model'') None = Inr S \<and> ''m.a'' \<in> set S"
proof -
  note f = filter_select_correct [of no_globs sample_nodes "resource_is ''model''" None]
  from f obtain S where S: "filter_select no_globs sample_nodes (resource_is ''model'') None = Inr S"
    by (cases "filter_select no_globs sample_nodes (resource_is ''model'') None") simp_all
  from f [THEN conjunct2, THEN spec, THEN mp, OF S, THEN conjunct2]
  have "set S = {unique_id n |k n. (k, n) \<in> set (iter sample_nodes) \<and>
      select_expression_include_node no_globs (resource_is ''model'') n None (project_name sample_nodes) = Inr True}" .
  moreover have "(''m.a'', sample_node ''m.a'' ''a'') \<in> set (iter sample_nodes)" by (simp add: iter_sample)
  moreover have "unique_id (sample_node ''m.a'' ''a'') = ''m.a''"
    "match_resource_type ''model'' (sample_node ''m.a'' ''a'') = Inr True"
    by (simp_all add: match_resource_type_def sample_node_def)
  ultimately have "''m.a'' \<in> set S" unfolding resource_is_eval by force
  with S show ?thesis by blast
qed

text \<open>The ids an expression selects, as a set.\<close>

definition selected :: "env \<Rightarrow> nodes \<Rightarrow> artifacts option \<Rightarrow> SelectExpression \<Rightarrow> string set" where
  "selected E ns ps e = (case filter_select E ns e ps of Inl _ \<Rightarrow> {} | Inr S \<Rightarrow> set S)"

definition holds_at :: "env \<Rightarrow> nodes \<Rightarrow> artifacts option \<Rightarrow> SelectExpression \<Rightarrow> node \<Rightarrow> bool" where
  "holds_at E ns ps e n \<longleftrightarrow> select_expression_include_node E e n ps (project_name ns) = Inr True"

lemma selected_iff:
  assumes "nodes_wf ns" and "evaluable E ns ps e"
  shows "u \<in> selected E ns ps e \<longleftrightarrow> (\<exists>n. get_node ns u = Some n \<and> holds_at E ns ps e n)"
proof -
  obtain S where S: "filter_select E ns e ps = Inr S"
    using assms(2) filter_nodes_ok by (fastforce simp: evaluable_def filter_select_def)
  have "set S = {unique_id n |k n. (k, n) \<in> set (iter ns) \<and> holds_at E ns ps e n}"
    using filter_select_iff [OF S] by (simp add: holds_at_def)
  also have "\<dots> = {k. \<exists>n. (k, n) \<in> set (iter ns) \<and> holds_at E ns ps e n}"
    using assms(1) by (force simp: nodes_wf_def)
  finally show ?thesis using S iter_get_node [OF assms(1)] by (simp add: selected_def)
qed

lemma evaluable_at:
  assumes "evaluable E ns ps e" and "(k, n) \<in> set (iter ns)"
  shows "select_expression_include_node E e n ps (project_name ns) = Inr (holds_at E ns ps e n)"
proof -
  have "is_ok (select_expression_include_node E e n ps (project_name ns))"
    using assms by (auto simp: evaluable_def)
  then show ?thesis
    by (cases "select_expression_include_node E e n ps (project_name ns)") (auto simp: holds_at_def)
qed

lemma evaluable_parts:
  "\<forall>e \<in> set es. evaluable E ns ps e \<Longrightarrow> (k, n) \<in> set (iter ns) \<Longrightarrow>
   collect_results (\<lambda>e. select_expression_include_node E e n ps (project_name ns)) es =
     Inr (map (\<lambda>e. holds_at E ns ps e n) es)"
  by (rule collect_results_map) (simp add: evaluable_at)

lemma node_in_iter: "nodes_wf ns \<Longrightarrow> get_node ns u = Some n \<Longrightarrow> (u, n) \<in> set (iter ns)"
  by (simp add: iter_get_node)

text \<open>C15 On expressions that can be evaluated, And selects the intersection of what its parts select, Or
  the union and Exclude the complement, among the nodes of the project, and they can be evaluated.\<close>

theorem filter_select_boolean:
  assumes "nodes_wf ns" and "\<forall>e \<in> set es. evaluable E ns ps e"
  shows "evaluable E ns ps (And es) \<and>
      selected E ns ps (And es) = {u. contains ns u \<and> (\<forall>e \<in> set es. u \<in> selected E ns ps e)} \<and>
    evaluable E ns ps (Or es) \<and> selected E ns ps (Or es) = (\<Union>e \<in> set es. selected E ns ps e) \<and>
    (\<forall>e \<in> set es. evaluable E ns ps (Exclude e) \<and>
      selected E ns ps (Exclude e) = {u. contains ns u \<and> u \<notin> selected E ns ps e})"
proof -
  note parts = evaluable_parts [OF assms(2)]
  have iff: "u \<in> selected E ns ps e \<longleftrightarrow> (\<exists>n. get_node ns u = Some n \<and> holds_at E ns ps e n)"
    if "e \<in> set es" for e u using selected_iff [OF assms(1)] assms(2) that by blast
  have eA: "evaluable E ns ps (And es)" and eO: "evaluable E ns ps (Or es)"
    using parts by (auto simp: evaluable_def)
  have sA: "u \<in> selected E ns ps (And es) \<longleftrightarrow> contains ns u \<and> (\<forall>e \<in> set es. u \<in> selected E ns ps e)" for u
    using selected_iff [OF assms(1) eA, of u] parts [OF node_in_iter [OF assms(1)], of u]
    by (cases "get_node ns u") (auto simp: contains_iff_get_node iff holds_at_def [of E ns ps "And es"] list_all_iff)
  have sO: "u \<in> selected E ns ps (Or es) \<longleftrightarrow> (\<exists>e \<in> set es. u \<in> selected E ns ps e)" for u
    using selected_iff [OF assms(1) eO, of u] parts [OF node_in_iter [OF assms(1)], of u]
    by (cases "get_node ns u") (auto simp: iff holds_at_def [of E ns ps "Or es"] list_ex_iff)
  have sX: "evaluable E ns ps (Exclude e) \<and>
      selected E ns ps (Exclude e) = {u. contains ns u \<and> u \<notin> selected E ns ps e}" if e: "e \<in> set es" for e
  proof -
    have one: "select_expression_include_node E e n ps (project_name ns) = Inr (holds_at E ns ps e n)"
      if "(k, n) \<in> set (iter ns)" for k n
      using evaluable_at that e assms(2) by blast
    then have eX: "evaluable E ns ps (Exclude e)" by (auto simp: evaluable_def)
    have "holds_at E ns ps (Exclude e) n \<longleftrightarrow> \<not> holds_at E ns ps e n" if "get_node ns u = Some n" for u n
      using one [OF node_in_iter [OF assms(1) that]] by (simp add: holds_at_def [of E ns ps "Exclude e"])
    then have "u \<in> selected E ns ps (Exclude e) \<longleftrightarrow> contains ns u \<and> u \<notin> selected E ns ps e" for u
      unfolding selected_iff [OF assms(1) eX] iff [OF e] contains_iff_get_node by (cases "get_node ns u") auto
    with eX show ?thesis by blast
  qed
  have "selected E ns ps (And es) = {u. contains ns u \<and> (\<forall>e \<in> set es. u \<in> selected E ns ps e)}"
    using sA by (intro set_eqI) simp
  moreover have "selected E ns ps (Or es) = (\<Union>e \<in> set es. selected E ns ps e)"
    using sO by (intro set_eqI) simp
  ultimately show ?thesis using eA eO sX by (intro conjI ballI) simp_all
qed

theorem filter_select_boolean_witness:
  "selected no_globs sample_nodes None (Or [resource_is ''model'', resource_is ''seed'']) =
   selected no_globs sample_nodes None (resource_is ''model'') \<union> selected no_globs sample_nodes None (resource_is ''seed'')"
  using filter_select_boolean [OF sample_nodes_wf, of "[resource_is ''model'', resource_is ''seed'']" no_globs None]
  by simp

section \<open>Names\<close>

lemma take_prefix: "take (length xs) ys = xs \<longleftrightarrow> (\<exists>zs. ys = xs @ zs)"
  by (metis append_eq_conv_conj)

lemma no_special_parts:
  assumes "\<not> has_special_chars s"
  shows "takeWhile (\<lambda>p. \<not> has_special_chars p) (split_on c s) = split_on c s"
proof -
  have "\<not> has_special_chars p" if "p \<in> set (split_on c s)" for p
    using assms split_on_subset [OF that] by (auto simp: has_special_chars_def list_ex_iff)
  then show ?thesis by simp
qed

text \<open>The segments of a name, with the dots inside folder names also separating.\<close>

definition flat_name :: "string list \<Rightarrow> string list" where
  "flat_name fq = concat (map (split_on (CHR ''.'')) fq)"

lemma is_selected_plain:
  assumes "\<not> has_special_chars selector"
  shows "is_selected_node E fq selector False \<longleftrightarrow>
    fq \<noteq> [] \<and> (last fq = selector \<or> (\<exists>zs. flat_name fq = split_on (CHR ''.'') selector @ zs))"
  unfolding is_selected_node_def Let_def no_special_parts [OF assms] flat_name_def [symmetric]
  using assms by (auto simp: take_prefix [symmetric] list_ex_iff has_special_chars_def)

text \<open>A selector without wildcards matches an unversioned node exactly when it is the last segment of
  the node's name or its segments start the name, with or without the package; it never matches part
  of a segment.\<close>

theorem node_is_match_segments:
  assumes "\<not> has_special_chars selector"
  shows "node_is_match E selector fq False \<longleftrightarrow>
    fq \<noteq> [] \<and> (last fq = selector \<or>
      (\<exists>zs. flat_name fq = split_on (CHR ''.'') selector @ zs) \<or>
      (1 < length fq \<and> (\<exists>zs. flat_name (tl fq) = split_on (CHR ''.'') selector @ zs)))"
  unfolding node_is_match_def is_selected_plain [OF assms] by (cases fq) (auto simp: last_tl)

theorem node_is_match_witness:
  "node_is_match no_globs ''staging.orders'' [''shop'', ''staging'', ''orders''] False \<and>
   \<not> node_is_match no_globs ''stag'' [''shop'', ''staging'', ''orders''] False"
  using node_is_match_segments [of "''staging.orders''" no_globs "[''shop'', ''staging'', ''orders'']"]
    node_is_match_segments [of "''stag''" no_globs "[''shop'', ''staging'', ''orders'']"]
  by (simp add: has_special_chars_def is_special_char_def flat_name_def)

section \<open>Paths\<close>

lemma trim_rev_length: "length (trim_rev s) \<le> length s"
  by (induction s rule: trim_rev.induct) auto

lemma trim_path_length: "length (trim_path s) \<le> length s"
  using trim_rev_length [of "rev s"] by (simp add: trim_path_def)

lemma trim_rev_single: "trim_rev s \<noteq> CHR ''/'' # c # r"
  by (induction s rule: trim_rev.induct) auto

text \<open>The parent of a path is shorter than the path, so the fuel of \<open>ancestors\<close> is enough.\<close>

lemma path_parent_shorter:
  assumes "path_parent s = Some p"
  shows "length p < length s"
proof -
  define t where "t = trim_path s"
  have t: "t \<noteq> []" "t \<noteq> ''/''" and p: "p = trim_path (rev (dropWhile (\<lambda>c. c \<noteq> CHR ''/'') (rev t)))"
    using assms by (auto simp: path_parent_def Let_def t_def split: if_splits)
  obtain c r where cr: "rev t = c # r" using t(1) by (cases "rev t") auto
  then have lt: "length t = Suc (length r)" by (metis length_Cons length_rev)
  have "length p < length t"
  proof (cases "c = CHR ''/''")
    case False
    have "length (dropWhile (\<lambda>c. c \<noteq> CHR ''/'') r) \<le> length r" by (rule length_dropWhile_le)
    then have "length (dropWhile (\<lambda>c. c \<noteq> CHR ''/'') (rev t)) < length t"
      using False lt by (simp add: cr)
    then show ?thesis using trim_path_length [of "rev (dropWhile (\<lambda>c. c \<noteq> CHR ''/'') (rev t))"] p by simp
  next
    case True
    have "rev t = trim_rev (rev s)" by (simp add: t_def trim_path_def)
    then have "r = []" using True cr trim_rev_single [of "rev s" "hd r" "tl r"] by (cases r) auto
    then have "t = ''/''" using True cr by (metis rev_rev_ident rev_singleton_conv)
    then show ?thesis using t by simp
  qed
  also have "length t \<le> length s" using trim_path_length by (simp add: t_def)
  finally show ?thesis .
qed

lemma ancestors_enough:
  assumes "length s \<le> n"
  shows "ancestors_of n s = ancestors s"
proof -
  have eq: "length s \<le> m \<Longrightarrow> length s \<le> n \<Longrightarrow> ancestors_of m s = ancestors_of n s" for m n s
  proof (induction m arbitrary: s n)
    case 0
    then have "s = []" by simp
    then show ?case by (cases n) (auto simp: path_parent_def trim_path_def)
  next
    case (Suc m)
    show ?case
    proof (cases "path_parent s")
      case None
      then show ?thesis
        using Suc.prems by (cases n) (auto simp: path_parent_def trim_path_def split: if_splits)
    next
      case (Some p)
      then have "length p < length s" by (rule path_parent_shorter)
      then obtain k where "n = Suc k" using Suc.prems by (cases n) auto
      then show ?thesis using Suc.IH [of p k] Suc.prems Some \<open>length p < length s\<close> by simp
    qed
  qed
  show ?thesis unfolding ancestors_def by (rule eq [OF assms]) simp
qed

text \<open>A path selector without wildcards selects a node exactly when its components start those of the
  node's file, so a directory never selects one whose name merely starts the same, or when it is
  the patch file itself.\<close>

theorem match_path_components:
  assumes "\<not> has_special_chars (clean_path E pattern)"
    and "is_rooted (original_file_path n) = is_rooted (clean_path E pattern)"
  shows "match_path E pattern n =
    Inr ((\<exists>rest. components (original_file_path n) = components (clean_path E pattern) @ rest) \<or>
      (\<exists>q. patch_path n = Some q \<and> path_eq q (clean_path E pattern)))"
  using assms
  by (auto simp: match_path_def Let_def path_eq_def path_starts_with_def take_prefix split: option.splits)

theorem match_path_witness:
  "match_path no_globs ''models'' (sample_node ''m.a'' ''a'') = Inr True \<and>
   match_path no_globs ''model'' (sample_node ''m.a'' ''a'') = Inr False"
  using match_path_components [of no_globs "''models''" "sample_node ''m.a'' ''a''"]
    match_path_components [of no_globs "''model''" "sample_node ''m.a'' ''a''"]
  by (simp add: no_globs_def sample_node_def has_special_chars_def is_special_char_def is_rooted_def components_def)

section \<open>Columns\<close>

lemma map_of_union_fold:
  "distinct (map fst m2) \<Longrightarrow>
   map_of (union_maps m1 m2) k =
     (case (map_of m1 k, map_of m2 k) of
        (Some a, Some b) \<Rightarrow> Some (sel_join a b) | (Some a, None) \<Rightarrow> Some a | (None, x) \<Rightarrow> x)"
proof (induction m2 arbitrary: m1)
  case (Cons kv m2)
  obtain k' v where kv: "kv = (k', v)" by fastforce
  have "map_of m2 k' = None" using Cons.prems kv by (auto simp: map_of_eq_None_iff)
  then show ?case using Cons kv by (auto simp: union_maps_def split: option.splits)
qed (auto simp: union_maps_def split: option.splits)

lemma map_of_intersect_fold:
  "distinct (map fst m1) \<Longrightarrow>
   map_of (fold (\<lambda>(k, v1) r. case map_of m2 k of Some v2 \<Rightarrow> bm_insert k (sel_meet v1 v2) r | None \<Rightarrow> r) m1 r) k =
     (case (map_of m1 k, map_of m2 k) of (Some a, Some b) \<Rightarrow> Some (sel_meet a b) | _ \<Rightarrow> map_of r k)"
proof (induction m1 arbitrary: r)
  case (Cons kv m1)
  obtain k' v where kv: "kv = (k', v)" by fastforce
  have "map_of m1 k' = None" using Cons.prems kv by (auto simp: map_of_eq_None_iff)
  then show ?case using Cons kv by (auto split: option.splits)
qed (auto split: option.splits)

text \<open>Combining column selections: a column is in the union when it is in either, at the larger depths,
  and in the intersection when it is in both, at the smaller depths.\<close>

theorem column_maps_lattice:
  assumes "bmap_wf m1" and "bmap_wf m2"
  shows "map_of (union_maps m1 m2) k =
      (case (map_of m1 k, map_of m2 k) of
         (Some a, Some b) \<Rightarrow> Some (sel_join a b) | (Some a, None) \<Rightarrow> Some a | (None, x) \<Rightarrow> x) \<and>
    map_of (intersect_maps m1 m2) k =
      (case (map_of m1 k, map_of m2 k) of (Some a, Some b) \<Rightarrow> Some (sel_meet a b) | _ \<Rightarrow> None)"
  using map_of_union_fold [of m2 m1 k] map_of_intersect_fold [of m1 m2 "[]" k] bmap_wf_distinct [OF assms(1)] bmap_wf_distinct [OF assms(2)]
  by (auto simp: intersect_maps_def split: option.splits)

theorem column_maps_witness:
  "map_of (intersect_maps [((''t'', ''c''), \<lparr>prefix_depth = 2, suffix_depth = 0\<rparr>)]
      [((''t'', ''c''), \<lparr>prefix_depth = 1, suffix_depth = 3\<rparr>)]) (''t'', ''c'') =
   Some \<lparr>prefix_depth = 1, suffix_depth = 0\<rparr>"
  using column_maps_lattice [of "[((''t'', ''c''), \<lparr>prefix_depth = 2, suffix_depth = 0\<rparr>)]"
      "[((''t'', ''c''), \<lparr>prefix_depth = 1, suffix_depth = 3\<rparr>)]" "(''t'', ''c'')"]
  by (simp add: bmap_wf_def sel_meet_def)

end
