(* ===== verification/Selection.thy ===== *)
theory Selection imports Dag_Cycles Node_Match begin

text \<open>
  Evaluation of selectors over the dependency graph, from \<^verbatim>\<open>crates/dbt-scheduler/src/schedule.rs\<close>: the
  graph operators, indirect selection of tests, the combination of include and exclude sets and the
  recursive evaluator with its stack of named selectors.
\<close>

section \<open>Graph operators\<close>

text \<open>One layer of \<^verbatim>\<open>multi_source_bfs\<close>: the neighbours of the frontier that are not visited yet.\<close>

definition bfs_layer :: "'a::linorder deps \<Rightarrow> 'a list \<Rightarrow> 'a bset \<Rightarrow> 'a bset \<times> 'a list" where
  "bfs_layer graph frontier visited =
     fold (\<lambda>n (v, next). mark_push (succs graph n) v next) frontier (visited, [])"

text \<open>The hops left are \<^verbatim>\<open>max_depth - depth\<close>.\<close>

fun bfs_loop :: "'a::linorder deps \<Rightarrow> nat \<Rightarrow> 'a list \<Rightarrow> 'a bset \<Rightarrow> 'a bset" where
  "bfs_loop graph hops frontier visited =
     (if frontier = [] \<or> hops = 0 then visited
      else (case bfs_layer graph frontier visited of
              (visited', next) \<Rightarrow> bfs_loop graph (hops - 1) next visited'))"

declare bfs_loop.simps [simp del]

definition multi_source_bfs :: "'a::linorder deps \<Rightarrow> 'a bset \<Rightarrow> nat \<Rightarrow> 'a bset" where
  "multi_source_bfs graph seed_ids max_depth =
     (if max_depth = 0 then seed_ids else bfs_loop graph max_depth seed_ids seed_ids)"

definition selection_children :: "string deps \<Rightarrow> nodes \<Rightarrow> string deps" where
  "selection_children d ns =
     (let children = reverse d in
      if experimentals ns \<noteq> []
      then map (\<lambda>(k, kids). (k, filter (\<lambda>i. \<not> has_key (experimentals ns) i) kids)) children
      else children)"

definition collect_childrens_parents :: "string deps \<Rightarrow> nodes \<Rightarrow> string bset \<Rightarrow> string bset" where
  "collect_childrens_parents d ns chosen =
     (let children = selection_children d ns;
          descendants = multi_source_bfs children chosen u32_max;
          leaf_nodes = filter (\<lambda>n. case map_of children n of None \<Rightarrow> True | Some kids \<Rightarrow> kids = []) descendants
      in multi_source_bfs d leaf_nodes u32_max)"

text \<open>The graph operators of a criterion, as both evaluators apply them.\<close>

definition apply_graph_operators :: "string deps \<Rightarrow> nodes \<Rightarrow> SelectionCriteria \<Rightarrow> string bset \<Rightarrow> string bset" where
  "apply_graph_operators d ns c chosen =
     (if sel_parents_depth c \<noteq> None \<or> sel_children_depth c \<noteq> None
      then (let expanded = chosen;
                expanded = (case sel_parents_depth c of
                  Some depth \<Rightarrow> bs_extend expanded (multi_source_bfs d chosen depth) | None \<Rightarrow> expanded)
            in (case sel_children_depth c of
                  Some depth \<Rightarrow> bs_extend expanded (multi_source_bfs (selection_children d ns) chosen depth)
                | None \<Rightarrow> expanded))
      else if sel_childrens_parents c then collect_childrens_parents d ns chosen
      else chosen)"

section \<open>Indirect selection\<close>

definition unwrap_none :: "'a fs_result" where
  "unwrap_none = Inl (Panic ''called `Option::unwrap()` on a `None` value'')"

definition ref_deps :: "node \<Rightarrow> string bset" where
  "ref_deps n = bs_of_list (map fst (ref_locations n))"

text \<open>The parents that decide whether a test follows its selected parents; \<open>Inr None\<close> for other nodes.\<close>

definition test_parents :: "nodes \<Rightarrow> string \<Rightarrow> string bset option fs_result" where
  "test_parents ns uid =
     (case map_of (unit_tests ns) uid of
        Some unit_test \<Rightarrow>
          (case ref_locations unit_test of
             [] \<Rightarrow> unwrap_none
           | (dep, _) # _ \<Rightarrow> Inr (Some [dep]))
      | None \<Rightarrow>
          (case map_of (tests ns) uid of
             Some test \<Rightarrow> Inr (Some (ref_deps test))
           | None \<Rightarrow> Inr None))"

fun expand_tests ::
    "nodes \<Rightarrow> IndirectSelection \<Rightarrow> string bset \<Rightarrow> string bset \<Rightarrow> string list \<Rightarrow> string bset \<times> string bset \<Rightarrow>
     (string bset \<times> string bset) fs_result" where
  "expand_tests ns mode chosen chosen_and_parents [] acc = Inr acc"
| "expand_tests ns mode chosen chosen_and_parents (uid # uids) (direct, indirect) =
     rbind (test_parents ns uid) (\<lambda>p.
       case p of
         None \<Rightarrow> expand_tests ns mode chosen chosen_and_parents uids (direct, indirect)
       | Some node_deps \<Rightarrow>
           if mode = Empty then expand_tests ns mode chosen chosen_and_parents uids (direct, indirect)
           else if mode = Eager \<or> bs_subset node_deps chosen \<or>
             mode = Buildable \<and> bs_subset node_deps chosen_and_parents
           then expand_tests ns mode chosen chosen_and_parents uids (bs_insert uid direct, indirect)
           else expand_tests ns mode chosen chosen_and_parents uids (direct, bs_insert uid indirect))"

definition expand_selection ::
    "string bset \<Rightarrow> IndirectSelection \<Rightarrow> string deps \<Rightarrow> nodes \<Rightarrow> (string bset \<times> string bset) fs_result" where
  "expand_selection chosen mode d ns =
     (let chosen_and_parents =
            (if mode = Buildable
             then bs_extend (multi_source_bfs d chosen u32_max) (bm_keys (sources ns)) else []);
          rev_deps = reverse d;
          successors = fold (\<lambda>n s. bs_extend s (succs rev_deps n)) chosen []
      in expand_tests ns mode chosen chosen_and_parents successors (chosen, []))"

text \<open>An undecided test is added when its parents are all accounted for.\<close>

definition add_test :: "nodes \<Rightarrow> string bset \<Rightarrow> string \<Rightarrow> string bset \<Rightarrow> string bset" where
  "add_test ns accounted uid chosen =
     (case map_of (tests ns) uid of
        Some n \<Rightarrow> if bs_subset (ref_deps n) accounted then bs_insert uid chosen else chosen
      | None \<Rightarrow> chosen)"

definition incorporate_indirect_nodes ::
    "string bset \<Rightarrow> string bset \<Rightarrow> string deps \<Rightarrow> nodes \<Rightarrow> IndirectSelection \<Rightarrow> string bset" where
  "incorporate_indirect_nodes expanded indirect d ns mode =
     (if expanded = indirect then expanded
      else (case mode of
              Cautious \<Rightarrow> fold (\<lambda>uid chosen. add_test ns chosen uid chosen) indirect expanded
            | Buildable \<Rightarrow>
                (let chosen_and_parents = multi_source_bfs d expanded u32_max
                 in fold (add_test ns chosen_and_parents) indirect expanded)
            | _ \<Rightarrow> expanded))"

section \<open>Include and exclude sets\<close>

record EvalResult =
  ev_include :: "string bset"
  ev_exclude :: "string bset"
  exclude_operand :: bool

definition eval_default :: EvalResult where
  "eval_default = \<lparr>ev_include = [], ev_exclude = [], exclude_operand = False\<rparr>"

definition include_only :: "string bset \<Rightarrow> EvalResult" where
  "include_only s = \<lparr>ev_include = s, ev_exclude = [], exclude_operand = False\<rparr>"

definition into_final :: "EvalResult \<Rightarrow> string bset" where
  "into_final r = bs_diff (ev_include r) (ev_exclude r)"

definition merge_or :: "EvalResult \<Rightarrow> EvalResult \<Rightarrow> EvalResult" where
  "merge_or a b = \<lparr>ev_include = bs_extend (ev_include a) (ev_include b),
     ev_exclude = bs_extend (ev_exclude a) (ev_exclude b), exclude_operand = False\<rparr>"

definition merge_and :: "EvalResult \<Rightarrow> EvalResult \<Rightarrow> EvalResult" where
  "merge_and a b =
     (if ev_include a = [] \<and> ev_include b = [] then eval_default
      else if exclude_operand a \<and> exclude_operand b
      then \<lparr>ev_include = [], ev_exclude = bs_extend (ev_exclude a) (ev_exclude b), exclude_operand = True\<rparr>
      else if exclude_operand a \<and> \<not> exclude_operand b
      then include_only (bs_diff (into_final b) (ev_exclude a))
      else if exclude_operand b \<and> \<not> exclude_operand a
      then include_only (bs_diff (into_final a) (ev_exclude b))
      else \<lparr>ev_include = (if ev_include a \<noteq> [] then bs_inter (ev_include a) (ev_include b) else ev_include a),
             ev_exclude = bs_extend (ev_exclude a) (ev_exclude b), exclude_operand = False\<rparr>)"

section \<open>The evaluator\<close>

text \<open>
  What every evaluation reads: the parameters of matching, the graph, the nodes, the comparison
  manifest, externally computed state selections and the named selectors in the order the hash
  table iterates over them.
\<close>

record context_data =
  ctx_env :: env
  ctx_deps :: "string deps"
  ctx_nodes :: nodes
  ctx_previous :: "artifacts option"
  ctx_results :: "state_selector_results option"
  ctx_selectors :: "(string \<times> SelectExpression) list"

text \<open>Graph operators, then indirect selection: what both evaluators do with the nodes of a criterion.\<close>

definition expand_criterion :: "context_data \<Rightarrow> SelectionCriteria \<Rightarrow> string bset \<Rightarrow> string bset fs_result" where
  "expand_criterion X c chosen =
     (let chosen = apply_graph_operators (ctx_deps X) (ctx_nodes X) c chosen;
          mode = (case sel_indirect c of Some m \<Rightarrow> m | None \<Rightarrow> Eager)
      in rmap (\<lambda>(expanded, indirect). incorporate_indirect_nodes expanded indirect (ctx_deps X) (ctx_nodes X) mode)
           (expand_selection chosen mode (ctx_deps X) (ctx_nodes X)))"

definition circular_reference :: "string list \<Rightarrow> string \<Rightarrow> 'a fs_result" where
  "circular_reference stack n =
     Inl (Err SelectorError (''Circular selector reference: '' @
       join '' -> '' (dropWhile (\<lambda>m. m \<noteq> n) stack) @ '' -> '' @ n))"

lemma size_in_list: "e \<in> set es \<Longrightarrow> size e < Suc (size_list size es)"
  for e :: SelectExpression
  by (simp add: less_Suc_eq_le size_list_estimation')

lemma size_sel_exclude: "sel_exclude c = Some ex \<Longrightarrow> size ex < size c"
  by (cases c) simp

lemma defs_measure:
  assumes "entry \<in> set defs" and "fst entry \<notin> set stack"
  shows "unvisited defs (stack @ [fst entry]) < unvisited defs stack"
proof (rule unvisited_less)
  show "map_of defs (fst entry) \<noteq> None" using assms(1) by (auto simp: map_of_eq_None_iff)
qed (use assms(2) in auto)

function eval_selector :: "context_data \<Rightarrow> string list \<Rightarrow> SelectExpression \<Rightarrow> EvalResult fs_result"
  and eval_selector_method :: "context_data \<Rightarrow> string list \<Rightarrow> SelectionCriteria \<Rightarrow> EvalResult fs_result" where
  "eval_selector X stack (Or children) =
     rmap (\<lambda>rs. fold (\<lambda>r acc. merge_or acc r) rs eval_default)
       (collect_results (\<lambda>c. eval_selector X stack c) children)"
| "eval_selector X stack (And children) =
     rmap (\<lambda>rs. case rs of [] \<Rightarrow> eval_default | r # rs' \<Rightarrow> fold (\<lambda>r acc. merge_and acc r) rs' r)
       (collect_results (\<lambda>c. eval_selector X stack c) children)"
| "eval_selector X stack (Exclude child) =
     rmap (\<lambda>r. \<lparr>ev_include = [], ev_exclude = into_final r, exclude_operand = True\<rparr>)
       (eval_selector X stack child)"
| "eval_selector X stack (Atom c) =
     (if sel_method c = Selector then eval_selector_method X stack c
      else rbind (filter_select_criteria_with_state_selector_results (ctx_env X) (ctx_nodes X) c
               (ctx_previous X) (ctx_results X))
        (\<lambda>chosen. rbind (expand_criterion X c chosen)
          (\<lambda>chosen.
             case sel_exclude c of
               None \<Rightarrow> Inr (include_only chosen)
             | Some ex \<Rightarrow> rmap (\<lambda>r. include_only (bs_diff chosen (into_final r))) (eval_selector X stack ex))))"
| "eval_selector_method X stack c =
     rbind (value_resolve (sel_value c) Selector) (\<lambda>pattern.
       let matching = filter (\<lambda>(n, _). fnmatch (ctx_env X) pattern n) (ctx_selectors X) in
       if matching = [] then selector_error (''Unknown selector `'' @ pattern @ ''`'')
       else rbind (collect_results
           (\<lambda>entry. if fst entry \<in> set stack then circular_reference stack (fst entry)
                    else eval_selector X (stack @ [fst entry]) (snd entry)) matching)
         (\<lambda>rs. rbind (expand_criterion X c (into_final (fold (\<lambda>r acc. merge_or acc r) rs eval_default)))
            (\<lambda>chosen.
               case sel_exclude c of
                 None \<Rightarrow> Inr (include_only chosen)
               | Some ex \<Rightarrow> rmap (\<lambda>r. include_only (bs_diff chosen (into_final r))) (eval_selector X stack ex))))"
  by pat_completeness auto

termination
proof (relation "measures
    [\<lambda>x. case x of Inl (X, stack, e) \<Rightarrow> unvisited (ctx_selectors X) stack
       | Inr (X, stack, c) \<Rightarrow> unvisited (ctx_selectors X) stack,
     \<lambda>x. case x of Inl (X, stack, e) \<Rightarrow> size e | Inr (X, stack, c) \<Rightarrow> size c]", goal_cases)
  case (7 X stack c pattern matching entry)
  then have "entry \<in> set (ctx_selectors X)" by auto
  with 7 show ?case by (simp add: defs_measure)
qed (auto simp: size_in_list size_sel_exclude less_SucI)

definition expand_selector :: "context_data \<Rightarrow> SelectExpression \<Rightarrow> string bset fs_result" where
  "expand_selector X selector = rmap into_final (eval_selector X [] selector)"

primrec with_indirect_selection_criteria :: "IndirectSelection \<Rightarrow> SelectionCriteria \<Rightarrow> SelectionCriteria" where
  "with_indirect_selection_criteria mode (Criteria m a v cp pd cd i ex) = Criteria m a v cp pd cd (Some mode) ex"

fun with_indirect_selection :: "IndirectSelection \<Rightarrow> SelectExpression \<Rightarrow> SelectExpression" where
  "with_indirect_selection mode (Atom c) = Atom (with_indirect_selection_criteria mode c)"
| "with_indirect_selection mode (Or children) = Or (map (with_indirect_selection mode) children)"
| "with_indirect_selection mode (And children) = And (map (with_indirect_selection mode) children)"
| "with_indirect_selection mode (Exclude child) = Exclude (with_indirect_selection mode child)"

end
