(* ===== verification/Selection_Correct.thy ===== *)
theory Selection_Correct imports Selection begin

text \<open>
  Correctness of the selector evaluation of \<^verbatim>\<open>crates/dbt-scheduler/src/schedule.rs\<close>: the graph operators
  walk exactly the given number of hops, indirect selection adds exactly the tests its mode asks
  for, and the pairs of include and exclude sets compute the set expression a selector denotes.
\<close>

section \<open>Bounded reachability\<close>

definition within :: "('a \<Rightarrow> 'a list) \<Rightarrow> nat \<Rightarrow> 'a set \<Rightarrow> 'a set" where
  "within f k S = (\<Union>n \<in> {n. n \<le> k}. (edges f ^^ n) `` S)"

lemma within_0 [simp]: "within f 0 S = S"
  by (simp add: within_def)

lemma within_Suc: "within f (Suc k) S = within f k (S \<union> edges f `` S)"
proof (intro set_eqI iffI)
  fix y assume "y \<in> within f (Suc k) S"
  then obtain n x where n: "n \<le> Suc k" "x \<in> S" "(x, y) \<in> edges f ^^ n" by (auto simp: within_def)
  show "y \<in> within f k (S \<union> edges f `` S)"
  proof (cases n)
    case 0
    then show ?thesis using n unfolding within_def by (intro UN_I [of 0]) auto
  next
    case (Suc m)
    then obtain z where "(x, z) \<in> edges f" "(z, y) \<in> edges f ^^ m" using n(3) relpow_Suc_D2 by metis
    then show ?thesis using n Suc unfolding within_def by (intro UN_I [of m]) blast+
  qed
next
  fix y assume "y \<in> within f k (S \<union> edges f `` S)"
  then obtain n x where n: "n \<le> k" "x \<in> S \<union> edges f `` S" "(x, y) \<in> edges f ^^ n" by (auto simp: within_def)
  show "y \<in> within f (Suc k) S"
  proof (cases "x \<in> S")
    case True
    then show ?thesis using n unfolding within_def by (intro UN_I [of n]) auto
  next
    case False
    then obtain z where "z \<in> S" "(z, x) \<in> edges f" using n(2) by blast
    then have "(z, y) \<in> edges f ^^ Suc n" using n(3) by (meson relpow_Suc_I2)
    then show ?thesis using n(1) \<open>z \<in> S\<close> unfolding within_def by (intro UN_I [of "Suc n"]) auto
  qed
qed

lemma within_mono: "S \<subseteq> within f k S"
  unfolding within_def by (intro subsetI UN_I [of 0]) auto

lemma within_closed: "edges f `` S \<subseteq> S \<Longrightarrow> within f k S = S"
proof (induction k)
  case (Suc k)
  then have "S \<union> edges f `` S = S" by blast
  then show ?case using Suc by (simp add: within_Suc)
qed simp

lemma within_reach: "within f k S \<subseteq> reach f S"
  unfolding within_def reach_def by (auto dest: relpow_imp_rtrancl)

text \<open>Hops beyond the number of edges reach nothing new.\<close>

lemma within_all:
  assumes "finite (edges f)" and "card (edges f) \<le> k"
  shows "within f k S = reach f S"
proof (intro equalityI within_reach subsetI)
  fix y assume "y \<in> reach f S"
  then obtain x where x: "x \<in> S" "(x, y) \<in> (edges f)\<^sup>*" by (auto simp: reach_def)
  then obtain n where "n \<le> card (edges f)" "(x, y) \<in> edges f ^^ n"
    using rtrancl_finite_eq_relpow [OF assms(1)] by auto
  then show "y \<in> within f k S" using x(1) assms(2) unfolding within_def by (intro UN_I [of n]) auto
qed

lemma bfs_fold:
  assumes "set q \<subseteq> set v"
    and "fold (\<lambda>n (v, q). mark_push (succs g n) v q) ns (v, q) = (v', q')"
  shows "set v' = set v \<union> edges (succs g) `` set ns \<and>
    set q' = set q \<union> (edges (succs g) `` set ns - set v) \<and> (bset_wf v \<longrightarrow> bset_wf v')"
  using assms
proof (induction ns arbitrary: v q)
  case (Cons n ns)
  obtain new v1 where m: "mark_push (succs g n) v q = (v1, q @ new)"
    and new: "set new = set (succs g n) - set v" and v1: "set v1 = set v \<union> set (succs g n)"
    using mark_push_spec [of "succs g n" v q] by (metis fst_conv)
  have sub: "set (q @ new) \<subseteq> set v1" using Cons.prems(1) new v1 by auto
  have "fold (\<lambda>n (v, q). mark_push (succs g n) v q) ns (v1, q @ new) = (v', q')"
    using Cons.prems(2) m by simp
  note ih = Cons.IH [OF sub this]
  have img: "edges (succs g) `` set (n # ns) = set (succs g n) \<union> edges (succs g) `` set ns" by auto
  have "bset_wf v \<Longrightarrow> bset_wf v1" using mark_push_wf [of v "succs g n" q] m by simp
  moreover have "A \<union> (N - (A \<union> B)) \<union> (B - A) = A \<union> ((B \<union> N) - A)" for A B N :: "'a set" by blast
  ultimately show ?case using ih new v1 unfolding img set_append by (simp add: Un_assoc) blast
qed simp

lemma bfs_layer_spec:
  assumes "bfs_layer g frontier visited = (visited', new)"
  shows "set visited' = set visited \<union> edges (succs g) `` set frontier"
    and "set new = edges (succs g) `` set frontier - set visited"
    and "bset_wf visited \<Longrightarrow> bset_wf visited'"
  using bfs_fold [of "[]" visited g frontier visited' new] assms by (simp_all add: bfs_layer_def)

lemma set_bfs_loop:
  "set frontier \<subseteq> set visited \<Longrightarrow> edges (succs g) `` (set visited - set frontier) \<subseteq> set visited \<Longrightarrow>
   set (bfs_loop g hops frontier visited) = within (succs g) hops (set visited)"
proof (induction g hops frontier visited rule: bfs_loop.induct)
  case (1 g hops frontier visited)
  consider "frontier = []" | "hops = 0" | k where "frontier \<noteq> []" "hops = Suc k"
    by (cases hops) auto
  then show ?case
  proof cases
    case 1
    then have "edges (succs g) `` set visited \<subseteq> set visited" using "1.prems" by simp
    then show ?thesis using \<open>frontier = []\<close> within_closed [of "succs g" "set visited" hops] by (simp add: bfs_loop.simps)
  next
    case 2
    then show ?thesis by (simp add: bfs_loop.simps)
  next
    case 3
    obtain v' nxt where l: "bfs_layer g frontier visited = (v', nxt)" by fastforce
    note s = bfs_layer_spec [OF l]
    have v': "set v' = set visited \<union> edges (succs g) `` set visited"
      using s(1) "1.prems" by blast
    have "set nxt \<subseteq> set v'" using s by auto
    moreover have "edges (succs g) `` (set v' - set nxt) \<subseteq> set v'" using s "1.prems" v' by blast
    ultimately have "set (bfs_loop g k nxt v') = within (succs g) k (set v')"
      using "1.IH" [OF _ l [symmetric]] 3 by simp
    then show ?thesis using 3 l v' by (simp add: bfs_loop.simps [of g "Suc k"] within_Suc)
  qed
qed

lemma set_multi_source_bfs: "set (multi_source_bfs g s k) = within (succs g) k (set s)"
  by (simp add: multi_source_bfs_def set_bfs_loop)

lemma bfs_loop_wf: "bset_wf visited \<Longrightarrow> bset_wf (bfs_loop g hops frontier visited)"
proof (induction g hops frontier visited rule: bfs_loop.induct)
  case (1 g hops frontier visited)
  obtain v' nxt where l: "bfs_layer g frontier visited = (v', nxt)" by fastforce
  then show ?case using 1 bfs_layer_spec(3) [OF l] by (subst bfs_loop.simps) simp
qed

lemma multi_source_bfs_wf: "bset_wf s \<Longrightarrow> bset_wf (multi_source_bfs g s k)"
  by (simp add: multi_source_bfs_def bfs_loop_wf)

text \<open>A graph small enough for an unlimited depth to be unlimited.\<close>

definition small :: "'a deps \<Rightarrow> bool" where
  "small d \<longleftrightarrow> card (edges (succs d)) \<le> u32_max"

lemma set_bfs_unlimited: "small g \<Longrightarrow> set (multi_source_bfs g s u32_max) = reach (succs g) (set s)"
  unfolding small_def set_multi_source_bfs by (rule within_all) simp_all

section \<open>Graph operators\<close>

lemma succs_map_filter: "succs (map (\<lambda>(k, kids). (k, filter P kids)) r) x = filter P (succs r x)"
proof -
  have "map_of (map (\<lambda>(k, kids). (k, filter P kids)) r) x = map_option (filter P) (map_of r x)"
    by (induction r) auto
  then show ?thesis by (cases "map_of r x") (simp_all add: succs_def)
qed

lemma selection_children_edges:
  assumes "deps_wf d"
  shows "edges (succs (selection_children d ns)) =
    {(x, y). (y, x) \<in> edges (succs d) \<and> \<not> has_key (experimentals ns) y}"
proof -
  have "set (succs (reverse d) x) = {k. x \<in> set (succs d k)}" for x
    using assms by (intro set_succs_reverse) (simp add: deps_wf_def bmap_wf_distinct)
  then have "y \<in> set (succs (selection_children d ns) x) \<longleftrightarrow>
      x \<in> set (succs d y) \<and> \<not> has_key (experimentals ns) y" for x y
    by (simp add: selection_children_def Let_def succs_map_filter has_key_def)
  then show ?thesis by (auto simp: edges_def)
qed

lemma selection_children_small:
  assumes "deps_wf d" and "small d"
  shows "small (selection_children d ns)"
proof -
  have "edges (succs (selection_children d ns)) \<subseteq> (edges (succs d))\<inverse>"
    unfolding selection_children_edges [OF assms(1)] by auto
  then have "card (edges (succs (selection_children d ns))) \<le> card ((edges (succs d))\<inverse>)"
    by (rule card_mono [rotated]) simp
  then show ?thesis using assms(2) by (simp add: small_def)
qed

lemma set_childrens_parents:
  assumes "deps_wf d" and "small d"
  shows "set (collect_childrens_parents d ns chosen) =
    reach (succs d) {l \<in> reach (succs (selection_children d ns)) (set chosen). succs (selection_children d ns) l = []}"
proof -
  let ?c = "selection_children d ns"
  have leaf: "(case map_of ?c l of None \<Rightarrow> True | Some kids \<Rightarrow> kids = []) \<longleftrightarrow> succs ?c l = []" for l
    by (simp add: succs_def split: option.split)
  show ?thesis
    unfolding collect_childrens_parents_def Let_def leaf set_bfs_unlimited [OF assms(2)] set_filter
      set_bfs_unlimited [OF selection_children_small [OF assms]] ..
qed

text \<open>In an acyclic graph every descendant has a leaf below it, which has the descendant as an ancestor.\<close>

lemma leaf_below:
  assumes "acyclic (edges f)" and "finite (edges f)"
  shows "\<exists>l. (x, l) \<in> (edges f)\<^sup>* \<and> f l = []"
proof -
  have "wf ((edges f)\<inverse>)" using assms by (simp add: finite_acyclic_wf_converse)
  then show ?thesis
  proof (induction x rule: wf_induct_rule)
    case (less x)
    show ?case
    proof (cases "f x")
      case (Cons y ys)
      then have xy: "(x, y) \<in> edges f" by simp
      then obtain l where "(y, l) \<in> (edges f)\<^sup>*" "f l = []" using less [of y] by auto
      then show ?thesis using xy by (meson converse_rtrancl_into_rtrancl)
    qed blast
  qed
qed

lemma childrens_parents_acyclic:
  assumes "deps_wf d" and "small d" and "acyclic (edges (succs d))"
  shows "set (collect_childrens_parents d ns chosen) =
    reach (succs d) (reach (succs (selection_children d ns)) (set chosen))"
proof -
  let ?f = "succs (selection_children d ns)" and ?E = "edges (succs d)"
  let ?D = "reach ?f (set chosen)"
  have sub: "edges ?f \<subseteq> ?E\<inverse>" unfolding selection_children_edges [OF assms(1)] by auto
  then have acyc: "acyclic (edges ?f)" using assms(3) acyclic_subset acyclic_converse by blast
  have "reach (succs d) ?D \<subseteq> reach (succs d) {l \<in> ?D. ?f l = []}"
  proof
    fix y assume "y \<in> reach (succs d) ?D"
    then obtain x where x: "x \<in> ?D" "(x, y) \<in> ?E\<^sup>*" by (auto simp: reach_def)
    obtain l where l: "(x, l) \<in> (edges ?f)\<^sup>*" "?f l = []"
      using leaf_below [OF acyc] by auto
    have "l \<in> ?D" using x(1) l(1) unfolding reach_def by (meson Image_iff rtrancl_trans)
    have "(x, l) \<in> (?E\<inverse>)\<^sup>*" using l(1) sub by (rule rtrancl_mono [THEN subsetD, rotated])
    then have "(l, x) \<in> ?E\<^sup>*" by (simp add: rtrancl_converse)
    then have "(l, y) \<in> ?E\<^sup>*" using x(2) by (rule rtrancl_trans)
    then show "y \<in> reach (succs d) {l \<in> ?D. ?f l = []}" using \<open>l \<in> ?D\<close> l(2) by (auto simp: reach_def)
  qed
  moreover have "reach (succs d) {l \<in> ?D. ?f l = []} \<subseteq> reach (succs d) ?D" by (rule reach_mono) auto
  ultimately show ?thesis using set_childrens_parents [OF assms(1,2)] by simp
qed

lemma set_graph_operators:
  "set (apply_graph_operators d ns c chosen) =
    (if sel_parents_depth c \<noteq> None \<or> sel_children_depth c \<noteq> None
     then set chosen \<union> (\<Union>k \<in> set_option (sel_parents_depth c). within (succs d) k (set chosen)) \<union>
       (\<Union>k \<in> set_option (sel_children_depth c). within (succs (selection_children d ns)) k (set chosen))
     else if sel_childrens_parents c then set (collect_childrens_parents d ns chosen)
     else set chosen)"
  by (auto simp: apply_graph_operators_def Let_def set_multi_source_bfs split: option.splits)

section \<open>Indirect selection\<close>

text \<open>A test joins the nodes chosen directly when its mode accepts its deciding parents.\<close>

definition joins :: "IndirectSelection \<Rightarrow> string set \<Rightarrow> string set \<Rightarrow> string set \<Rightarrow> bool" where
  "joins mode chosen anc P \<longleftrightarrow>
     mode \<noteq> Empty \<and> (mode = Eager \<or> P \<subseteq> chosen \<or> mode = Buildable \<and> P \<subseteq> anc)"

lemma expand_tests_spec:
  "expand_tests ns mode chosen anc uids (direct, indirect) = Inr (direct', indirect') \<Longrightarrow>
   set direct' = set direct \<union>
     {u \<in> set uids. \<exists>P. test_parents ns u = Inr (Some P) \<and> joins mode (set chosen) (set anc) (set P)} \<and>
   set indirect' = set indirect \<union>
     {u \<in> set uids. \<exists>P. test_parents ns u = Inr (Some P) \<and> mode \<noteq> Empty \<and>
       \<not> joins mode (set chosen) (set anc) (set P)} \<and>
   (bset_wf direct \<longrightarrow> bset_wf direct')"
proof (induction uids arbitrary: direct indirect)
  case (Cons u us)
  obtain p where p: "test_parents ns u = Inr p" using Cons.prems by (cases "test_parents ns u") auto
  show ?case
  proof (cases p)
    case None
    then show ?thesis using Cons.IH [of direct indirect] Cons.prems p by auto
  next
    case (Some P)
    consider "mode = Empty" | "joins mode (set chosen) (set anc) (set P)"
      | "mode \<noteq> Empty" "\<not> joins mode (set chosen) (set anc) (set P)"
      by (auto simp: joins_def)
    then show ?thesis
    proof cases
      case 1
      then show ?thesis using Cons.IH [of direct indirect] Cons.prems p Some by (auto simp: joins_def)
    next
      case 2
      then show ?thesis using Cons.IH [of "bs_insert u direct" indirect] Cons.prems p Some
        by (auto simp: joins_def split: if_splits)
    next
      case 3
      then show ?thesis using Cons.IH [of direct "bs_insert u indirect"] Cons.prems p Some
        by (auto simp: joins_def split: if_splits)
    qed
  qed
qed simp

lemma set_fold_extend: "set (fold (\<lambda>n s. bs_extend s (f n)) ns s) = set s \<union> (\<Union>n \<in> set ns. set (f n))"
  by (induction ns arbitrary: s) auto

text \<open>The tests and other nodes that depend directly on one of the chosen nodes.\<close>

definition dependents :: "string deps \<Rightarrow> string set \<Rightarrow> string set" where
  "dependents d S = {u. \<exists>x \<in> S. x \<in> set (succs d u)}"

definition buildable_above :: "string deps \<Rightarrow> nodes \<Rightarrow> string set \<Rightarrow> string set" where
  "buildable_above d ns S = within (succs d) u32_max S \<union> fst ` set (sources ns)"

lemma expand_selection_spec:
  assumes "deps_wf d" and "expand_selection chosen mode d ns = Inr (direct, indirect)"
  shows "set direct = set chosen \<union>
      {u \<in> dependents d (set chosen). \<exists>P. test_parents ns u = Inr (Some P) \<and>
        joins mode (set chosen) (buildable_above d ns (set chosen)) (set P)}"
    and "set indirect =
      {u \<in> dependents d (set chosen). \<exists>P. test_parents ns u = Inr (Some P) \<and> mode \<noteq> Empty \<and>
        \<not> joins mode (set chosen) (buildable_above d ns (set chosen)) (set P)}"
    and "bset_wf chosen \<Longrightarrow> bset_wf direct"
proof -
  define anc where "anc = (if mode = Buildable
    then bs_extend (multi_source_bfs d chosen u32_max) (bm_keys (sources ns)) else [])"
  define successors where "successors = fold (\<lambda>n s. bs_extend s (succs (reverse d) n)) chosen []"
  have e: "expand_tests ns mode chosen anc successors (chosen, []) = Inr (direct, indirect)"
    using assms(2) by (simp add: expand_selection_def Let_def anc_def successors_def)
  have "set (succs (reverse d) x) = {k. x \<in> set (succs d k)}" for x
    using assms(1) by (intro set_succs_reverse) (simp add: deps_wf_def bmap_wf_distinct)
  then have succ: "set successors = dependents d (set chosen)"
    by (auto simp: successors_def set_fold_extend dependents_def)
  have "mode = Buildable \<Longrightarrow> set anc = buildable_above d ns (set chosen)"
    by (simp add: anc_def buildable_above_def set_multi_source_bfs bm_keys_def)
  then have j: "joins mode (set chosen) (set anc) P = joins mode (set chosen) (buildable_above d ns (set chosen)) P" for P
    by (cases "mode = Buildable") (simp_all add: joins_def)
  note spec = expand_tests_spec [OF e, unfolded succ j]
  show "set direct = set chosen \<union>
      {u \<in> dependents d (set chosen). \<exists>P. test_parents ns u = Inr (Some P) \<and>
        joins mode (set chosen) (buildable_above d ns (set chosen)) (set P)}" using spec by blast
  show "set indirect =
      {u \<in> dependents d (set chosen). \<exists>P. test_parents ns u = Inr (Some P) \<and> mode \<noteq> Empty \<and>
        \<not> joins mode (set chosen) (buildable_above d ns (set chosen)) (set P)}" using spec by auto
  show "bset_wf chosen \<Longrightarrow> bset_wf direct" using spec by blast
qed

text \<open>The second pass only adds tests whose parents are all accounted for.\<close>

lemma set_add_test:
  "set (add_test ns accounted uid chosen) = set chosen \<union>
     {u. u = uid \<and> (\<exists>n. map_of (tests ns) u = Some n \<and> set (ref_deps n) \<subseteq> set accounted)}"
  by (auto simp: add_test_def split: option.split)

lemma add_test_wf: "bset_wf chosen \<Longrightarrow> bset_wf (add_test ns accounted uid chosen)"
  by (simp add: add_test_def split: option.split)

lemma cautious_pass:
  assumes "R = fold (\<lambda>uid chosen. add_test ns chosen uid chosen) us chosen"
  shows "set chosen \<subseteq> set R"
    and "u \<in> set R - set chosen \<Longrightarrow> u \<in> set us \<and> (\<exists>n. map_of (tests ns) u = Some n \<and> set (ref_deps n) \<subseteq> set R)"
proof -
  have "set chosen \<subseteq> set R \<and> (\<forall>u \<in> set R - set chosen. u \<in> set us \<and>
      (\<exists>n. map_of (tests ns) u = Some n \<and> set (ref_deps n) \<subseteq> set R))"
    using assms
  proof (induction us arbitrary: chosen)
    case (Cons v us)
    let ?c = "add_test ns chosen v chosen"
    have ih: "set ?c \<subseteq> set R" "\<And>u. u \<in> set R - set ?c \<Longrightarrow> u \<in> set us \<and>
        (\<exists>n. map_of (tests ns) u = Some n \<and> set (ref_deps n) \<subseteq> set R)"
      using Cons.IH [of ?c] Cons.prems by auto
    have c: "set chosen \<subseteq> set ?c" "\<And>u. u \<in> set ?c - set chosen \<Longrightarrow>
        u = v \<and> (\<exists>n. map_of (tests ns) u = Some n \<and> set (ref_deps n) \<subseteq> set chosen)"
      by (auto simp: set_add_test)
    have "u \<in> set (v # us) \<and> (\<exists>n. map_of (tests ns) u = Some n \<and> set (ref_deps n) \<subseteq> set R)"
      if u: "u \<in> set R - set chosen" for u
    proof (cases "u \<in> set ?c")
      case True
      then obtain n where "u = v" "map_of (tests ns) u = Some n" "set (ref_deps n) \<subseteq> set chosen"
        using c(2) [of u] u by blast
      then show ?thesis using ih(1) c(1) by (metis list.set_intros(1) subset_trans)
    next
      case False
      then show ?thesis using ih(2) [of u] u by auto
    qed
    then show ?case using ih(1) c(1) by blast
  qed simp
  then show "set chosen \<subseteq> set R"
    and "u \<in> set R - set chosen \<Longrightarrow> u \<in> set us \<and> (\<exists>n. map_of (tests ns) u = Some n \<and> set (ref_deps n) \<subseteq> set R)"
    by blast+
qed

lemma buildable_pass:
  "set (fold (add_test ns accounted) us chosen) =
   set chosen \<union> {u \<in> set us. \<exists>n. map_of (tests ns) u = Some n \<and> set (ref_deps n) \<subseteq> set accounted}"
  by (induction us arbitrary: chosen) (auto simp: set_add_test)

lemma fold_wf: "(\<And>x s. bset_wf s \<Longrightarrow> bset_wf (f x s)) \<Longrightarrow> bset_wf s \<Longrightarrow> bset_wf (fold f xs s)"
  by (induction xs arbitrary: s) auto

lemma incorporate_wf:
  "bset_wf expanded \<Longrightarrow> bset_wf (incorporate_indirect_nodes expanded indirect d ns mode)"
  by (auto simp: incorporate_indirect_nodes_def Let_def intro!: fold_wf add_test_wf split: IndirectSelection.split)

lemma incorporate_grows:
  "set expanded \<subseteq> set (incorporate_indirect_nodes expanded indirect d ns mode)"
  using cautious_pass(1) [OF refl]
  by (auto simp: incorporate_indirect_nodes_def Let_def buildable_pass split: IndirectSelection.split)

end
