(* ===== verification/Selection_Eval.thy ===== *)
theory Selection_Eval imports Selection_Correct begin

text \<open>
  The meaning of selector expressions. \<^verbatim>\<open>eval_selector\<close> carries pairs of include and exclude sets and a
  flag; for the expressions the parsers build the pair always stands for one set, which is the
  Boolean combination of the sets of the criteria.
\<close>

section \<open>Results that stand for a set and results that stand for its complement\<close>

definition plain_result :: "EvalResult \<Rightarrow> string set \<Rightarrow> bool" where
  "plain_result r S \<longleftrightarrow> ev_exclude r = [] \<and> \<not> exclude_operand r \<and> set (ev_include r) = S"

definition exclusion :: "EvalResult \<Rightarrow> string set \<Rightarrow> bool" where
  "exclusion r S \<longleftrightarrow> ev_include r = [] \<and> exclude_operand r \<and> set (ev_exclude r) = S"

lemma bs_extend_Nil [simp]: "bs_extend s [] = s"
  by (simp add: bs_extend_def)

lemma plain_final: "plain_result r S \<Longrightarrow> set (into_final r) = S"
  by (auto simp: plain_result_def into_final_def)

lemma plain_include_only [simp]: "plain_result (include_only s) S \<longleftrightarrow> set s = S"
  by (simp add: plain_result_def include_only_def)

lemma plain_default [simp]: "plain_result eval_default S \<longleftrightarrow> S = {}"
  by (auto simp: plain_result_def eval_default_def)

lemma merge_or_plain: "plain_result a S \<Longrightarrow> plain_result b T \<Longrightarrow> plain_result (merge_or a b) (S \<union> T)"
  by (auto simp: plain_result_def merge_or_def)

lemma merge_and_plain: "plain_result a S \<Longrightarrow> plain_result b T \<Longrightarrow> plain_result (merge_and a b) (S \<inter> T)"
  by (auto simp: plain_result_def merge_and_def eval_default_def)

lemma merge_and_exclusion: "plain_result a S \<Longrightarrow> exclusion b T \<Longrightarrow> plain_result (merge_and a b) (S - T)"
  by (auto simp: plain_result_def exclusion_def merge_and_def eval_default_def include_only_def into_final_def)

lemma merge_or_fold:
  "list_all2 plain_result rs Ss \<Longrightarrow> plain_result acc S \<Longrightarrow>
   plain_result (fold (\<lambda>r acc. merge_or acc r) rs acc) (S \<union> \<Union> (set Ss))"
proof (induction rs Ss arbitrary: acc S rule: list_all2_induct)
  case (Cons r rs T Ts)
  show ?case using Cons.IH [OF merge_or_plain [OF Cons.prems Cons.hyps(1)]] by (simp add: Un_assoc)
qed simp

text \<open>Two exclusions next to each other are merged to nothing, whatever they exclude.\<close>

lemma merge_two_exclusions: "exclusion a S \<Longrightarrow> exclusion b T \<Longrightarrow> merge_and a b = eval_default"
  by (simp add: exclusion_def merge_and_def)

section \<open>Expressions\<close>

text \<open>
  An expression in which an exclusion only stands in an intersection, and not as its first member:
  what the command line and the selector file produce.
\<close>

function proper :: "SelectExpression \<Rightarrow> bool" and operand :: "SelectExpression \<Rightarrow> bool" where
  "proper (Atom c) = True"
| "proper (Or es) = (\<forall>e \<in> set es. proper e)"
| "proper (And es) = (case es of [] \<Rightarrow> True | e # rest \<Rightarrow> proper e \<and> (\<forall>x \<in> set rest. operand x))"
| "proper (Exclude e) = False"
| "operand (Exclude e) = proper e"
| "operand (Atom c) = True"
| "operand (Or es) = proper (Or es)"
| "operand (And es) = proper (And es)"
  by pat_completeness auto
termination
  by (relation "measure (\<lambda>x. case x of Inl e \<Rightarrow> 2 * size e | Inr e \<Rightarrow> Suc (2 * size e))")
    (auto dest: size_in_list)

text \<open>The set an expression denotes, given what its criteria evaluate to.\<close>

fun denote :: "context_data \<Rightarrow> string list \<Rightarrow> SelectExpression \<Rightarrow> string set" where
  "denote X stack (Atom c) =
     (case eval_selector X stack (Atom c) of Inl _ \<Rightarrow> {} | Inr r \<Rightarrow> set (into_final r))"
| "denote X stack (Or es) = (\<Union>e \<in> set es. denote X stack e)"
| "denote X stack (And es) = (if es = [] then {} else (\<Inter>e \<in> set es. denote X stack e))"
| "denote X stack (Exclude e) = - denote X stack e"

fun criteria_of :: "SelectExpression \<Rightarrow> SelectionCriteria set" where
  "criteria_of (Atom c) = {c}"
| "criteria_of (Or es) = (\<Union>e \<in> set es. criteria_of e)"
| "criteria_of (And es) = (\<Union>e \<in> set es. criteria_of e)"
| "criteria_of (Exclude e) = criteria_of e"

lemma is_ok_collect: "is_ok (collect_results f xs) \<longleftrightarrow> (\<forall>x \<in> set xs. is_ok (f x))"
proof (induction xs)
  case (Cons x xs)
  then show ?case by (cases "f x"; cases "collect_results f xs") auto
qed simp

lemma is_ok_rmap [simp]: "is_ok (rmap f r) \<longleftrightarrow> is_ok r"
  by (cases r) auto

lemma eval_ok:
  "is_ok (eval_selector X stack e) \<longleftrightarrow> (\<forall>c \<in> criteria_of e. is_ok (eval_selector X stack (Atom c)))"
  by (induction e rule: criteria_of.induct) (simp_all add: is_ok_collect del: eval_selector.simps(4))

lemma eval_atom_plain:
  assumes "eval_selector X stack (Atom c) = Inr r"
  shows "plain_result r (set (into_final r))"
proof -
  obtain s where "r = include_only s"
    using assms by (auto simp: rbind_eq_Inr rmap_eq_Inr Let_def selector_error_def split: if_splits option.splits)
  then show ?thesis by (simp add: into_final_def include_only_def bs_diff_def plain_result_def)
qed

lemma merge_and_fold:
  assumes "list_all2 (\<lambda>r e. plain_result r (denote X stack e) \<or> exclusion r (- denote X stack e)) rs es"
    and "plain_result acc S"
  shows "plain_result (fold (\<lambda>r acc. merge_and acc r) rs acc) (S \<inter> (\<Inter>e \<in> set es. denote X stack e))"
  using assms
proof (induction rs es arbitrary: acc S rule: list_all2_induct)
  case (Cons r rs e es)
  have "plain_result (merge_and acc r) (S \<inter> denote X stack e)"
    using Cons.hyps(1) merge_and_plain [OF Cons.prems] merge_and_exclusion [OF Cons.prems, of r "- denote X stack e"]
    by (auto simp: Diff_eq)
  from Cons.IH [OF this] show ?case by (simp add: Int_assoc)
qed simp

lemma eval_denote:
  "proper e \<Longrightarrow> eval_selector X stack e = Inr r \<Longrightarrow> plain_result r (denote X stack e)"
  "operand e \<Longrightarrow> eval_selector X stack e = Inr r \<Longrightarrow>
     plain_result r (denote X stack e) \<or> exclusion r (- denote X stack e)"
proof (induction e and e arbitrary: r and r rule: proper_operand.induct)
  case (1 c)
  then show ?case using eval_atom_plain [OF 1(2)] by (simp del: eval_selector.simps)
next
  case (2 es)
  then obtain rs where rs: "list_all2 (\<lambda>e r. eval_selector X stack e = Inr r) es rs"
    and r: "r = fold (\<lambda>r acc. merge_or acc r) rs eval_default"
    by (auto simp: rmap_eq_Inr collect_results_Inr)
  have "list_all2 plain_result rs (map (denote X stack) es)"
    using rs 2 by (auto simp: list_all2_conv_all_nth)
  from merge_or_fold [OF this, of eval_default "{}"] show ?case using r by simp
next
  case (3 es)
  then obtain rs where rs: "list_all2 (\<lambda>e r. eval_selector X stack e = Inr r) es rs"
    and r: "r = (case rs of [] \<Rightarrow> eval_default | r # rs' \<Rightarrow> fold (\<lambda>r acc. merge_and acc r) rs' r)"
    by (auto simp: rmap_eq_Inr collect_results_Inr)
  show ?case
  proof (cases es)
    case Nil
    then show ?thesis using rs r by simp
  next
    case (Cons e rest)
    then obtain q qs where q: "rs = q # qs" "eval_selector X stack e = Inr q"
      "list_all2 (\<lambda>e r. eval_selector X stack e = Inr r) rest qs"
      using rs by (auto simp: list_all2_Cons1)
    have "plain_result q (denote X stack e)" using 3 Cons q by auto
    moreover have "list_all2 (\<lambda>r e. plain_result r (denote X stack e) \<or> exclusion r (- denote X stack e)) qs rest"
      using q(3) 3 Cons by (fastforce simp: list_all2_conv_all_nth)
    ultimately show ?thesis using merge_and_fold [of X stack qs rest q] r q(1) Cons by simp
  qed
next
  case (5 e)
  then obtain q where "eval_selector X stack e = Inr q"
    "r = \<lparr>ev_include = [], ev_exclude = into_final q, exclude_operand = True\<rparr>"
    by (auto simp: rmap_eq_Inr)
  then show ?case using 5 plain_final by (simp add: exclusion_def)
next
  case (6 c)
  then show ?case using eval_atom_plain [OF 6(2)] by (simp del: eval_selector.simps)
qed (auto simp del: eval_selector.simps)

end
