(* ===== verification/Selection_Contract.thy ===== *)
theory Selection_Contract imports Selection_Eval Node_Match_Contract Dag_Contract begin

text \<open>
  What selector evaluation in \<^verbatim>\<open>crates/dbt-scheduler/src/schedule.rs\<close> promises the scheduler: graph
  operators, indirect selection of tests, set expressions and named selectors, with a small project
  as the concrete instance of each conditional promise.
\<close>

section \<open>A small project\<close>

definition sample_context :: context_data where
  "sample_context = \<lparr>ctx_env = no_globs, ctx_deps = [], ctx_nodes = sample_nodes, ctx_previous = None,
     ctx_results = None, ctx_selectors = [(''loop'', Atom (Criteria Selector [] (Scalar ''loop'') False None None None None))]\<rparr>"

lemma sample_base:
  "filter_select_criteria_with_state_selector_results no_globs sample_nodes
     (Criteria ResourceType [] (Scalar ''model'') False None None None None) None None = Inr [''m.a'', ''m.b'']"
  by (simp add: filter_select_criteria_with_state_selector_results_def filter_select_criteria_def iter_sample
      predicate_include_identifier_node_def value_resolve_def match_resource_type_def bs_insert_def less_char_def char_code_def)
    (simp add: sample_node_def)

lemma no_dependents: "fold (\<lambda>n s. bs_extend s (succs (reverse []) n)) ns s = s"
  by (induction ns arbitrary: s) (simp_all add: reverse_def reverse_dependencies_def)

lemma sample_expand: "sel_indirect c = None \<Longrightarrow> sel_parents_depth c = None \<Longrightarrow> sel_children_depth c = None \<Longrightarrow>
    \<not> sel_childrens_parents c \<Longrightarrow> expand_criterion sample_context c s = Inr s"
  by (simp add: expand_criterion_def sample_context_def apply_graph_operators_def expand_selection_def no_dependents
      incorporate_indirect_nodes_def)

lemma sample_eval:
  "eval_selector sample_context [] (resource_is ''model'') = Inr (include_only [''m.a'', ''m.b''])"
  by (simp add: resource_is_def sample_expand) (simp add: sample_context_def sample_base sample_expand [unfolded sample_context_def])

section \<open>Set expressions\<close>

text \<open>C13 Evaluating an expression in which exclusions stand only in intersections, after a first member
  that is not one, fails exactly when one of its criteria fails, and otherwise gives the union,
  intersection and difference of the sets its criteria evaluate to.\<close>

theorem eval_selector_denotes:
  assumes "proper e"
  shows "(is_ok (expand_selector X e) \<longleftrightarrow> (\<forall>c \<in> criteria_of e. is_ok (eval_selector X [] (Atom c)))) \<and>
    (\<forall>s. expand_selector X e = Inr s \<longrightarrow> set s = denote X [] e)"
proof (intro conjI allI impI)
  show "is_ok (expand_selector X e) \<longleftrightarrow> (\<forall>c \<in> criteria_of e. is_ok (eval_selector X [] (Atom c)))"
    unfolding expand_selector_def is_ok_rmap by (rule eval_ok)
  fix s assume "expand_selector X e = Inr s"
  then obtain r where "eval_selector X [] e = Inr r" "s = into_final r"
    by (auto simp: expand_selector_def rmap_eq_Inr)
  then show "set s = denote X [] e" using plain_final [OF eval_denote(1) [OF assms]] by blast
qed

theorem eval_selector_denotes_witness:
  "rmap set (expand_selector sample_context (And [resource_is ''model'', Exclude (resource_is ''model'')])) = Inr {}"
proof -
  let ?e = "And [resource_is ''model'', Exclude (resource_is ''model'')]"
  have p: "proper ?e" by (simp add: resource_is_def)
  have "criteria_of ?e = criteria_of (resource_is ''model'')" by simp
  then have "\<forall>c \<in> criteria_of ?e. is_ok (eval_selector sample_context [] (Atom c))"
    using sample_eval by (simp add: resource_is_def del: eval_selector.simps)
  then obtain s where s: "expand_selector sample_context ?e = Inr s"
    using eval_selector_denotes [OF p, of sample_context] by (cases "expand_selector sample_context ?e") auto
  then have "set s = {}" using eval_selector_denotes [OF p, of sample_context] by simp
  with s show ?thesis by simp
qed

text \<open>What was merged to nothing stays so.\<close>

lemma merge_and_nothing:
  "ev_include acc = [] \<Longrightarrow> \<not> exclude_operand acc \<Longrightarrow>
   ev_include (merge_and acc r) = [] \<and> \<not> exclude_operand (merge_and acc r)"
  by (simp add: merge_and_def eval_default_def include_only_def into_final_def bs_diff_def)

lemma fold_merge_and_nothing:
  "ev_include acc = [] \<Longrightarrow> \<not> exclude_operand acc \<Longrightarrow> into_final (fold (\<lambda>r acc. merge_and acc r) rs acc) = []"
proof (induction rs arbitrary: acc)
  case (Cons r rs)
  then show ?case using merge_and_nothing [of acc r] by simp
qed (simp add: into_final_def bs_diff_def)

lemma exclusions_first_nothing:
  assumes "is_ok (eval_selector X [] (And (Exclude a # Exclude b # cs)))"
  shows "expand_selector X (And (Exclude a # Exclude b # cs)) = Inr []"
proof -
  obtain r q rs where ev: "collect_results (\<lambda>c. eval_selector X [] c) (Exclude a # Exclude b # cs) = Inr (r # q # rs)"
    and r: "eval_selector X [] (Exclude a) = Inr r" and q: "eval_selector X [] (Exclude b) = Inr q"
    using assms by (cases "eval_selector X [] a"; cases "eval_selector X [] b";
        cases "collect_results (\<lambda>c. eval_selector X [] c) cs") auto
  have "merge_and r q = eval_default"
    using r q by (intro merge_two_exclusions [of r "set (ev_exclude r)" q "set (ev_exclude q)"])
      (auto simp: exclusion_def rmap_eq_Inr)
  then show ?thesis
    using ev fold_merge_and_nothing [of eval_default rs]
    by (simp add: expand_selector_def eval_default_def del: eval_selector.simps(1,3,4) collect_results.simps)
qed

text \<open>C37 An intersection whose first two members are exclusions selects nothing whenever it evaluates,
  whatever the two exclude and whatever members follow, exclusions and improper ones included. The
  same members with the two exclusions last select what the others select without what the two
  exclude: the order of the members of an intersection decides the result, against the law the code
  names for the case of two exclusions.\<close>

theorem exclusions_first_select_nothing:
  assumes "is_ok (expand_selector X (And (Exclude a # Exclude b # cs)))"
  shows "expand_selector X (And (Exclude a # Exclude b # cs)) = Inr [] \<and>
    (proper a \<and> proper b \<and> cs \<noteq> [] \<and> proper (And cs) \<longrightarrow>
      rmap set (expand_selector X (And (cs @ [Exclude a, Exclude b]))) =
        Inr (denote X [] (And cs) - denote X [] a - denote X [] b))"
proof (intro conjI impI)
  have ok: "is_ok (eval_selector X [] (And (Exclude a # Exclude b # cs)))"
    using assms by (simp add: expand_selector_def del: eval_selector.simps)
  then show "expand_selector X (And (Exclude a # Exclude b # cs)) = Inr []"
    by (rule exclusions_first_nothing)
  assume h: "proper a \<and> proper b \<and> cs \<noteq> [] \<and> proper (And cs)"
  have p: "proper (And (cs @ [Exclude a, Exclude b]))" using h by (auto split: list.splits)
  have "is_ok (expand_selector X (And (cs @ [Exclude a, Exclude b])))"
    using ok unfolding expand_selector_def is_ok_rmap eval_ok [of X "[]" "And _"] by auto
  then obtain s where s: "expand_selector X (And (cs @ [Exclude a, Exclude b])) = Inr s"
    by (cases "expand_selector X (And (cs @ [Exclude a, Exclude b]))") auto
  have "set s = denote X [] (And (cs @ [Exclude a, Exclude b]))"
    using s plain_final [OF eval_denote(1) [OF p]] by (auto simp: expand_selector_def rmap_eq_Inr simp del: eval_selector.simps)
  with s h show "rmap set (expand_selector X (And (cs @ [Exclude a, Exclude b]))) =
      Inr (denote X [] (And cs) - denote X [] a - denote X [] b)" by auto
qed

theorem exclusions_first_witness:
  "expand_selector sample_context (And [Exclude (Or []), Exclude (Or []), resource_is ''model'']) = Inr [] \<and>
   rmap set (expand_selector sample_context (And [resource_is ''model'', Exclude (Or []), Exclude (Or [])])) =
     Inr {''m.a'', ''m.b''}"
proof -
  have "denote sample_context [] (resource_is ''model'') = {''m.a'', ''m.b''}"
    using sample_eval
    by (simp add: resource_is_def into_final_def include_only_def bs_diff_def del: eval_selector.simps)
  then show ?thesis
    using exclusions_first_select_nothing [of sample_context "Or []" "Or []" "[resource_is ''model'']"] sample_eval
    by (simp add: resource_is_def expand_selector_def del: eval_selector.simps(4))
qed

section \<open>Graph operators\<close>

text \<open>C38 The graph operators of a criterion add exactly the nodes at most the given number of
  dependency hops above and below the chosen ones, experimental nodes never being entered from
  above; a depth of 32 ones is unlimited on any graph with at most that many edges; and \<^verbatim>\<open>@\<close> in an acyclic
  graph selects the descendants of the chosen nodes and all ancestors of those.\<close>

theorem graph_operators_hops:
  assumes "deps_wf d" and "small d"
  shows "(sel_parents_depth c = Some k \<and> sel_children_depth c = None \<longrightarrow>
      set (apply_graph_operators d ns c chosen) = within (succs d) k (set chosen)) \<and>
    (sel_parents_depth c = None \<and> sel_children_depth c = Some k \<longrightarrow>
      set (apply_graph_operators d ns c chosen) = within (succs (selection_children d ns)) k (set chosen)) \<and>
    within (succs d) u32_max (set chosen) = reach (succs d) (set chosen) \<and>
    (acyclic (edges (succs d)) \<longrightarrow> set (collect_childrens_parents d ns chosen) =
      reach (succs d) (reach (succs (selection_children d ns)) (set chosen)))"
proof -
  have "within (succs d) u32_max (set chosen) = reach (succs d) (set chosen)"
    using assms(2) by (intro within_all) (simp_all add: small_def)
  then show ?thesis
    using within_mono [of "set chosen" "succs d" k] within_mono [of "set chosen" "succs (selection_children d ns)" k]
      childrens_parents_acyclic [OF assms] by (auto simp: set_graph_operators)
qed

definition string_chain :: "string deps" where
  "string_chain = [(''a'', [''b'']), (''b'', [''c'']), (''c'', [])]"

lemma string_chain_wf: "deps_wf string_chain"
  by (simp add: string_chain_def deps_wf_def bmap_wf_def bset_wf_def less_char_def)

lemma string_chain_small: "small string_chain"
proof -
  have "edges (succs string_chain) = {(''a'', ''b''), (''b'', ''c'')}"
    by (auto simp: string_chain_def succs_def edges_def split: if_splits)
  then show ?thesis by (simp add: small_def)
qed

theorem graph_operators_witness:
  "set (apply_graph_operators string_chain sample_nodes (Criteria Fqn [] (Scalar ''a'') False (Some 1) None None None) [''a'']) =
   {''a'', ''b''}"
proof -
  have "within f 1 S = S \<union> edges f `` S" for f :: "string \<Rightarrow> string list" and S
    using within_Suc [of f 0 S] by simp
  moreover have "edges (succs string_chain) `` {''a''} = {''b''}" by (auto simp: string_chain_def succs_def)
  ultimately have "within (succs string_chain) 1 {''a''} = {''a'', ''b''}" by (simp add: insert_commute)
  then show ?thesis
    using graph_operators_hops [OF string_chain_wf string_chain_small,
      of "Criteria Fqn [] (Scalar ''a'') False (Some 1) None None None" 1 sample_nodes "[''a'']"] by simp
qed

section \<open>Indirect selection\<close>

text \<open>Expanding a selection splits the tests that depend on a chosen node: those its mode accepts are
  selected, the others are kept aside, and no other node is added. A test is accepted in eager mode
  always, in cautious mode when all its parents are chosen, in buildable mode also when they are
  ancestors of chosen nodes or sources, and in empty mode never.\<close>

theorem expand_selection_exact:
  assumes "deps_wf d" and "expand_selection chosen mode d ns = Inr (direct, indirect)"
  shows "set direct = set chosen \<union>
      {u \<in> dependents d (set chosen). \<exists>P. test_parents ns u = Inr (Some P) \<and>
        joins mode (set chosen) (buildable_above d ns (set chosen)) (set P)} \<and>
    set indirect =
      {u \<in> dependents d (set chosen). \<exists>P. test_parents ns u = Inr (Some P) \<and> mode \<noteq> Empty \<and>
        \<not> joins mode (set chosen) (buildable_above d ns (set chosen)) (set P)}"
  using expand_selection_spec [OF assms] by (intro conjI)

definition tested_nodes :: nodes where
  "tested_nodes = sample_nodes \<lparr>tests := [(''t.1'', sample_node ''t.1'' ''t1''
     \<lparr>resource_type := TestNode, depends_on := [''m.a'', ''m.b''],
      ref_locations := [(''m.a'', []), (''m.b'', [])]\<rparr>)]\<rparr>"

definition tested_deps :: "string deps" where
  "tested_deps = [(''m.a'', []), (''m.b'', []), (''t.1'', [''m.a'', ''m.b''])]"

lemma tested_deps_wf: "deps_wf tested_deps"
  by (simp add: tested_deps_def deps_wf_def bmap_wf_def bset_wf_def less_char_def char_code_def)

lemma tested_parents:
  "test_parents tested_nodes ''t.1'' = Inr (Some (bs_of_list [''m.a'', ''m.b'']))"
  by (simp add: test_parents_def tested_nodes_def sample_nodes_def empty_nodes_def ref_deps_def sample_node_def)

lemma tested_dependents: "dependents tested_deps {''m.a''} = {''t.1''}"
  by (auto simp: dependents_def tested_deps_def succs_def split: if_splits)

lemma tested_expand:
  "\<exists>r. expand_selection chosen mode tested_deps tested_nodes = Inr r"
proof -
  have total: "(\<And>u. u \<in> set us \<Longrightarrow> is_ok (test_parents ns u)) \<Longrightarrow> is_ok (expand_tests ns mode chosen anc us acc)"
    for ns mode chosen anc us acc
  proof (induction us arbitrary: acc)
    case (Cons u us)
    obtain p where "test_parents ns u = Inr p" using Cons.prems [of u] by (cases "test_parents ns u") auto
    then show ?case using Cons by (cases acc; cases p) auto
  qed simp
  have "is_ok (test_parents tested_nodes u)" for u
    by (simp add: test_parents_def tested_nodes_def sample_nodes_def empty_nodes_def)
  then have "is_ok (expand_selection chosen mode tested_deps tested_nodes)"
    unfolding expand_selection_def Let_def by (intro total)
  then show ?thesis by (cases "expand_selection chosen mode tested_deps tested_nodes") auto
qed

lemma tested_joins:
  "{u \<in> dependents tested_deps (set [''m.a'']). \<exists>P. test_parents tested_nodes u = Inr (Some P) \<and> Q P} =
   {u. u = ''t.1'' \<and> Q (bs_of_list [''m.a'', ''m.b''])}"
  unfolding list.set tested_dependents using tested_parents by auto

theorem expand_selection_witness:
  "rmap (\<lambda>(direct, _). set direct) (expand_selection [''m.a''] Eager tested_deps tested_nodes) = Inr {''m.a'', ''t.1''} \<and>
   rmap (\<lambda>(direct, _). set direct) (expand_selection [''m.a''] Cautious tested_deps tested_nodes) = Inr {''m.a''}"
proof
  obtain d i where e: "expand_selection [''m.a''] Eager tested_deps tested_nodes = Inr (d, i)"
    using tested_expand by (metis surj_pair)
  have "set d = {''m.a'', ''t.1''}"
    using expand_selection_exact [OF tested_deps_wf e] unfolding tested_joins by (simp add: joins_def insert_commute)
  then show "rmap (\<lambda>(direct, _). set direct) (expand_selection [''m.a''] Eager tested_deps tested_nodes) = Inr {''m.a'', ''t.1''}"
    using e by simp
  obtain d i where e: "expand_selection [''m.a''] Cautious tested_deps tested_nodes = Inr (d, i)"
    using tested_expand by (metis surj_pair)
  have "set d = {''m.a''}"
    using expand_selection_exact [OF tested_deps_wf e] unfolding tested_joins by (simp add: joins_def)
  then show "rmap (\<lambda>(direct, _). set direct) (expand_selection [''m.a''] Cautious tested_deps tested_nodes) = Inr {''m.a''}"
    using e by simp
qed

text \<open>Whatever the mode adds to the chosen nodes is a test; in cautious mode all its deciding parents
  are in the result, so no test runs against a parent that does not.\<close>

theorem cautious_tests_complete:
  assumes "deps_wf d" and "nodes_wf ns" and "expand_selection chosen Cautious d ns = Inr (direct, indirect)"
    and "u \<in> set (incorporate_indirect_nodes direct indirect d ns Cautious) - set chosen"
  shows "\<exists>P. test_parents ns u = Inr (Some P) \<and>
    set P \<subseteq> set (incorporate_indirect_nodes direct indirect d ns Cautious)"
proof -
  let ?R = "incorporate_indirect_nodes direct indirect d ns Cautious"
  note spec = expand_selection_exact [OF assms(1,3)]
  have grow: "set direct \<subseteq> set ?R" by (rule incorporate_grows)
  show ?thesis
  proof (cases "u \<in> set direct")
    case True
    then obtain P where "test_parents ns u = Inr (Some P)" "set P \<subseteq> set chosen"
      using spec assms(4) by (auto simp: joins_def)
    moreover have "set chosen \<subseteq> set ?R" using spec grow by blast
    ultimately show ?thesis by blast
  next
    case False
    then have ne: "direct \<noteq> indirect" using assms(4) by (auto simp: incorporate_indirect_nodes_def split: if_splits)
    then have R: "?R = fold (\<lambda>uid chosen. add_test ns chosen uid chosen) indirect direct"
      by (simp add: incorporate_indirect_nodes_def)
    obtain n where n: "map_of (tests ns) u = Some n" "set (ref_deps n) \<subseteq> set ?R"
      using cautious_pass(2) [OF R, of u] assms(4) False by blast
    have "map_of (unit_tests ns) u = None"
    proof (rule ccontr)
      assume "map_of (unit_tests ns) u \<noteq> None"
      then have "u \<in> fst ` set (unit_tests ns)" by (simp add: map_of_eq_None_iff)
      moreover have "u \<in> fst ` set (tests ns)" using n(1) by (metis map_of_eq_None_iff not_None_eq)
      ultimately show False using assms(2) by (auto simp: nodes_wf_def iter_def)
    qed
    then show ?thesis using n by (auto simp: test_parents_def)
  qed
qed

lemma tested_nodes_wf: "nodes_wf tested_nodes"
  by (simp add: nodes_wf_def tested_nodes_def sample_nodes_def empty_nodes_def iter_def) (simp add: sample_node_def)

theorem cautious_tests_witness:
  "\<exists>direct indirect. expand_selection [''m.a'', ''m.b''] Cautious tested_deps tested_nodes = Inr (direct, indirect) \<and>
     {''m.a'', ''m.b''} \<subseteq> set (incorporate_indirect_nodes direct indirect tested_deps tested_nodes Cautious)"
proof -
  obtain d i where e: "expand_selection [''m.a'', ''m.b''] Cautious tested_deps tested_nodes = Inr (d, i)"
    using tested_expand by (metis surj_pair)
  let ?R = "incorporate_indirect_nodes d i tested_deps tested_nodes Cautious"
  have "''t.1'' \<in> dependents tested_deps (set [''m.a'', ''m.b''])" by (simp add: dependents_def tested_deps_def succs_def)
  then have "''t.1'' \<in> set d"
    using expand_selection_spec(1) [OF tested_deps_wf e] tested_parents by (simp add: joins_def)
  then have "''t.1'' \<in> set ?R - set [''m.a'', ''m.b'']" using incorporate_grows [of d i] by auto
  from cautious_tests_complete [OF tested_deps_wf tested_nodes_wf e this]
  have "{''m.a'', ''m.b''} \<subseteq> set ?R" using tested_parents by simp
  with e show ?thesis by blast
qed

section \<open>Named selectors\<close>

text \<open>A \<^verbatim>\<open>selector:\<close> criterion whose name is being resolved already is an error that shows the circle, and
  one that matches no name is an error; with neither, evaluation of its definitions goes on, so the
  evaluation of any set of definitions, circular ones included, ends.\<close>

theorem selector_references:
  assumes "sel_method c = Selector" and "sel_value c = Scalar pattern"
  shows "(filter (\<lambda>(n, _). fnmatch (ctx_env X) pattern n) (ctx_selectors X) = [] \<longrightarrow>
      eval_selector X stack (Atom c) = selector_error (''Unknown selector `'' @ pattern @ ''`'')) \<and>
    (filter (\<lambda>(n, _). fnmatch (ctx_env X) pattern n) (ctx_selectors X) = (n, e) # rest \<and> n \<in> set stack \<longrightarrow>
      eval_selector X stack (Atom c) = circular_reference stack n)"
  using assms by (auto simp: value_resolve_def circular_reference_def)

theorem selector_references_witness:
  "eval_selector sample_context [''loop''] (Atom (Criteria Selector [] (Scalar ''loop'') False None None None None)) =
     circular_reference [''loop''] ''loop''"
  using selector_references [of "Criteria Selector [] (Scalar ''loop'') False None None None None" "''loop''"
      sample_context "[''loop'']" "''loop''" "Atom (Criteria Selector [] (Scalar ''loop'') False None None None None)" "[]"]
  by (simp add: sample_context_def fnmatch_def has_special_chars_def is_special_char_def del: eval_selector.simps)

end
