(* ===== verification/Selection_Override.thy ===== *)
theory Selection_Override imports Nodes begin

text \<open>
  Replacing the computed selection by an externally supplied node set, from
  \<^verbatim>\<open>crates/dbt-schemas/src/schemas/selection_override.rs\<close>. Reading the file and decoding its JSON are
  library calls; the rows they yield are the input of \<open>parse_selection_override\<close>.
\<close>

section \<open>The supplied set\<close>

record SelectionOverride =
  override_ids :: "string bset"
  override_source :: string

definition non_node_id_prefixes :: "string list" where
  "non_node_id_prefixes = [''operation.'', ''exposure.'']"

definition sample_cap :: nat where
  "sample_cap = 10"

definition is_node_id :: "string \<Rightarrow> bool" where
  "is_node_id uid \<longleftrightarrow> \<not> list_ex (\<lambda>prefix. starts_with uid prefix) non_node_id_prefixes"

definition from_ids :: "string list \<Rightarrow> string \<Rightarrow> SelectionOverride" where
  "from_ids ids path = \<lparr>override_ids = bs_of_list (filter is_node_id ids), override_source = path\<rparr>"

definition parse_selection_override :: "(string + string list) \<Rightarrow> string \<Rightarrow> SelectionOverride fs_result" where
  "parse_selection_override rows path =
     (case rows of
        Inl e \<Rightarrow> Inl (Err JsonInvalid
          (''Cannot read the node set that should replace the computed selection: '' @ [CHR 0x27] @ path @ [CHR 0x27] @
           '' is not a document with a '' @ [CHR 0x27] @ ''results'' @ [CHR 0x27] @ '' array of objects carrying '' @
           [CHR 0x27] @ ''unique_id'' @ [CHR 0x27] @ '': '' @ e))
      | Inr unique_ids \<Rightarrow>
          Inr \<lparr>override_ids = bs_of_list (filter is_node_id unique_ids), override_source = path\<rparr>)"

text \<open>
  When the override applies: the two flags and the directory come from the environment, the mode and
  the command from the arguments; \<open>load\<close> reads the file of a directory.
\<close>

definition resolve_selection_override ::
    "bool fs_result \<Rightarrow> bool fs_result \<Rightarrow> bool \<Rightarrow> bool \<Rightarrow> string option \<Rightarrow>
     (string \<Rightarrow> SelectionOverride fs_result) \<Rightarrow> SelectionOverride option fs_result" where
  "resolve_selection_override from_run_results from_recording mantle_replay source_command dir load =
     rbind from_run_results (\<lambda>run_results. rbind from_recording (\<lambda>recording.
       if run_results \<and> recording
       then Inl (Err InvalidConfig (''DBT_ENGINE_OVERRIDE_SELECTION_FROM_RUN_RESULTS and '' @
         ''DBT_ENGINE_OVERRIDE_SELECTION_FROM_RECORDING are both set; '' @
         ''they name different sources for the same node set, so pick one''))
       else if \<not> run_results \<or> \<not> (mantle_replay \<and> \<not> source_command) then Inr None
       else (case dir of
               None \<Rightarrow> Inl (Err MissingArgument (''DBT_ENGINE_OVERRIDE_SELECTION_FROM_RUN_RESULTS is set but '' @
                 ''DBT_ENGINE_MANTLE_ARTIFACTS is not, so there is no '' @ [CHR 0x27] @ ''run_results.json'' @ [CHR 0x27] @
                 '' to read the node set from''))
             | Some d \<Rightarrow> rmap Some (load d))))"

section \<open>Comparison with the computed selection\<close>

definition is_reportable_resource_type :: "NodeType \<Rightarrow> bool" where
  "is_reportable_resource_type t \<longleftrightarrow>
     t \<notin> {ExposureNode, Analysis, SemanticModelNode, MetricNode, SavedQueryNode, Operation, Macro, DocsMacro, Unspecified}"

definition retain_reportable :: "string bset \<Rightarrow> nodes \<Rightarrow> string bset" where
  "retain_reportable ids ns =
     filter (\<lambda>uid. case get_node ns uid of
         None \<Rightarrow> True | Some n \<Rightarrow> is_reportable_resource_type (resource_type n)) ids"

record SelectionOverrideStats =
  injected :: nat
  matched :: nat
  unmatched :: nat
  fusion_would_select :: nat
  fusion_only :: nat
  dropped_unschedulable :: nat
  unmatched_sample :: "string list"
  dropped_unschedulable_sample :: "string list"

definition compute_selection_override_stats ::
    "string bset \<Rightarrow> string bset \<Rightarrow> string bset \<Rightarrow> string bset \<Rightarrow> nodes \<Rightarrow> SelectionOverrideStats" where
  "compute_selection_override_stats supplied computed match_ids scheduled ns =
     (let un = bs_diff supplied match_ids;
          dropped = bs_diff match_ids scheduled;
          computed_reportable = retain_reportable computed ns
      in \<lparr>injected = length supplied, matched = length match_ids, unmatched = length un,
          fusion_would_select = length computed_reportable,
          fusion_only = length (bs_diff computed_reportable supplied),
          dropped_unschedulable = length dropped,
          unmatched_sample = take sample_cap un,
          dropped_unschedulable_sample = take sample_cap dropped\<rparr>)"

record SelectionOverrideReconciliation =
  rec_reported :: nat
  rec_injected :: nat
  ran_not_injected :: "string list"
  injected_not_ran :: "string list"

definition is_clean :: "SelectionOverrideReconciliation \<Rightarrow> bool" where
  "is_clean r \<longleftrightarrow> ran_not_injected r = [] \<and> injected_not_ran r = []"

definition is_ephemeral_model :: "string \<Rightarrow> nodes \<Rightarrow> bool" where
  "is_ephemeral_model uid ns \<longleftrightarrow>
     (case map_of (models ns) uid of None \<Rightarrow> False | Some m \<Rightarrow> materialized m = Ephemeral)"

definition reconcile_reported_nodes ::
    "string bset \<Rightarrow> string bset \<Rightarrow> nodes \<Rightarrow> SelectionOverrideReconciliation" where
  "reconcile_reported_nodes supplied reported ns =
     (let reported = filter is_node_id
            (filter (\<lambda>uid. \<not> has_key (sources ns) uid \<and> \<not> is_ephemeral_model uid ns) reported);
          supplied = retain_reportable supplied ns
      in \<lparr>rec_reported = length reported, rec_injected = length supplied,
          ran_not_injected = bs_diff reported supplied, injected_not_ran = bs_diff supplied reported\<rparr>)"

definition format_sample :: "string list \<Rightarrow> nat \<Rightarrow> string" where
  "format_sample sample whole =
     (if sample = [] then ''none''
      else join '', '' sample @
        (if length sample < whole then '' (and '' @ show_nat (whole - length sample) @ '' more)'' else []))"

section \<open>What the comparison reports\<close>

text \<open>The counters of an override add up: every supplied id is matched or unmatched, every matched id
  is scheduled or dropped, and the samples are prefixes of the lists they stand for, of at most ten
  ids.\<close>

theorem override_stats_balance:
  assumes "bset_wf supplied" and "set match_ids \<subseteq> set supplied" and "bset_wf match_ids"
    and "set scheduled \<subseteq> set match_ids" and "bset_wf scheduled"
  shows "injected (compute_selection_override_stats supplied computed match_ids scheduled ns) =
      matched (compute_selection_override_stats supplied computed match_ids scheduled ns) +
      unmatched (compute_selection_override_stats supplied computed match_ids scheduled ns) \<and>
    matched (compute_selection_override_stats supplied computed match_ids scheduled ns) =
      length scheduled + dropped_unschedulable (compute_selection_override_stats supplied computed match_ids scheduled ns) \<and>
    length (unmatched_sample (compute_selection_override_stats supplied computed match_ids scheduled ns)) =
      min 10 (unmatched (compute_selection_override_stats supplied computed match_ids scheduled ns))"
proof -
  have split: "length s = length t + length (bs_diff s t)"
    if "bset_wf s" "bset_wf t" "set t \<subseteq> set s" for s t :: "string list"
  proof -
    have "distinct s" "distinct t" using that by (auto simp: bset_wf_def strict_sorted_iff)
    then have "length s = card (set s)" "length t = card (set t)" "length (bs_diff s t) = card (set s - set t)"
      using distinct_card [of s] distinct_card [of t] distinct_card [of "bs_diff s t"]
      by (auto simp: bs_diff_def set_diff_eq)
    moreover have "card (set s) = card (set t) + card (set s - set t)"
      using that(3) by (metis card_Diff_subset List.finite_set add_diff_inverse_nat card_mono not_less)
    ultimately show ?thesis by simp
  qed
  show ?thesis
    using split [OF assms(1,3,2)] split [OF assms(3,5,4)]
    by (simp add: compute_selection_override_stats_def Let_def sample_cap_def)
qed

theorem override_stats_witness:
  "matched (compute_selection_override_stats [''a'', ''b''] [] [''a''] [''a''] empty_nodes) = 1 \<and>
   unmatched (compute_selection_override_stats [''a'', ''b''] [] [''a''] [''a''] empty_nodes) = 1"
  using override_stats_balance [of "[''a'', ''b'']" "[''a'']" "[''a'']" "[]" empty_nodes]
  by (simp add: bset_wf_def less_char_def char_code_def compute_selection_override_stats_def Let_def)

text \<open>A reconciliation is clean exactly when the ids a run reports, sources, ephemeral models and
  operations apart, are the supplied ids that a run reports on.\<close>

theorem reconcile_clean:
  "is_clean (reconcile_reported_nodes supplied reported ns) \<longleftrightarrow>
   {u \<in> set reported. \<not> has_key (sources ns) u \<and> \<not> is_ephemeral_model u ns \<and> is_node_id u} =
   {u \<in> set supplied. case get_node ns u of None \<Rightarrow> True | Some n \<Rightarrow> is_reportable_resource_type (resource_type n)}"
proof -
  let ?r = "filter is_node_id (filter (\<lambda>uid. \<not> has_key (sources ns) uid \<and> \<not> is_ephemeral_model uid ns) reported)"
  have "bs_diff s t = [] \<longleftrightarrow> set s \<subseteq> set t" for s t :: "string list" by (auto simp: bs_diff_def filter_empty_conv)
  then have "is_clean (reconcile_reported_nodes supplied reported ns) \<longleftrightarrow> set ?r = set (retain_reportable supplied ns)"
    unfolding is_clean_def reconcile_reported_nodes_def Let_def by auto
  then show ?thesis by (simp add: retain_reportable_def conj_ac)
qed

end
