(* ===== verification/Schedule.thy ===== *)
theory Schedule imports Selection Selection_Override begin

text \<open>
  The schedule of a run, from \<^verbatim>\<open>crates/dbt-scheduler/src/schedule.rs\<close> and
  \<^verbatim>\<open>crates/dbt-dag/src/schedule.rs\<close>: the dependency graph of the nodes, the filters between a selection
  and the nodes that run, the frontier, the diagnostics of cycles, and the changes for sidecar and
  local execution. What the code logs is a list of \<open>emission\<close>s.
\<close>

section \<open>Arguments and results\<close>

datatype FsCommand = Unset | Init | Deps | Parse | ListNodes | Compile | CheckCommand | Run | RunOperation
  | Test | SeedCommand | SnapshotCommand | Show | Build | Clean | SourceCommand | Freshness | Clone
  | System | Man | Login | Debug | Retry | Docs | StateCommand | Completions | Internal
  | Extension string

datatype ClapResourceType = RtModel | RtSource | RtSeed | RtSnapshot | RtTest | RtUnitTest | RtAnalysis
  | RtFunction | RtSemanticModel | RtMetric | RtSavedQuery | RtCheck | RtExposure | RtExperimental
  | RtAll | RtDefault

definition all_resource_types :: "ClapResourceType list" where
  "all_resource_types = [RtModel, RtSource, RtSeed, RtSnapshot, RtTest, RtUnitTest, RtAnalysis, RtFunction,
     RtSemanticModel, RtMetric, RtSavedQuery, RtCheck, RtExposure, RtExperimental]"

fun resolve_resource_types :: "ClapResourceType list \<Rightarrow> ClapResourceType list \<Rightarrow> ClapResourceType list" where
  "resolve_resource_types [] defaults = []"
| "resolve_resource_types (t # ts) defaults =
     (case t of RtAll \<Rightarrow> all_resource_types | RtDefault \<Rightarrow> defaults | _ \<Rightarrow> [t]) @ resolve_resource_types ts defaults"

fun show_resource_type :: "ClapResourceType \<Rightarrow> string" where
  "show_resource_type RtModel = ''model''"
| "show_resource_type RtSource = ''source''"
| "show_resource_type RtSeed = ''seed''"
| "show_resource_type RtSnapshot = ''snapshot''"
| "show_resource_type RtTest = ''test''"
| "show_resource_type RtUnitTest = ''unit_test''"
| "show_resource_type RtAnalysis = ''analysis''"
| "show_resource_type RtFunction = ''function''"
| "show_resource_type RtSemanticModel = ''semantic_model''"
| "show_resource_type RtMetric = ''metric''"
| "show_resource_type RtSavedQuery = ''saved_query''"
| "show_resource_type RtCheck = ''check''"
| "show_resource_type RtExposure = ''exposure''"
| "show_resource_type RtExperimental = ''experimental''"
| "show_resource_type RtAll = ''all''"
| "show_resource_type RtDefault = ''default''"

definition resource_node_type :: "ClapResourceType \<Rightarrow> NodeType fs_result" where
  "resource_node_type t =
     (case t of
        RtModel \<Rightarrow> Inr Model | RtSource \<Rightarrow> Inr SourceNode | RtSeed \<Rightarrow> Inr Seed | RtSnapshot \<Rightarrow> Inr Snapshot
      | RtTest \<Rightarrow> Inr TestNode | RtUnitTest \<Rightarrow> Inr UnitTestNode | RtAnalysis \<Rightarrow> Inr Analysis
      | RtFunction \<Rightarrow> Inr FunctionNode | RtSemanticModel \<Rightarrow> Inr SemanticModelNode | RtMetric \<Rightarrow> Inr MetricNode
      | RtSavedQuery \<Rightarrow> Inr SavedQueryNode | RtCheck \<Rightarrow> Inr Check | RtExposure \<Rightarrow> Inr ExposureNode
      | RtExperimental \<Rightarrow> Inr Experimental
      | _ \<Rightarrow> Inl (Panic (show_resource_type t @
          '' is not a NodeType; expand `all`/`default` with ClapResourceType::resolve first'')))"

record SchedulerArgs =
  command :: FsCommand
  resource_types :: "ClapResourceType list"
  exclude_resource_types :: "ClapResourceType list"
  exclude_unique_ids :: "string list"
  selection_override :: "SelectionOverride option"

record ResolvedSelector =
  sel_include :: "SelectExpression option"
  sel_excluded :: "SelectExpression option"
  selector_definitions :: "(string \<times> SelectExpression) list"

record Schedule =
  sched_deps :: "string deps"
  sorted_nodes :: "string list"
  all_selected_nodes :: "string bset"
  selected_nodes :: "string bset"
  frontier_nodes :: "string bset"
  overlapping_sources :: "string bset"
  sched_select :: "SelectExpression option"
  sched_exclude :: "SelectExpression option"

datatype emission = InfoMessage string | WarnMessage error_code string | ErrorMessage error_code "location option" string

section \<open>The dependency graph\<close>

text \<open>\<open>cancelled k\<close> is the answer of the cancellation token when it is asked for the k-th time.\<close>

definition check_cancellation :: "(nat \<Rightarrow> bool) \<Rightarrow> nat \<Rightarrow> unit fs_result" where
  "check_cancellation cancelled k = (if cancelled k then Inl (Err OperationCanceled ''Operation cancelled'') else Inr ())"

text \<open>
  The dependencies of one node, each of which must be a node. The error of the code also carries the
  location of the reference, when there is one.
\<close>

fun node_dependencies :: "nodes \<Rightarrow> string \<Rightarrow> string list \<Rightarrow> string bset \<Rightarrow> string bset fs_result" where
  "node_dependencies ns uid [] acc = Inr acc"
| "node_dependencies ns uid (dep # ds) acc =
     (if \<not> contains ns dep
      then Inl (Err DependencyNotFound (''Dependency '' @ dep @ '' not found for node '' @ uid))
      else node_dependencies ns uid ds (bs_insert dep acc))"

fun collect_deps ::
    "nodes \<Rightarrow> (nat \<Rightarrow> bool) \<Rightarrow> nat \<Rightarrow> (string \<times> node) list \<Rightarrow> string deps \<Rightarrow> string deps fs_result" where
  "collect_deps ns cancelled k [] d = Inr d"
| "collect_deps ns cancelled k ((uid, n) # rest) d =
     rbind (check_cancellation cancelled k) (\<lambda>_.
       rbind (node_dependencies ns uid (depends_on n) []) (\<lambda>dependencies.
         collect_deps ns cancelled (k + 1) rest (bm_insert uid dependencies d)))"

definition derive_deps :: "nodes \<Rightarrow> (nat \<Rightarrow> bool) \<Rightarrow> string deps fs_result" where
  "derive_deps ns cancelled = rmap ensure_all_nodes_defined (collect_deps ns cancelled 1 (iter ns) [])"

section \<open>From a selection to the nodes that run\<close>

text \<open>A test is dropped when one of its dependencies is excluded.\<close>

definition keeps_test :: "nodes \<Rightarrow> string bset \<Rightarrow> string list \<Rightarrow> string \<Rightarrow> bool" where
  "keeps_test ns excluded excluded_ids uid =
     (if \<not> has_key (tests ns) uid \<and> \<not> has_key (unit_tests ns) uid then True
      else (case map_of (tests ns) uid of
              Some test \<Rightarrow> \<not> list_ex (\<lambda>dep. dep \<in> set excluded \<or> dep \<in> set excluded_ids) (depends_on test)
            | None \<Rightarrow>
                (case map_of (unit_tests ns) uid of
                   Some unit_test \<Rightarrow>
                     \<not> list_ex (\<lambda>dep. dep \<in> set excluded \<or> dep \<in> set excluded_ids) (depends_on unit_test)
                 | None \<Rightarrow> True)))"

definition keeps_type :: "nodes \<Rightarrow> NodeType list \<Rightarrow> NodeType list \<Rightarrow> string \<Rightarrow> bool" where
  "keeps_type ns include_types exclude_types uid =
     (case get_node ns uid of
        Some n \<Rightarrow>
          if resource_type n \<in> set exclude_types then False
          else if include_types \<noteq> [] then resource_type n \<in> set include_types
          else True
      | None \<Rightarrow> False)"

definition retain_types :: "nodes \<Rightarrow> SchedulerArgs \<Rightarrow> string bset \<Rightarrow> string bset fs_result" where
  "retain_types ns args chosen =
     (if resource_types args \<noteq> [] \<or> exclude_resource_types args \<noteq> []
      then rbind (collect_results resource_node_type (resource_types args)) (\<lambda>include_types.
           rmap (\<lambda>exclude_types. filter (keeps_type ns include_types exclude_types) chosen)
             (collect_results resource_node_type (exclude_resource_types args)))
      else Inr chosen)"

definition retain_schedulable :: "(string \<Rightarrow> string) \<Rightarrow> nodes \<Rightarrow> SchedulerArgs \<Rightarrow> string bset \<Rightarrow> string bset" where
  "retain_schedulable sha256_hex ns args chosen =
     (let chosen = (if command args = Compile then filter (\<lambda>uid. \<not> has_key (unit_tests ns) uid) chosen else chosen);
          empty_checksum = checksum_hash sha256_hex [];
          chosen = filter (\<lambda>uid. case map_of (models ns) uid of
             Some m \<Rightarrow> \<not> checksum_eq (checksum m) empty_checksum | None \<Rightarrow> True) chosen
      in filter (\<lambda>uid. \<not> (case get_node ns uid of
             Some n \<Rightarrow> resource_type n \<in> {TestNode, UnitTestNode} \<and> \<not> enabled n | None \<Rightarrow> False)) chosen)"

text \<open>
  Each nested call takes one stack frame; a run with none left overflows the stack. The recursion
  ends on its own only when no ephemeral model is upstream of itself.
\<close>

function collect_ephemeral_upstream ::
    "nat \<Rightarrow> string deps \<Rightarrow> nodes \<Rightarrow> string \<Rightarrow> string bset \<Rightarrow> string bset fs_result"
  and ephemeral_of_unit_test ::
    "nat \<Rightarrow> string deps \<Rightarrow> nodes \<Rightarrow> string list \<Rightarrow> string bset \<Rightarrow> string bset fs_result"
  and ephemeral_of_deps ::
    "nat \<Rightarrow> string deps \<Rightarrow> nodes \<Rightarrow> string list \<Rightarrow> string bset \<Rightarrow> string bset fs_result" where
  "collect_ephemeral_upstream 0 d ns uid acc = Inl (Panic ''stack overflow'')"
| "collect_ephemeral_upstream (Suc frames) d ns uid acc =
     rbind (case map_of (unit_tests ns) uid of
              Some unit_test \<Rightarrow> ephemeral_of_unit_test frames d ns (depends_on unit_test) acc
            | None \<Rightarrow> Inr acc)
       (\<lambda>acc. ephemeral_of_deps frames d ns (succs d uid) acc)"
| "ephemeral_of_unit_test frames d ns [] acc = Inr acc"
| "ephemeral_of_unit_test frames d ns (dep # ds) acc =
     rbind (collect_ephemeral_upstream frames d ns dep acc) (\<lambda>acc. ephemeral_of_unit_test frames d ns ds acc)"
| "ephemeral_of_deps frames d ns [] acc = Inr acc"
| "ephemeral_of_deps frames d ns (dep # ds) acc =
     (if (case get_node ns dep of Some n \<Rightarrow> materialized n = Ephemeral | None \<Rightarrow> False)
      then rbind (collect_ephemeral_upstream frames d ns dep (bs_insert dep acc)) (\<lambda>acc. ephemeral_of_deps frames d ns ds acc)
      else ephemeral_of_deps frames d ns ds acc)"
  by pat_completeness auto
termination
  by (relation "measures
    [\<lambda>x. case x of Inl (frames, _) \<Rightarrow> frames | Inr (Inl (frames, _)) \<Rightarrow> frames | Inr (Inr (frames, _)) \<Rightarrow> frames,
     \<lambda>x. case x of Inl _ \<Rightarrow> 0 | Inr (Inl (_, _, _, ds, _)) \<Rightarrow> Suc (length ds) | Inr (Inr (_, _, _, ds, _)) \<Rightarrow> Suc (length ds)]")
    auto

fun collect_ephemeral :: "nat \<Rightarrow> string deps \<Rightarrow> nodes \<Rightarrow> string list \<Rightarrow> string bset \<Rightarrow> string bset fs_result" where
  "collect_ephemeral frames d ns [] acc = Inr acc"
| "collect_ephemeral frames d ns (uid # uids) acc =
     rbind (collect_ephemeral_upstream frames d ns uid acc) (\<lambda>acc. collect_ephemeral frames d ns uids acc)"

section \<open>The frontier\<close>

definition frontier_of_unit_test :: "string bset \<Rightarrow> string deps \<Rightarrow> string \<Rightarrow> string bset \<Rightarrow> string bset" where
  "frontier_of_unit_test chosen d dependency frontier =
     fold (\<lambda>dep_dep f. if dep_dep \<in> set chosen then f else bs_insert dep_dep f) (succs d dependency) frontier"

definition frontier_of_deps :: "string bset \<Rightarrow> string bset \<Rightarrow> string bset \<Rightarrow> string bset" where
  "frontier_of_deps chosen node_deps frontier =
     fold (\<lambda>dependency f.
        if dependency \<in> set chosen then f
        else if starts_with dependency ''metric.'' \<or> starts_with dependency ''semantic_model.'' then f
        else bs_insert dependency f) node_deps frontier"

fun frontier_loop :: "string bset \<Rightarrow> string deps \<Rightarrow> string list \<Rightarrow> string bset \<Rightarrow> string bset fs_result" where
  "frontier_loop chosen d [] frontier = Inr frontier"
| "frontier_loop chosen d (uid # uids) frontier =
     (case map_of d uid of
        None \<Rightarrow> frontier_loop chosen d uids frontier
      | Some node_deps \<Rightarrow>
          rbind (if starts_with uid ''unit_test.''
                 then (case node_deps of
                         [] \<Rightarrow> unwrap_none
                       | dependency # _ \<Rightarrow> Inr (frontier_of_unit_test chosen d dependency frontier))
                 else Inr frontier)
            (\<lambda>frontier. frontier_loop chosen d uids (frontier_of_deps chosen node_deps frontier)))"

definition get_frontier_nodes :: "string bset \<Rightarrow> string deps \<Rightarrow> string bset fs_result" where
  "get_frontier_nodes chosen d = frontier_loop chosen d chosen []"

section \<open>Diagnostics of cycles\<close>

definition cycle_edge_errors :: "nodes \<Rightarrow> nat \<Rightarrow> string \<Rightarrow> string \<Rightarrow> emission list" where
  "cycle_edge_errors ns i source target =
     (case get_node ns source of
        None \<Rightarrow> []
      | Some n \<Rightarrow>
          map (\<lambda>(_, loc). ErrorMessage CyclicDependency (Some loc)
              (''   Cycle '' @ show_nat (i + 1) @ '':  ['' @ source @ ''] depends on ['' @ target @ '']''))
            (filter (\<lambda>(dep, _). dep = target) (ref_locations n)))"

definition cycle_errors :: "nodes \<Rightarrow> nat \<times> string list \<Rightarrow> emission list" where
  "cycle_errors ns =
     (\<lambda>(i, cycle).
        ErrorMessage CyclicDependency None
          (''Cycle detected: '' @ join '' -> '' (map (\<lambda>n. ''['' @ n @ '']'') (cycle @ [hd cycle]))) #
        concat (map (\<lambda>(source, target). cycle_edge_errors ns i source target) (zip cycle (tl cycle))) @
        cycle_edge_errors ns i (last cycle) (hd cycle))"

definition find_cycle_diagnostics :: "string deps \<Rightarrow> nodes \<Rightarrow> emission list" where
  "find_cycle_diagnostics d ns =
     (case find_and_cut_cycles d (\<lambda>_. True) of
        (cycles, _, _) \<Rightarrow> concat (map (cycle_errors ns) (List.enumerate 0 cycles)))"

section \<open>The override and its report\<close>

definition override_report :: "SelectionOverride \<Rightarrow> SelectionOverrideStats \<Rightarrow> emission list" where
  "override_report over stats =
     (let counters = ''Selection replaced by an externally supplied node set from '' @ [CHR 0x27] @
            override_source over @ [CHR 0x27] @ '': '' @
            ''override_active=true injected='' @ show_nat (injected stats) @
            '' matched='' @ show_nat (matched stats) @ '' unmatched='' @ show_nat (unmatched stats) @
            '' fusion_would_select='' @ show_nat (fusion_would_select stats) @
            '' fusion_only='' @ show_nat (fusion_only stats) @
            '' dropped_unschedulable='' @ show_nat (dropped_unschedulable stats);
          warning = counters @
            (if 0 < unmatched stats
             then ''; no node here matches '' @ format_sample (unmatched_sample stats) (unmatched stats) else []) @
            (if 0 < dropped_unschedulable stats
             then ''; cannot be run here '' @
               format_sample (dropped_unschedulable_sample stats) (dropped_unschedulable stats) else []) @
            (if 0 < unmatched stats \<or> 0 < dropped_unschedulable stats
             then ''. Those nodes will not run, so a downstream failure may be an artifact of this '' @
               ''replacement rather than a genuine defect.'' else [])
      in [InfoMessage counters, WarnMessage SelectionOverrideActive warning])"

definition apply_selection_override ::
    "(string \<Rightarrow> string) \<Rightarrow> nodes \<Rightarrow> SchedulerArgs \<Rightarrow> string bset \<Rightarrow>
     string bset \<times> SelectionOverrideStats option \<times> emission list" where
  "apply_selection_override sha256_hex ns args computed =
     (case selection_override args of
        Some over \<Rightarrow>
          (let match_ids = filter (\<lambda>uid. get_node ns uid \<noteq> None) (override_ids over);
               scheduled = retain_schedulable sha256_hex ns args match_ids;
               stats = compute_selection_override_stats (override_ids over) computed match_ids scheduled ns
           in (scheduled, Some stats, override_report over stats))
      | None \<Rightarrow> (retain_schedulable sha256_hex ns args computed, None, []))"

section \<open>Building the schedule\<close>

text \<open>The selection half of \<^verbatim>\<open>schedule_graph\<close>: include, exclude, excluded ids, greedy tests, types.\<close>

definition computed_selection :: "context_data \<Rightarrow> ResolvedSelector \<Rightarrow> SchedulerArgs \<Rightarrow> string bset fs_result" where
  "computed_selection X rs args =
     (let ns = ctx_nodes X in
      rbind (case sel_include rs of
               Some include \<Rightarrow>
                 expand_selector X (if command args = Show then with_indirect_selection Empty include else include)
             | None \<Rightarrow> Inr (bs_of_list (materializable_keys ns)))
        (\<lambda>chosen. rbind (case sel_excluded rs of Some exclude \<Rightarrow> expand_selector X exclude | None \<Rightarrow> Inr [])
          (\<lambda>excluded.
             let chosen = filter (\<lambda>n. \<not> (n \<in> set excluded \<or> n \<in> set (exclude_unique_ids args))) chosen;
                 chosen = (if excluded \<noteq> [] \<or> exclude_unique_ids args \<noteq> []
                           then filter (keeps_test ns excluded (exclude_unique_ids args)) chosen else chosen)
             in retain_types ns args chosen)))"

definition find_overlapping_sources :: "nodes \<Rightarrow> string bset \<Rightarrow> string bset" where
  "find_overlapping_sources ns chosen =
     (let seed_relation_names = List.map_filter (\<lambda>(uid, seed). if uid \<in> set chosen then relation_name seed else None) (seeds ns)
      in fold (\<lambda>(uid, source) overlaps.
           case relation_name source of
             Some r \<Rightarrow> if r \<in> set seed_relation_names then bs_insert uid overlaps else overlaps
           | None \<Rightarrow> overlaps) (sources ns) [])"

text \<open>
  \<^verbatim>\<open>debug_assert_invariants\<close>, which only a debug build runs. The first message ends before the list of
  the common nodes.
\<close>

fun assert_schedulable :: "nodes \<Rightarrow> string list \<Rightarrow> unit fs_result" where
  "assert_schedulable ns [] = Inr ()"
| "assert_schedulable ns (uid # uids) =
     (case get_node ns uid of
        None \<Rightarrow> assert_schedulable ns uids
      | Some n \<Rightarrow>
          if resource_type n = SourceNode
          then Inl (Panic (''Schedule invariant violated: source node '' @ [CHR 0x27] @ uid @ [CHR 0x27] @
            '' is in selected_nodes; sources must be frontier nodes''))
          else if is_extended_model n
          then Inl (Panic (''Schedule invariant violated: external node '' @ [CHR 0x27] @ uid @ [CHR 0x27] @
            '' is in selected_nodes; external nodes must be frontier nodes''))
          else assert_schedulable ns uids)"

definition debug_assert_invariants :: "Schedule \<Rightarrow> nodes \<Rightarrow> unit fs_result" where
  "debug_assert_invariants sched ns =
     (if selected_nodes sched = [] then Inr ()
      else if bs_inter (frontier_nodes sched) (selected_nodes sched) \<noteq> []
      then Inl (Panic ''Schedule invariant violated: frontier_nodes and selected_nodes intersect'')
      else assert_schedulable ns (selected_nodes sched))"

definition is_external :: "nodes \<Rightarrow> string \<Rightarrow> bool" where
  "is_external ns uid \<longleftrightarrow> has_key (sources ns) uid \<or>
     (case get_node ns uid of Some n \<Rightarrow> is_extended_model n | None \<Rightarrow> False)"

text \<open>The rest of \<^verbatim>\<open>schedule_graph\<close>, from the selected nodes on.\<close>

definition assemble_schedule ::
    "nat \<Rightarrow> bool \<Rightarrow> context_data \<Rightarrow> ResolvedSelector \<Rightarrow> SchedulerArgs \<Rightarrow> string bset \<Rightarrow>
     (Schedule \<times> emission list) fs_result" where
  "assemble_schedule frames debug_build X rs args chosen =
     (let ns = ctx_nodes X; d = ctx_deps X;
          filtered = filter (\<lambda>n. \<not> is_external ns n) chosen
      in rbind (if command args \<noteq> ListNodes
                then rmap (bs_extend filtered) (collect_ephemeral frames d ns filtered [])
                else Inr filtered)
         (\<lambda>filtered. rbind (get_frontier_nodes filtered d)
            (\<lambda>frontier. rbind (topological_sort (restrict_with_transitive d filtered))
               (\<lambda>sorted.
                  let selected_deps = restrict_with_transitive d filtered;
                      sched = \<lparr>sched_deps = restrict_with_transitive d (bs_extend filtered frontier),
                        sorted_nodes = sorted @ frontier, all_selected_nodes = chosen,
                        selected_nodes = filtered, frontier_nodes = frontier,
                        overlapping_sources = find_overlapping_sources ns filtered,
                        sched_select = sel_include rs, sched_exclude = sel_excluded rs\<rparr>
                  in rmap (\<lambda>_. (sched, find_cycle_diagnostics selected_deps ns))
                       (if debug_build then debug_assert_invariants sched ns else Inr ())))))"

definition schedule_graph ::
    "nat \<Rightarrow> bool \<Rightarrow> (string \<Rightarrow> string) \<Rightarrow> context_data \<Rightarrow> ResolvedSelector \<Rightarrow> SchedulerArgs \<Rightarrow>
     (Schedule \<times> SelectionOverrideStats option \<times> emission list) fs_result" where
  "schedule_graph frames debug_build sha256_hex X rs args =
     rbind (computed_selection X rs args) (\<lambda>computed.
       case apply_selection_override sha256_hex (ctx_nodes X) args computed of
         (chosen, stats, report) \<Rightarrow>
           rmap (\<lambda>(sched, diagnostics). (sched, stats, report @ diagnostics))
             (assemble_schedule frames debug_build X rs args chosen))"

definition build_schedule ::
    "nat \<Rightarrow> bool \<Rightarrow> (string \<Rightarrow> string) \<Rightarrow> env \<Rightarrow> (nat \<Rightarrow> bool) \<Rightarrow> SchedulerArgs \<Rightarrow> nodes \<Rightarrow> artifacts option \<Rightarrow>
     ResolvedSelector \<Rightarrow> state_selector_results option \<Rightarrow> (Schedule \<times> emission list) fs_result" where
  "build_schedule frames debug_build sha256_hex E cancelled args ns previous rs results =
     rbind (check_cancellation cancelled 0) (\<lambda>_. rbind (derive_deps ns cancelled) (\<lambda>d.
       let include = map_option convert_column_selectors_to_fqn (sel_include rs);
           exclude = map_option convert_column_selectors_to_fqn (sel_excluded rs);
           converted = \<lparr>sel_include = map_option fst include, sel_excluded = map_option fst exclude,
             selector_definitions = selector_definitions rs\<rparr>;
           had_columns = (map_option snd include = Some True \<or> map_option snd exclude = Some True);
           warnings = (if had_columns
             then [WarnMessage InvalidColumnSelector
               ''Column selectors are unsupported at runtime; use node-level selection instead.''] else []);
           X = \<lparr>ctx_env = E, ctx_deps = d, ctx_nodes = ns, ctx_previous = previous, ctx_results = results,
             ctx_selectors = selector_definitions rs\<rparr>
       in rmap (\<lambda>(sched, _, ems). (sched, warnings @ ems))
            (schedule_graph frames debug_build sha256_hex X converted args)))"

text \<open>The statistics of the scheduled nodes that have any, in schedule order.\<close>

definition summarize_stats :: "Schedule \<Rightarrow> (string \<Rightarrow> 's option) \<Rightarrow> 's list" where
  "summarize_stats sched stats = List.map_filter stats (sorted_nodes sched)"

end
