(* ===== verification/Selector_Yaml.thy ===== *)
theory Selector_Yaml imports Schedule begin

text \<open>
  Selectors of the selector file: the tree of \<^verbatim>\<open>crates/dbt-schemas/src/schemas/selectors.rs\<close>, its
  translation to expressions (\<^verbatim>\<open>crates/dbt-selector-parser/src/parser.rs\<close>), and the choice between
  selectors and command line with the rendering for the manifest
  (\<^verbatim>\<open>crates/dbt-parser/src/resolve/resolve_selectors.rs\<close>). The tree is what reading the file gives.
\<close>

section \<open>The tree\<close>

datatype SelectorMethodValue = ScalarValue string | UnsupportedValue string

definition scalar :: "SelectorMethodValue \<Rightarrow> string option" where
  "scalar v = (case v of ScalarValue s \<Rightarrow> Some s | UnsupportedValue _ \<Rightarrow> None)"

datatype SelectorDefinitionValue = StringDef string | FullDef SelectorExpr
  | ArrayDef "SelectorDefinitionValue list"
and SelectorExpr = CompositeExpr CompositeExpr | AtomExpr AtomExpr
and CompositeExpr = Composite
  (comp_union: "SelectorDefinitionValue list option")
  (comp_intersection: "SelectorDefinitionValue list option")
  (comp_exclude: "SelectorDefinitionValue list option")
and AtomExpr = MethodAtom MethodAtomExpr | ExcludeAtom "SelectorDefinitionValue list"
  | MethodKey "(string \<times> SelectorMethodValue) list"
and MethodAtomExpr = MethodAtomExpr
  (at_method: string)
  (at_value: SelectorMethodValue)
  (at_childrens_parents: bool)
  (at_parents: bool)
  (at_children: bool)
  (at_parents_depth: "nat option")
  (at_children_depth: "nat option")
  (at_indirect_selection: "IndirectSelection option")
  (at_exclude: "SelectorDefinitionValue list option")

record SelectorDefinition =
  def_name :: string
  def_description :: "string option"
  def_default :: "bool option"
  def_definition :: SelectorDefinitionValue

section \<open>Translation to expressions\<close>

text \<open>\<open>split_on\<close> never yields an empty list, so the first part exists.\<close>

definition split_method :: "string \<Rightarrow> SelectorMethodValue \<Rightarrow> MethodName \<times> string list" where
  "split_method m value =
     (let parts = split_on (CHR ''.'') m
      in (case method_from_str (hd parts) of
            Some mn \<Rightarrow> mn
          | None \<Rightarrow> default_for (case scalar value of Some v \<Rightarrow> v | None \<Rightarrow> []),
          tl parts))"

definition to_selection_value :: "SelectorMethodValue \<Rightarrow> SelectionValue" where
  "to_selection_value value = (case value of ScalarValue v \<Rightarrow> Scalar v | UnsupportedValue y \<Rightarrow> Unsupported y)"

text \<open>One expression for a list of them; an empty list is the caller's.\<close>

definition any_of :: "SelectExpression list \<Rightarrow> SelectExpression" where
  "any_of exprs = (case exprs of [e] \<Rightarrow> e | _ \<Rightarrow> Or exprs)"

definition empty_exclude_list :: "'a fs_result" where
  "empty_exclude_list = Inl (Err SelectorError ''Empty exclude list'')"

text \<open>Steps 1, 2 and 4 of a method atom, once its nested exclude expression is there.\<close>

definition method_to_expression :: "MethodAtomExpr \<Rightarrow> SelectExpression option \<Rightarrow> SelectExpression" where
  "method_to_expression a exclude_expr =
     (case split_method (at_method a) (at_value a) of (mn, args) \<Rightarrow>
        Atom (Criteria mn args (to_selection_value (at_value a)) (at_childrens_parents a)
          (if at_parents a \<and> at_parents_depth a = None then Some u32_max else at_parents_depth a)
          (if at_children a \<and> at_children_depth a = None then Some u32_max else at_children_depth a)
          (at_indirect_selection a) exclude_expr))"

definition method_key_atom :: "string \<Rightarrow> SelectorMethodValue \<Rightarrow> MethodAtomExpr" where
  "method_key_atom m v = MethodAtomExpr m v False False False None None (Some Eager) None"

definition exclude_block :: "SelectorDefinitionValue \<Rightarrow> SelectorDefinitionValue list option" where
  "exclude_block v = (case v of FullDef (AtomExpr (ExcludeAtom ds)) \<Rightarrow> Some ds | _ \<Rightarrow> None)"

text \<open>The message has a dash, written as two hyphens here.\<close>

definition composite_values :: "CompositeExpr \<Rightarrow> (bool \<times> SelectorDefinitionValue list) fs_result" where
  "composite_values c =
     (case (comp_union c, comp_intersection c) of
        (Some vals, None) \<Rightarrow> Inr (True, vals)
      | (None, Some vals) \<Rightarrow> Inr (False, vals)
      | (Some _, Some _) \<Rightarrow> Inl (Err SelectorError
          ''selector definition has both union and intersection -- use one'')
      | (None, None) \<Rightarrow> Inl (Err SelectorError ''selector definition is missing union or intersection''))"

text \<open>The include expression and the exclude expressions of a composite, put together.\<close>

definition combine_composite :: "bool \<Rightarrow> SelectExpression list \<Rightarrow> SelectExpression list \<Rightarrow> SelectExpression" where
  "combine_composite is_union includes excludes =
     (let include_expr = (if is_union then Or includes else And includes)
      in if excludes \<noteq> [] then And [include_expr, Exclude (any_of excludes)] else include_expr)"

definition keep_left :: "('a + 'b) list \<Rightarrow> 'a list" where
  "keep_left xs = List.map_filter (\<lambda>x. case x of Inl a \<Rightarrow> Some a | Inr _ \<Rightarrow> None) xs"

definition keep_right :: "('a + 'b) list \<Rightarrow> 'b list" where
  "keep_right xs = List.map_filter (\<lambda>x. case x of Inl _ \<Rightarrow> None | Inr b \<Rightarrow> Some b) xs"

text \<open>The sizes that the translation of nested definitions goes down.\<close>

lemma size_in_definitions: "v \<in> set vs \<Longrightarrow> size v < Suc (size_list size vs)"
  for v :: SelectorDefinitionValue
  by (simp add: less_Suc_eq_le size_list_estimation')

lemma size_composite:
  assumes "composite_values c = Inr (is_union, vs) \<or> comp_exclude c = Some vs" and "v \<in> set vs"
  shows "size v < size c"
proof -
  have "size_list size vs < size c"
    using assms(1) by (cases c) (auto simp: composite_values_def split: option.splits)
  then show ?thesis using size_in_definitions [OF assms(2)] by simp
qed

lemma size_exclude_block: "exclude_block v = Some ds \<Longrightarrow> d \<in> set ds \<Longrightarrow> size d < size v"
  using size_in_definitions [of d ds]
  by (auto simp: exclude_block_def split: SelectorDefinitionValue.splits SelectorExpr.splits AtomExpr.splits)

lemma size_at_exclude: "at_exclude a = Some vs \<Longrightarrow> v \<in> set vs \<Longrightarrow> size v < size a"
  using size_in_definitions [of v vs] by (cases a) simp

text \<open>
  \<^verbatim>\<open>parse_definition\<close>, \<^verbatim>\<open>parse_expr\<close>, \<^verbatim>\<open>parse_composite\<close>, \<^verbatim>\<open>parse_atom\<close> and
  \<^verbatim>\<open>atom_to_select_expression\<close>. A member of a composite that is an exclude atom goes to its excludes.
\<close>

function parse_definition :: "SelectorDefinitionValue \<Rightarrow> SelectExpression fs_result"
  and parse_member :: "SelectorDefinitionValue \<Rightarrow> (SelectExpression + SelectExpression) fs_result"
  and parse_expr :: "SelectorExpr \<Rightarrow> SelectExpression fs_result"
  and parse_composite :: "CompositeExpr \<Rightarrow> SelectExpression fs_result"
  and parse_atom :: "AtomExpr \<Rightarrow> SelectExpression fs_result"
  and atom_to_select_expression :: "AtomExpr \<Rightarrow> SelectExpression fs_result" where
  "parse_definition (StringDef s) = parse_model_specifiers [s]"
| "parse_definition (FullDef e) = parse_expr e"
| "parse_definition (ArrayDef items) = rmap Or (collect_results parse_definition items)"
| "parse_member v =
     (case exclude_block v of
        Some ds \<Rightarrow>
          rbind (collect_results parse_definition ds)
            (\<lambda>exprs. if exprs = [] then empty_exclude_list else Inr (Inr (any_of exprs)))
      | None \<Rightarrow> rmap Inl (parse_definition v))"
| "parse_expr (CompositeExpr c) = parse_composite c"
| "parse_expr (AtomExpr a) = parse_atom a"
| "parse_composite c =
     rbind (composite_values c) (\<lambda>(is_union, values).
       rbind (collect_results parse_member values) (\<lambda>members.
         rmap (\<lambda>top. combine_composite is_union (keep_left members) (keep_right members @ top))
           (case comp_exclude c of
              Some ds \<Rightarrow> if ds = [] then Inr []
                else rmap (\<lambda>exprs. [any_of exprs]) (collect_results parse_definition ds)
            | None \<Rightarrow> Inr [])))"
| "parse_atom (MethodAtom a) = atom_to_select_expression (MethodAtom a)"
| "parse_atom (MethodKey kvs) =
     (case kvs of
        [(m, v)] \<Rightarrow> Inr (method_to_expression (method_key_atom m v) None)
      | _ \<Rightarrow> Inl (Err SelectorError ''MethodKey must have exactly one key-value pair''))"
| "parse_atom (ExcludeAtom ds) = Inl (Err SelectorError ''Top level exclude not allowed in YAML selectors'')"
| "atom_to_select_expression (MethodAtom a) =
     rmap (method_to_expression a)
       (case at_exclude a of
          Some ds \<Rightarrow> rmap (\<lambda>exprs. if exprs = [] then None else Some (any_of exprs)) (collect_results parse_definition ds)
        | None \<Rightarrow> Inr None)"
| "atom_to_select_expression (MethodKey kvs) =
     (case kvs of
        (m, v) # _ \<Rightarrow> Inr (method_to_expression (method_key_atom m v) None)
      | [] \<Rightarrow> Inl (Panic ''called `Option::unwrap()` on a `None` value''))"
| "atom_to_select_expression (ExcludeAtom ds) =
     rbind (collect_results parse_definition ds)
       (\<lambda>exprs. if exprs = [] then empty_exclude_list else Inr (Exclude (any_of exprs)))"
  by pat_completeness auto
termination
  by (relation "measure (\<lambda>x. case x of
      Inl (Inl v) \<Rightarrow> 2 * size v | Inl (Inr (Inl v)) \<Rightarrow> Suc (2 * size v)
    | Inl (Inr (Inr e)) \<Rightarrow> Suc (2 * size e) | Inr (Inl c) \<Rightarrow> 2 * size c
    | Inr (Inr (Inl a)) \<Rightarrow> Suc (2 * size a) | Inr (Inr (Inr a)) \<Rightarrow> 2 * size a)")
    (auto dest: size_in_definitions size_at_exclude size_exclude_block dest!: size_composite [OF disjI1] size_composite [OF disjI2])

definition parse_named :: "(string, SelectorDefinition) bmap \<Rightarrow> string \<Rightarrow> SelectExpression fs_result" where
  "parse_named defs n =
     (case map_of defs n of
        Some d \<Rightarrow> parse_definition (def_definition d)
      | None \<Rightarrow> Inl (Err SelectorError (''Unknown selector `'' @ n @ ''`'')))"

section \<open>Selectors and the command line\<close>

record SelectorEntry =
  entry_include :: SelectExpression
  is_default :: bool
  entry_description :: "string option"
  entry_definition :: SelectorDefinitionValue

text \<open>
  The hash map of entries is given by its ordered entries; a later definition of a name replaces an
  earlier one.
\<close>

fun resolve_selector_definitions ::
    "SelectorDefinition list \<Rightarrow> (string, SelectorEntry) bmap \<Rightarrow> (string, SelectorEntry) bmap fs_result" where
  "resolve_selector_definitions [] acc = Inr acc"
| "resolve_selector_definitions (d # ds) acc =
     rbind (parse_definition (def_definition d)) (\<lambda>resolved.
       resolve_selector_definitions ds (bm_insert (def_name d)
         \<lparr>entry_include = resolved, is_default = (case def_default d of Some b \<Rightarrow> b | None \<Rightarrow> False),
          entry_description = def_description d, entry_definition = def_definition d\<rparr> acc))"

definition validate_default_selectors :: "(string, SelectorEntry) bmap \<Rightarrow> unit fs_result" where
  "validate_default_selectors entries =
     (if 1 < length (filter (\<lambda>(_, e). is_default e) entries)
      then Inl (Err SelectorError ''Multiple selectors have `default: true`'') else Inr ())"

text \<open>The part of the resolve arguments that decides the selection.\<close>

record ResolveArgs =
  arg_selector :: "string option"
  arg_select :: "SelectExpression option"
  arg_exclude :: "SelectExpression option"
  arg_indirect_selection :: "IndirectSelection option"

definition resolve_final_selectors ::
    "(string, SelectorEntry) bmap \<Rightarrow> ResolveArgs \<Rightarrow> ResolvedSelector fs_result" where
  "resolve_final_selectors entries arg =
     rbind (validate_default_selectors entries) (\<lambda>_.
       let definitions = map (\<lambda>(n, e). (n, entry_include e)) entries;
           default_sel_name = map_option fst (find (\<lambda>(_, e). is_default e \<and>
             \<not> (arg_select arg \<noteq> None \<or> arg_exclude arg \<noteq> None)) entries)
       in (case or_else (arg_selector arg) default_sel_name of
             Some sel_name \<Rightarrow>
               (case map_of entries sel_name of
                  None \<Rightarrow> Inl (Err SelectorError (''Unknown selector `'' @ sel_name @ ''` (see selectors.yml)''))
                | Some entry \<Rightarrow>
                    let adjust = (case arg_indirect_selection arg of
                          Some cli_mode \<Rightarrow> set_indirect_selection cli_mode | None \<Rightarrow> (\<lambda>e. e))
                    in Inr \<lparr>sel_include = Some (adjust (entry_include entry)),
                            sel_excluded = map_option adjust (arg_exclude arg),
                            selector_definitions = definitions\<rparr>)
           | None \<Rightarrow>
               let default_mode = (case arg_indirect_selection arg of Some m \<Rightarrow> m | None \<Rightarrow> Eager)
               in Inr \<lparr>sel_include = map_option (apply_default_indirect_selection default_mode) (arg_select arg),
                       sel_excluded = map_option (apply_default_indirect_selection default_mode) (arg_exclude arg),
                       selector_definitions = definitions\<rparr>))"

section \<open>Rendering for the manifest\<close>

text \<open>\<open>unsupported\<close> is the YAML value that an unsupported method argument stands for.\<close>

definition selector_value_to_yaml :: "(string \<Rightarrow> yaml) \<Rightarrow> SelectorMethodValue \<Rightarrow> yaml" where
  "selector_value_to_yaml unsupported v =
     (case v of ScalarValue s \<Rightarrow> YString s | UnsupportedValue y \<Rightarrow> unsupported y)"

definition show_indirect :: "IndirectSelection \<Rightarrow> string" where
  "show_indirect m = (case m of Eager \<Rightarrow> ''eager'' | Buildable \<Rightarrow> ''buildable'' | Cautious \<Rightarrow> ''cautious'' | Empty \<Rightarrow> ''empty'')"

definition method_value_entries :: "string \<Rightarrow> yaml \<Rightarrow> (string \<times> yaml) list" where
  "method_value_entries m v = [(''method'', YString m), (''value'', v)]"

definition method_atom_entries :: "(string \<Rightarrow> yaml) \<Rightarrow> MethodAtomExpr \<Rightarrow> (string \<times> yaml) list" where
  "method_atom_entries unsupported a =
     method_value_entries (at_method a) (selector_value_to_yaml unsupported (at_value a)) @
     (if at_parents a \<or> at_parents_depth a \<noteq> None then [(''parents'', YBool True)] else []) @
     (case at_parents_depth a of Some depth \<Rightarrow> [(''parents_depth'', YString (show_nat depth))] | None \<Rightarrow> []) @
     (if at_children a \<or> at_children_depth a \<noteq> None then [(''children'', YBool True)] else []) @
     (case at_children_depth a of Some depth \<Rightarrow> [(''children_depth'', YString (show_nat depth))] | None \<Rightarrow> []) @
     (if at_childrens_parents a then [(''childrens_parents'', YBool True)] else []) @
     (case at_indirect_selection a of Some m \<Rightarrow> [(''indirect_selection'', YString (show_indirect m))] | None \<Rightarrow> [])"

text \<open>\<^verbatim>\<open>select_expression_to_yaml\<close>; an unlimited depth is not printed.\<close>

definition depth_entries :: "string \<Rightarrow> string \<Rightarrow> nat option \<Rightarrow> (string \<times> yaml) list" where
  "depth_entries flag key d =
     (case d of
        None \<Rightarrow> []
      | Some depth \<Rightarrow> (flag, YBool True) # (if depth \<noteq> u32_max then [(key, YString (show_nat depth))] else []))"

fun select_expression_to_yaml :: "(string \<Rightarrow> yaml) \<Rightarrow> SelectExpression \<Rightarrow> yaml" where
  "select_expression_to_yaml unsupported (Atom (Criteria m args v cp pd cd i ex)) =
     YMapping
       ([(''method'', YString (if args = [] then show_method m else show_method m @ ''.'' @ join ''.'' args)),
         (''value'', case v of Scalar s \<Rightarrow> YString s | Unsupported y \<Rightarrow> unsupported y)] @
        depth_entries ''parents'' ''parents_depth'' pd @
        depth_entries ''children'' ''children_depth'' cd @
        (if cp then [(''childrens_parents'', YBool True)] else []) @
        (case ex of Some e \<Rightarrow> [(''exclude'', YSequence [select_expression_to_yaml unsupported e])] | None \<Rightarrow> []))"
| "select_expression_to_yaml unsupported (Or es) =
     YMapping [(''union'', YSequence (map (select_expression_to_yaml unsupported) es))]"
| "select_expression_to_yaml unsupported (And es) =
     YMapping [(''intersection'', YSequence (map (select_expression_to_yaml unsupported) es))]"
| "select_expression_to_yaml unsupported (Exclude e) =
     YMapping [(''exclude'', select_expression_to_yaml unsupported e)]"

function selector_definition_to_yaml :: "(string \<Rightarrow> yaml) \<Rightarrow> SelectorDefinitionValue \<Rightarrow> yaml fs_result"
  and selector_expr_to_yaml :: "(string \<Rightarrow> yaml) \<Rightarrow> SelectorExpr \<Rightarrow> yaml fs_result"
  and selector_composite_to_yaml :: "(string \<Rightarrow> yaml) \<Rightarrow> CompositeExpr \<Rightarrow> yaml fs_result"
  and selector_atom_to_yaml :: "(string \<Rightarrow> yaml) \<Rightarrow> AtomExpr \<Rightarrow> yaml fs_result" where
  "selector_definition_to_yaml unsupported (StringDef s) =
     rmap (select_expression_to_yaml unsupported) (parse_model_specifiers [s])"
| "selector_definition_to_yaml unsupported (FullDef e) = selector_expr_to_yaml unsupported e"
| "selector_definition_to_yaml unsupported (ArrayDef items) =
     rmap (\<lambda>ys. YMapping [(''union'', YSequence ys)]) (collect_results (selector_definition_to_yaml unsupported) items)"
| "selector_expr_to_yaml unsupported (CompositeExpr c) = selector_composite_to_yaml unsupported c"
| "selector_expr_to_yaml unsupported (AtomExpr a) = selector_atom_to_yaml unsupported a"
| "selector_composite_to_yaml unsupported (Composite us ins exs) =
     rbind (case us of Some ds \<Rightarrow> rmap (\<lambda>ys. [(''union'', YSequence ys)])
         (collect_results (selector_definition_to_yaml unsupported) ds) | None \<Rightarrow> Inr [])
       (\<lambda>u. rbind (case ins of Some ds \<Rightarrow> rmap (\<lambda>ys. [(''intersection'', YSequence ys)])
           (collect_results (selector_definition_to_yaml unsupported) ds) | None \<Rightarrow> Inr [])
         (\<lambda>i. rmap (\<lambda>e. YMapping (u @ i @ e))
           (case exs of Some ds \<Rightarrow> rmap (\<lambda>ys. [(''exclude'', YSequence ys)])
             (collect_results (selector_definition_to_yaml unsupported) ds) | None \<Rightarrow> Inr [])))"
| "selector_atom_to_yaml unsupported (MethodAtom a) =
     (case at_exclude a of
        None \<Rightarrow> Inr (YMapping (method_atom_entries unsupported a))
      | Some ds \<Rightarrow> rmap (\<lambda>ys. YMapping (method_atom_entries unsupported a @ [(''exclude'', YSequence ys)]))
          (collect_results (selector_definition_to_yaml unsupported) ds))"
| "selector_atom_to_yaml unsupported (MethodKey kvs) =
     (case kvs of
        [(m, v)] \<Rightarrow> Inr (YMapping (method_value_entries m (selector_value_to_yaml unsupported v)))
      | _ \<Rightarrow> Inl (Err SelectorError ''MethodKey must have exactly one key-value pair''))"
| "selector_atom_to_yaml unsupported (ExcludeAtom ds) =
     rmap (\<lambda>ys. YMapping [(''exclude'', YSequence ys)]) (collect_results (selector_definition_to_yaml unsupported) ds)"
  by pat_completeness auto
termination
  by (relation "measure (\<lambda>x. case x of
      Inl (Inl (_, v)) \<Rightarrow> size v | Inl (Inr (_, e)) \<Rightarrow> size e
    | Inr (Inl (_, c)) \<Rightarrow> size c | Inr (Inr (_, a)) \<Rightarrow> size a)")
    (auto dest: size_in_definitions size_at_exclude)

record DbtSelector =
  sel_name :: string
  sel_description :: string
  sel_definition :: yaml

definition resolve_manifest_selectors ::
    "(string \<Rightarrow> yaml) \<Rightarrow> (string, SelectorEntry) bmap \<Rightarrow> (string, DbtSelector) bmap fs_result" where
  "resolve_manifest_selectors unsupported entries =
     rbind (validate_default_selectors entries) (\<lambda>_.
       collect_results (\<lambda>(n, e). rmap (\<lambda>y. (n, \<lparr>sel_name = n,
           sel_description = (case entry_description e of Some d \<Rightarrow> d | None \<Rightarrow> []), sel_definition = y\<rparr>))
         (selector_definition_to_yaml unsupported (entry_definition e))) entries)"

end
