(* ===== verification/Command_Line.thy ===== *)
theory Command_Line imports Selector_Yaml begin

text \<open>
  The selection flags of the command line and the expressions made of them:
  \<^verbatim>\<open>check_selector\<close> and \<^verbatim>\<open>EvalArgs::set_refined_node_selectors\<close> of
  \<^verbatim>\<open>crates/dbt-common/src/io_args.rs\<close>, \<^verbatim>\<open>CommonArgs::to_eval_args\<close> and
  \<^verbatim>\<open>SourceArgs::to_eval_args\<close> of \<^verbatim>\<open>crates/dbt-clap-core/src/lib.rs\<close>, the selection of
  \<^verbatim>\<open>--dirty\<close> of \<^verbatim>\<open>crates/dbt-metadata/src/partial_parse.rs\<close> as \<^verbatim>\<open>crates/dbt-main/src/dbt_lib.rs\<close>
  applies it, and the fields \<^verbatim>\<open>ResolveArgs::try_from_eval_args\<close> copies.

  The records have the fields that decide the selection. Every command but \<^verbatim>\<open>source\<close> takes the
  selection of \<^verbatim>\<open>CommonArgs::to_eval_args\<close> as it is. What the index on disk says to be dirty is an
  argument: nothing, or the identifiers of a hash set (in any order) and the added files.
\<close>

section \<open>Validation of a flag's values\<close>

text \<open>The argument parser calls this on every value of \<^verbatim>\<open>--select\<close> and \<^verbatim>\<open>--exclude\<close> and ends with the
  rendered error when it fails.\<close>

definition check_selector :: "string \<Rightarrow> string fs_result" where
  "check_selector selector =
     (if list_all (\<lambda>c. c = CHR '','' \<or> is_whitespace c) selector then Inr selector
      else rmap (\<lambda>_. selector) (parse_model_specifiers [selector]))"

section \<open>The selection of the evaluation arguments\<close>

record CommonArgs =
  cli_select :: "string list option"
  cli_exclude :: "string list option"
  cli_selector :: "string option"
  cli_indirect_selection :: "IndirectSelection option"
  cli_dirty :: bool

record EvalArgs =
  eval_selector_name :: "string option"
  eval_select :: "SelectExpression option"
  eval_exclude :: "SelectExpression option"
  eval_indirect_selection :: "IndirectSelection option"

definition flag_expression ::
    "IndirectSelection option \<Rightarrow> string list option \<Rightarrow> SelectExpression option fs_result" where
  "flag_expression mode flag =
     (case flag of
        None \<Rightarrow> Inr None
      | Some selectors \<Rightarrow>
          (case parse_model_specifiers selectors of
             Inl (Err _ _) \<Rightarrow> Inl (Panic [])
           | Inl (Panic msg) \<Rightarrow> Inl (Panic msg)
           | Inr expr \<Rightarrow>
               Inr (Some (case mode of Some m \<Rightarrow> set_indirect_selection m expr | None \<Rightarrow> expr))))"

definition common_eval_args :: "CommonArgs \<Rightarrow> EvalArgs fs_result" where
  "common_eval_args args =
     rbind (flag_expression (cli_indirect_selection args) (cli_select args)) (\<lambda>select_option.
       rbind (flag_expression (cli_indirect_selection args) (cli_exclude args)) (\<lambda>exclude_option.
         Inr \<lparr>eval_selector_name = cli_selector args, eval_select = select_option,
              eval_exclude = exclude_option, eval_indirect_selection = cli_indirect_selection args\<rparr>))"

definition set_refined_node_selectors :: "SelectionCriteria option \<Rightarrow> EvalArgs \<Rightarrow> EvalArgs" where
  "set_refined_node_selectors predicate args =
     (let predicate_expr = map_option Atom predicate;
          args' = args\<lparr>eval_select := conjoin_expression (eval_select args) predicate_expr\<rparr>
      in if eval_exclude args' \<noteq> None
         then args'\<lparr>eval_exclude := conjoin_expression (eval_exclude args') predicate_expr\<rparr>
         else args')"

definition source_predicate :: SelectionCriteria where
  "source_predicate = Criteria ResourceType [] (Scalar ''source'') False None None (Some Eager) None"

definition source_eval_args :: "CommonArgs \<Rightarrow> EvalArgs fs_result" where
  "source_eval_args args = rmap (set_refined_node_selectors (Some source_predicate)) (common_eval_args args)"

text \<open>The \<^verbatim>\<open>source\<close> command, and every other command.\<close>

datatype cli_command = SourceCommand | OtherCommand

definition cli_eval_args :: "cli_command \<Rightarrow> CommonArgs \<Rightarrow> EvalArgs fs_result" where
  "cli_eval_args cmd args =
     (case cmd of SourceCommand \<Rightarrow> source_eval_args args | OtherCommand \<Rightarrow> common_eval_args args)"

section \<open>Dirty files\<close>

definition dirty_atom :: "MethodName \<Rightarrow> string \<Rightarrow> SelectExpression" where
  "dirty_atom method val = Atom (Criteria method [] (Scalar val) False None (Some u32_max) None None)"

definition dirty_select_expression :: "(string list \<times> string list) option \<Rightarrow> SelectExpression option" where
  "dirty_select_expression index =
     (case index of
        None \<Rightarrow> None
      | Some (seed_ids, added_paths) \<Rightarrow>
          let atoms = map (dirty_atom Fqn) (sort seed_ids) @ map (dirty_atom Path) added_paths
          in (case atoms of [] \<Rightarrow> None | [e] \<Rightarrow> Some e | _ \<Rightarrow> Some (Or atoms)))"

definition apply_dirty :: "CommonArgs \<Rightarrow> (string list \<times> string list) option \<Rightarrow> EvalArgs \<Rightarrow> EvalArgs" where
  "apply_dirty args index eval_arg =
     (if cli_dirty args \<and> eval_select eval_arg = None
      then (case dirty_select_expression index of
              Some expr \<Rightarrow> eval_arg\<lparr>eval_select := Some expr\<rparr>
            | None \<Rightarrow> eval_arg)
      else eval_arg)"

definition command_selection ::
    "cli_command \<Rightarrow> CommonArgs \<Rightarrow> (string list \<times> string list) option \<Rightarrow> EvalArgs fs_result" where
  "command_selection cmd args index = rmap (apply_dirty args index) (cli_eval_args cmd args)"

definition try_from_eval_args :: "EvalArgs \<Rightarrow> ResolveArgs" where
  "try_from_eval_args arg =
     \<lparr>arg_selector = eval_selector_name arg, arg_select = eval_select arg, arg_exclude = eval_exclude arg,
      arg_indirect_selection = eval_indirect_selection arg\<rparr>"

end
