(* ===== verification/Selector_Yaml_Correct.thy ===== *)
theory Selector_Yaml_Correct imports Selector_Yaml Selection_Eval begin

text \<open>
  The meaning of a selector file: the set a definition stands for, read off its tree, and that the
  expression the parser builds denotes it.
\<close>

section \<open>The expressions are proper\<close>

lemma proper_operand: "proper e \<Longrightarrow> operand e"
  by (cases e) auto

lemma proper_any_of: "(\<And>e. e \<in> set es \<Longrightarrow> proper e) \<Longrightarrow> proper (any_of es)"
  by (auto simp: any_of_def split: list.splits)

lemma proper_and: "(\<And>e. e \<in> set es \<Longrightarrow> proper e) \<Longrightarrow> proper (And es)"
  by (auto intro: proper_operand split: list.splits)

lemma collect_members:
  "collect_results f xs = Inr ys \<Longrightarrow> y \<in> set ys \<Longrightarrow> \<exists>x \<in> set xs. f x = Inr y"
  unfolding collect_results_Inr by (induction xs ys rule: list_all2_induct) auto

lemma parse_tokens_proper: "parse_tokens ts = Inr es \<Longrightarrow> e \<in> set es \<Longrightarrow> proper e"
proof (induction ts arbitrary: es)
  case (Cons t ts)
  show ?case
  proof (cases "trim t = []")
    case True
    then show ?thesis using Cons by simp
  next
    case False
    then obtain terms where t: "collect_results (\<lambda>piece. rmap Atom (parse_single_selector piece)) (token_pieces t) = Inr terms"
      and rest: "(case collapse And terms of None \<Rightarrow> parse_tokens ts
         | Some inner \<Rightarrow> rmap (\<lambda>es. inner # es) (parse_tokens ts)) = Inr es"
      using Cons.prems(1) by (auto simp: rbind_eq_Inr)
    have atoms: "\<exists>c. x = Atom c" if "x \<in> set terms" for x
      using collect_members [OF t that] by (auto simp: rmap_eq_Inr)
    have "proper inner" if i: "collapse And terms = Some inner" for inner
    proof -
      have "inner \<in> set terms \<or> inner = And terms"
        using i by (auto simp: collapse_def split: list.splits)
      moreover have "proper (And terms)" by (rule proper_and) (use atoms in force)
      ultimately show ?thesis using atoms by force
    qed
    then show ?thesis using Cons.IH Cons.prems(2) rest by (auto simp: rmap_eq_Inr split: option.splits)
  qed
qed simp

lemma parse_model_specifiers_proper: "parse_model_specifiers ts = Inr e \<Longrightarrow> proper e"
proof -
  assume p: "parse_model_specifiers ts = Inr e"
  then obtain es where es: "parse_tokens ts = Inr es"
    and e: "e = (case collapse Or es of None \<Rightarrow> Atom (Criteria Fqn [] (Scalar (join '' '' ts)) False None None (Some Eager) None)
      | Some root \<Rightarrow> root)"
    by (auto simp: parse_model_specifiers_def rmap_eq_Inr split: if_splits)
  then show ?thesis using parse_tokens_proper [OF es] by (auto simp: collapse_def split: list.splits)
qed

lemma keep_left_set: "a \<in> set (keep_left xs) \<longleftrightarrow> Inl a \<in> set xs"
  by (induction xs) (auto simp: keep_left_def map_filter_def split: sum.splits)

lemma keep_right_set: "b \<in> set (keep_right xs) \<longleftrightarrow> Inr b \<in> set xs"
  by (induction xs) (auto simp: keep_right_def map_filter_def split: sum.splits)

lemma combine_composite_proper:
  assumes "\<And>e. e \<in> set ins \<Longrightarrow> proper e" and "\<And>e. e \<in> set exs \<Longrightarrow> proper e"
  shows "proper (combine_composite is_union ins exs)"
proof -
  have i: "proper (if is_union then Or ins else And ins)"
    using assms(1) proper_and [of ins] by simp
  have "proper (And [include_expr, Exclude (any_of exs)])" if "proper include_expr" for include_expr
    using that proper_any_of [OF assms(2)] by simp
  then show ?thesis using i by (simp add: combine_composite_def Let_def split del: if_split) (simp split: if_split)
qed

lemma method_to_expression_proper [simp]: "proper (method_to_expression a x)"
  by (simp add: method_to_expression_def split: prod.split)

lemma parse_proper:
  "parse_definition v = Inr e \<Longrightarrow> proper e"
  "parse_member v = Inr m \<Longrightarrow> proper (case_sum id id m)"
  "parse_expr x = Inr e \<Longrightarrow> proper e"
  "parse_composite c = Inr e \<Longrightarrow> proper e"
  "parse_atom a = Inr e \<Longrightarrow> proper e"
  "atom_to_select_expression a = Inr e \<Longrightarrow> (\<forall>ds. a \<noteq> ExcludeAtom ds) \<longrightarrow> proper e"
proof (induction v and v and x and c and a and a arbitrary: e and m and e and e and e and e
    rule: parse_definition_parse_member_parse_expr_parse_composite_parse_atom_atom_to_select_expression.induct)
  case (1 s)
  then show ?case by (auto intro: parse_model_specifiers_proper)
next
  case (3 items)
  then obtain es where es: "collect_results parse_definition items = Inr es" "e = Or es" by (auto simp: rmap_eq_Inr)
  have "proper x" if "x \<in> set es" for x using collect_members [OF es(1) that] "3.IH" by blast
  then show ?case using es(2) by simp
next
  case (4 v)
  show ?case
  proof (cases "exclude_block v")
    case (Some ds)
    then obtain es where es: "collect_results parse_definition ds = Inr es" "m = Inr (any_of es)"
      using "4.prems" by (auto simp: rbind_eq_Inr empty_exclude_list_def split: if_splits)
    have "proper x" if "x \<in> set es" for x using collect_members [OF es(1) that] "4.IH"(2) [OF Some] by blast
    then show ?thesis using es(2) proper_any_of [of es] by simp
  next
    case None
    then obtain e where "parse_definition v = Inr e" "m = Inl e"
      using "4.prems" by (auto simp: rmap_eq_Inr)
    then show ?thesis using "4.IH"(1) [OF None] by simp
  qed
next
  case (7 c)
  obtain is_union vals members top where
    v: "composite_values c = Inr (is_union, vals)" and m: "collect_results parse_member vals = Inr members"
    and t: "(case comp_exclude c of Some ds \<Rightarrow> if ds = [] then Inr []
        else rmap (\<lambda>exprs. [any_of exprs]) (collect_results parse_definition ds) | None \<Rightarrow> Inr []) = Inr top"
    and e: "e = combine_composite is_union (keep_left members) (keep_right members @ top)"
    using "7.prems" by (auto simp: rbind_eq_Inr rmap_eq_Inr)
  have members: "proper (case_sum id id x)" if "x \<in> set members" for x
    using collect_members [OF m that] "7.IH"(1) [OF v] by blast
  have top: "proper x" if x: "x \<in> set top" for x
  proof -
    obtain ds es where ds: "comp_exclude c = Some ds" "ds \<noteq> []" "collect_results parse_definition ds = Inr es" "top = [any_of es]"
      using t x by (auto simp: rmap_eq_Inr split: option.splits if_splits)
    have "proper y" if "y \<in> set es" for y
      using collect_members [OF ds(3) that] "7.IH"(2) [OF v _ m ds(1,2)] by blast
    then show ?thesis using x ds(4) proper_any_of [of es] by simp
  qed
  show ?case unfolding e
    by (rule combine_composite_proper) (use members top in \<open>force simp: keep_left_set keep_right_set\<close>)+
next
  case (9 kvs)
  then show ?case by (auto split: list.splits)
next
  case (11 a)
  then show ?case by (auto simp: rmap_eq_Inr)
next
  case (12 kvs)
  then show ?case by (auto split: list.splits)
qed auto

section \<open>What a definition stands for\<close>

definition denoted :: "context_data \<Rightarrow> string list \<Rightarrow> SelectExpression fs_result \<Rightarrow> string set" where
  "denoted X stack r = (case r of Inl _ \<Rightarrow> {} | Inr e \<Rightarrow> denote X stack e)"

definition excluded_by :: "SelectorDefinitionValue \<Rightarrow> SelectorDefinitionValue list" where
  "excluded_by v = (case exclude_block v of Some ds \<Rightarrow> ds | None \<Rightarrow> [])"

definition set_option_list :: "'a list option \<Rightarrow> 'a set" where
  "set_option_list o' = (case o' of Some xs \<Rightarrow> set xs | None \<Rightarrow> {})"

lemma size_included: "composite_values c = Inr (is_union, vs) \<Longrightarrow> w \<in> set vs \<Longrightarrow> size w < size c"
  using size_composite [of c is_union vs w] by simp

lemma size_excluded_by: "w \<in> set (excluded_by u) \<Longrightarrow> size w < size u"
  by (cases "exclude_block u") (simp_all add: excluded_by_def size_exclude_block)

lemma size_excluded:
  assumes c: "composite_values c = Inr (is_union, vs)"
    and w: "w \<in> \<Union> (set ` excluded_by ` set vs) \<union> set_option_list (comp_exclude c)"
  shows "size w < size c"
proof -
  consider u where "u \<in> set vs" "w \<in> set (excluded_by u)" | "w \<in> set_option_list (comp_exclude c)"
    using w by auto
  then show ?thesis
  proof cases
    case (1 u)
    then have "size w < size u" by (simp add: size_excluded_by)
    moreover have "size u < size c" using c 1(1) by (rule size_included)
    ultimately show ?thesis by simp
  next
    case 2
    then obtain ds where "comp_exclude c = Some ds" "w \<in> set ds" by (auto simp: set_option_list_def split: option.splits)
    then show ?thesis using size_composite [of c is_union ds w] by simp
  qed
qed

text \<open>
  The set of a definition: a union or an intersection of its members that are no excludes, without
  what its excludes stand for, within the members and next to them.
\<close>

function definition_set :: "context_data \<Rightarrow> string list \<Rightarrow> SelectorDefinitionValue \<Rightarrow> string set" where
  "definition_set X stack v =
     (case v of
        StringDef s \<Rightarrow> denoted X stack (parse_model_specifiers [s])
      | ArrayDef items \<Rightarrow> \<Union> (definition_set X stack ` set items)
      | FullDef (AtomExpr a) \<Rightarrow> denoted X stack (parse_atom a)
      | FullDef (CompositeExpr c) \<Rightarrow>
          (case composite_values c of
             Inl _ \<Rightarrow> {}
           | Inr (is_union, vals) \<Rightarrow>
               (let included = definition_set X stack ` {w \<in> set vals. exclude_block w = None};
                    excluded = \<Union> (definition_set X stack ` (\<Union> (set ` excluded_by ` set vals) \<union> set_option_list (comp_exclude c)))
                in (if is_union then \<Union> included else if included = {} then {} else \<Inter> included) - excluded)))"
  by pat_completeness auto
termination
proof (relation "measure (\<lambda>(X, stack, v). size v)", goal_cases)
  case (2 X stack v e c b is_union vals w)
  then show ?case using size_included [of c is_union vals w] by auto
next
  case (3 X stack v e c b is_union vals included w)
  then show ?case using size_excluded [of c is_union vals w] by auto
next
  case (4 X stack v items w)
  then show ?case using size_in_definitions [of w items] by simp
qed simp

declare definition_set.simps [simp del]

lemma denote_any_of: "denote X stack (any_of es) = \<Union> (denote X stack ` set es)"
  by (auto simp: any_of_def split: list.splits)

lemma denote_combine:
  "denote X stack (combine_composite is_union ins exs) =
     (if is_union then \<Union> (denote X stack ` set ins) else if ins = [] then {} else \<Inter> (denote X stack ` set ins)) -
     \<Union> (denote X stack ` set exs)"
  by (auto simp: combine_composite_def Let_def denote_any_of)

section \<open>The expression denotes the set of the definition\<close>

definition denotes :: "context_data \<Rightarrow> string list \<Rightarrow> SelectorDefinitionValue \<Rightarrow> bool" where
  "denotes X stack v \<longleftrightarrow> (\<forall>e. parse_definition v = Inr e \<longrightarrow> denote X stack e = definition_set X stack v)"

lemma collect_denotes:
  assumes "collect_results parse_definition vs = Inr es" and "\<And>v. v \<in> set vs \<Longrightarrow> denotes X stack v"
  shows "denote X stack ` set es = definition_set X stack ` set vs"
proof -
  have "list_all2 (\<lambda>v e. parse_definition v = Inr e) vs es"
    using assms(1) by (simp add: collect_results_Inr)
  then show ?thesis using assms(2)
  proof (induction vs es rule: list_all2_induct)
    case (Cons v vs e es)
    then have "denote X stack e = definition_set X stack v" using Cons.prems [of v] by (simp add: denotes_def)
    then show ?case using Cons by simp
  qed simp
qed

lemma parse_member_Inr:
  "parse_member v = Inr m \<longleftrightarrow>
     (case exclude_block v of
        Some ds \<Rightarrow> (\<exists>es. collect_results parse_definition ds = Inr es \<and> es \<noteq> [] \<and> m = Inr (any_of es))
      | None \<Rightarrow> (\<exists>e. parse_definition v = Inr e \<and> m = Inl e))"
  by (auto simp: rbind_eq_Inr rmap_eq_Inr empty_exclude_list_def split: option.splits)

declare parse_member.simps [simp del]

lemma members_denote:
  assumes "list_all2 (\<lambda>v m. parse_member v = Inr m) vs ms"
    and "\<And>v. v \<in> set vs \<Longrightarrow> exclude_block v = None \<Longrightarrow> denotes X stack v"
    and "\<And>v w. v \<in> set vs \<Longrightarrow> w \<in> set (excluded_by v) \<Longrightarrow> denotes X stack w"
  shows "denote X stack ` set (keep_left ms) = definition_set X stack ` {v \<in> set vs. exclude_block v = None} \<and>
    \<Union> (denote X stack ` set (keep_right ms)) = \<Union> (definition_set X stack ` \<Union> (set ` excluded_by ` set vs))"
  using assms
proof (induction vs ms rule: list_all2_induct)
  case (Cons v vs m ms)
  have here: "denotes X stack w" if "w \<in> set vs" "exclude_block w = None" for w
    using Cons.prems(1) that by simp
  have below: "denotes X stack w" if "u \<in> set vs" "w \<in> set (excluded_by u)" for u w
    by (rule Cons.prems(2) [OF _ that(2)]) (simp add: that(1))
  have rest: "denote X stack ` set (keep_left ms) = definition_set X stack ` {v \<in> set vs. exclude_block v = None}"
    "\<Union> (denote X stack ` set (keep_right ms)) = \<Union> (definition_set X stack ` \<Union> (set ` excluded_by ` set vs))"
    using Cons.IH [OF here below] by simp_all
  show "denote X stack ` set (keep_left (m # ms)) = definition_set X stack ` {w \<in> set (v # vs). exclude_block w = None} \<and>
    \<Union> (denote X stack ` set (keep_right (m # ms))) = \<Union> (definition_set X stack ` \<Union> (set ` excluded_by ` set (v # vs)))"
  proof (cases "exclude_block v")
    case None
    then obtain e where e: "m = Inl e" "parse_definition v = Inr e"
      using Cons.hyps(1) by (auto simp: parse_member_Inr)
    then have d: "denote X stack e = definition_set X stack v"
      using Cons.prems(1) [of v] None by (simp add: denotes_def)
    have "{w \<in> set (v # vs). exclude_block w = None} = insert v {w \<in> set vs. exclude_block w = None}"
      using None by auto
    then have left: "denote X stack ` set (keep_left (m # ms)) = definition_set X stack ` {w \<in> set (v # vs). exclude_block w = None}"
      using e(1) d rest(1) by (simp add: keep_left_def map_filter_def)
    have "excluded_by v = []" using None by (simp add: excluded_by_def)
    then have "\<Union> (denote X stack ` set (keep_right (m # ms))) = \<Union> (definition_set X stack ` \<Union> (set ` excluded_by ` set (v # vs)))"
      using e(1) rest(2) by (simp add: keep_right_def map_filter_def)
    with left show ?thesis ..
  next
    case (Some ds)
    then obtain es where es: "collect_results parse_definition ds = Inr es" "m = Inr (any_of es)"
      using Cons.hyps(1) by (auto simp: parse_member_Inr)
    have ds: "excluded_by v = ds" using Some by (simp add: excluded_by_def)
    have "denote X stack ` set es = definition_set X stack ` set ds"
      by (rule collect_denotes [OF es(1)]) (use Cons.prems(2) [of v] ds in simp)
    then have d: "denote X stack (any_of es) = \<Union> (definition_set X stack ` set ds)" by (simp add: denote_any_of)
    have "{w \<in> set (v # vs). exclude_block w = None} = {w \<in> set vs. exclude_block w = None}"
      using Some by auto
    then have left: "denote X stack ` set (keep_left (m # ms)) = definition_set X stack ` {w \<in> set (v # vs). exclude_block w = None}"
      using es(2) rest(1) by (simp add: keep_left_def map_filter_def)
    have "\<Union> (denote X stack ` set (keep_right (m # ms))) = \<Union> (definition_set X stack ` \<Union> (set ` excluded_by ` set (v # vs)))"
      using es(2) ds d rest(2) by (simp add: keep_right_def map_filter_def image_Un)
    with left show ?thesis ..
  qed
qed (simp_all add: keep_left_def keep_right_def map_filter_def)

lemma composite_denotes:
  assumes "parse_composite c = Inr e" and IH: "\<And>w. size w < size c \<Longrightarrow> denotes X stack w"
  shows "denote X stack e = definition_set X stack (FullDef (CompositeExpr c))"
proof -
  obtain is_union vals ms top where
    v: "composite_values c = Inr (is_union, vals)" and m: "collect_results parse_member vals = Inr ms"
    and t: "(case comp_exclude c of Some ds \<Rightarrow> if ds = [] then Inr []
        else rmap (\<lambda>exprs. [any_of exprs]) (collect_results parse_definition ds) | None \<Rightarrow> Inr []) = Inr top"
    and e: "e = combine_composite is_union (keep_left ms) (keep_right ms @ top)"
    using assms(1) by (auto simp: rbind_eq_Inr rmap_eq_Inr)
  have d: "denotes X stack w" if "w \<in> set vals" for w
    using IH size_included [OF v that] by simp
  have x: "denotes X stack w"
    if "w \<in> \<Union> (set ` excluded_by ` set vals) \<union> set_option_list (comp_exclude c)" for w
    using IH size_excluded [OF v that] by simp
  have ms: "list_all2 (\<lambda>v m. parse_member v = Inr m) vals ms" using m by (simp add: collect_results_Inr)
  have "\<Union> (denote X stack ` set top) = \<Union> (definition_set X stack ` set_option_list (comp_exclude c))"
  proof (cases "comp_exclude c")
    case (Some ds)
    show ?thesis
    proof (cases "ds = []")
      case False
      then obtain es where es: "collect_results parse_definition ds = Inr es" "top = [any_of es]"
        using t Some by (auto simp: rmap_eq_Inr)
      have "denote X stack ` set es = definition_set X stack ` set ds"
        by (rule collect_denotes [OF es(1)]) (use x Some in \<open>simp add: set_option_list_def\<close>)
      then show ?thesis using es(2) Some by (simp add: denote_any_of set_option_list_def)
    qed (use t Some in \<open>simp add: set_option_list_def\<close>)
  qed (use t in \<open>simp add: set_option_list_def\<close>)
  moreover have parts: "denote X stack ` set (keep_left ms) = definition_set X stack ` {w \<in> set vals. exclude_block w = None} \<and>
      \<Union> (denote X stack ` set (keep_right ms)) = \<Union> (definition_set X stack ` \<Union> (set ` excluded_by ` set vals))"
    by (rule members_denote [OF ms]) (use d x in auto)
  moreover have "keep_left ms = [] \<longleftrightarrow> definition_set X stack ` {w \<in> set vals. exclude_block w = None} = {}"
    using parts by (metis (no_types, lifting) image_is_empty set_empty)
  ultimately have "denote X stack e =
      (if is_union then \<Union> (definition_set X stack ` {w \<in> set vals. exclude_block w = None})
       else if definition_set X stack ` {w \<in> set vals. exclude_block w = None} = {} then {}
       else \<Inter> (definition_set X stack ` {w \<in> set vals. exclude_block w = None})) -
      \<Union> (definition_set X stack ` (\<Union> (set ` excluded_by ` set vals) \<union> set_option_list (comp_exclude c)))"
    unfolding e denote_combine set_append image_Un Union_Un_distrib by (simp only: )
  then show ?thesis unfolding definition_set.simps [of X stack "FullDef (CompositeExpr c)"]
    by (simp only: v SelectorDefinitionValue.simps SelectorExpr.simps sum.case prod.case Let_def)
qed

theorem definition_denotes: "denotes X stack v"
proof (induction v rule: measure_induct_rule [of size])
  case (less v)
  have "denote X stack e = definition_set X stack v" if p: "parse_definition v = Inr e" for e
  proof (cases v)
    case (StringDef s)
    then show ?thesis using p by (simp add: definition_set.simps [of X stack "StringDef s"] denoted_def)
  next
    case (ArrayDef items)
    then obtain es where es: "collect_results parse_definition items = Inr es" "e = Or es"
      using p by (auto simp: rmap_eq_Inr)
    have "denote X stack ` set es = definition_set X stack ` set items"
      by (rule collect_denotes [OF es(1) less.IH]) (use ArrayDef size_in_definitions in force)
    then show ?thesis using ArrayDef es(2) by (simp add: definition_set.simps [of X stack "ArrayDef items"])
  next
    case (FullDef x)
    show ?thesis
    proof (cases x)
      case (AtomExpr a)
      then show ?thesis using p FullDef by (simp add: definition_set.simps [of X stack "FullDef (AtomExpr a)"] denoted_def)
    next
      case (CompositeExpr c)
      then have "parse_composite c = Inr e" using p FullDef by simp
      then show ?thesis using composite_denotes [of c e X stack] less.IH FullDef CompositeExpr
        by (simp add: less_SucI)
    qed
  qed
  then show ?case by (simp add: denotes_def)
qed

end
