(* ===== verification/Selector_Yaml_Contract.thy ===== *)
theory Selector_Yaml_Contract imports Selector_Yaml_Correct Selection_Contract begin

text \<open>
  What the selector file promises the scheduler: every expression that reaches it is one the evaluator
  gives a set to, a definition selects the set read off its tree, and the choice between an explicit
  selector, the default selector and the command line.
\<close>

section \<open>The selectors of the file\<close>

text \<open>The entry of a definition and the last definition of a name.\<close>

definition entry_of :: "SelectorDefinition \<Rightarrow> SelectExpression \<Rightarrow> SelectorEntry" where
  "entry_of d e = \<lparr>entry_include = e, is_default = (case def_default d of Some b \<Rightarrow> b | None \<Rightarrow> False),
     entry_description = def_description d, entry_definition = def_definition d\<rparr>"

lemma resolve_selector_definitions_Cons:
  "resolve_selector_definitions (d # ds) acc = Inr m \<longleftrightarrow>
     (\<exists>e. parse_definition (def_definition d) = Inr e \<and>
       resolve_selector_definitions ds (bm_insert (def_name d) (entry_of d e) acc) = Inr m)"
  by (auto simp: rbind_eq_Inr entry_of_def)

declare resolve_selector_definitions.simps(2) [simp del]

definition sound_entries :: "(string, SelectorEntry) bmap \<Rightarrow> bool" where
  "sound_entries entries \<longleftrightarrow> bmap_wf entries \<and>
     (\<forall>(n, x) \<in> set entries. parse_definition (entry_definition x) = Inr (entry_include x))"

lemma sound_entries_insert:
  assumes "sound_entries m" and "parse_definition (def_definition d) = Inr e"
  shows "sound_entries (bm_insert n (entry_of d e) m)"
proof -
  have wf: "bmap_wf m" "bmap_wf (bm_insert n (entry_of d e) m)" using assms(1) by (simp_all add: sound_entries_def)
  have "parse_definition (entry_definition x) = Inr (entry_include x)"
    if "(k, x) \<in> set (bm_insert n (entry_of d e) m)" for k x
  proof -
    have k: "((map_of m)(n \<mapsto> entry_of d e)) k = Some x"
      using that unfolding bmap_wf_map_of [OF wf(2)] map_of_bm_insert .
    show ?thesis
    proof (cases "k = n")
      case True
      then show ?thesis using k assms(2) by (auto simp: entry_of_def)
    next
      case False
      then have "(k, x) \<in> set m" unfolding bmap_wf_map_of [OF wf(1)] using k by simp
      then show ?thesis using assms(1) unfolding sound_entries_def by blast
    qed
  qed
  then show ?thesis using wf(2) unfolding sound_entries_def by blast
qed

lemma resolve_selector_definitions_sound:
  "resolve_selector_definitions ds acc = Inr m \<Longrightarrow> sound_entries acc \<Longrightarrow> sound_entries m"
proof (induction ds arbitrary: acc)
  case (Cons d ds)
  then show ?case using sound_entries_insert by (fastforce simp: resolve_selector_definitions_Cons)
qed simp

lemma sound_entries_proper: "sound_entries m \<Longrightarrow> (n, x) \<in> set m \<Longrightarrow> proper (entry_include x)"
  by (auto simp: sound_entries_def intro: parse_proper(1))

lemma sound_entries_get: "sound_entries m \<Longrightarrow> map_of m n = Some x \<Longrightarrow> (n, x) \<in> set m"
  by (auto simp: sound_entries_def bmap_wf_map_of)

section \<open>Rewriting of the test mode\<close>

lemma indirect_proper [simp]:
  "proper (set_indirect_selection mode e) \<longleftrightarrow> proper e" "operand (set_indirect_selection mode e) \<longleftrightarrow> operand e"
proof (induction e and e rule: proper_operand.induct)
  case (1 c)
  then show ?case by (cases c) simp
next
  case (3 es)
  then show ?case by (cases es) auto
next
  case (6 c)
  then show ?case by (cases c) simp
qed auto

lemma default_indirect_proper [simp]:
  "proper (apply_default_indirect_selection mode e) \<longleftrightarrow> proper e"
  "operand (apply_default_indirect_selection mode e) \<longleftrightarrow> operand e"
proof (induction e and e rule: proper_operand.induct)
  case (1 c)
  then show ?case by (cases c) simp
next
  case (3 es)
  then show ?case by (cases es) auto
next
  case (6 c)
  then show ?case by (cases c) simp
qed auto

section \<open>The choice\<close>

text \<open>The selector a run uses: the one it names, or else the default one when it neither selects nor excludes.\<close>

definition default_selector :: "(string, SelectorEntry) bmap \<Rightarrow> string \<Rightarrow> bool" where
  "default_selector entries n \<longleftrightarrow> (\<exists>x. (n, x) \<in> set entries \<and> is_default x)"

definition chosen_selector :: "(string, SelectorEntry) bmap \<Rightarrow> ResolveArgs \<Rightarrow> string \<Rightarrow> bool" where
  "chosen_selector entries arg n \<longleftrightarrow>
     (case arg_selector arg of
        Some s \<Rightarrow> n = s
      | None \<Rightarrow> arg_select arg = None \<and> arg_exclude arg = None \<and> default_selector entries n)"

definition one_default :: "(string, SelectorEntry) bmap \<Rightarrow> bool" where
  "one_default entries \<longleftrightarrow> (\<forall>m n. default_selector entries m \<longrightarrow> default_selector entries n \<longrightarrow> m = n)"

lemma filter_two:
  assumes "1 < length (filter P xs)" and "distinct (map f xs)"
  shows "\<exists>x \<in> set xs. \<exists>y \<in> set xs. P x \<and> P y \<and> f x \<noteq> f y"
proof -
  obtain x y zs where f: "filter P xs = x # y # zs"
    using assms(1) by (cases "filter P xs") (auto simp: neq_Nil_conv)
  have "distinct (map f (filter P xs))" using assms(2) by (simp add: distinct_map_filter)
  then have "f x \<noteq> f y" using f by simp
  have "x \<in> set (filter P xs)" "y \<in> set (filter P xs)" unfolding f by simp_all
  then have "x \<in> set xs" "y \<in> set xs" "P x" "P y" by simp_all
  with \<open>f x \<noteq> f y\<close> show ?thesis by blast
qed

lemma validate_one_default:
  assumes "sound_entries entries"
  shows "validate_default_selectors entries = Inr () \<longleftrightarrow> one_default entries"
proof
  assume "validate_default_selectors entries = Inr ()"
  then have le: "length (filter (\<lambda>(_, e). is_default e) entries) \<le> 1"
    by (simp add: validate_default_selectors_def split: if_splits)
  have "m = n" if "(m, x) \<in> set entries" "is_default x" "(n, y) \<in> set entries" "is_default y" for m n x y
  proof -
    have "(m, x) \<in> set (filter (\<lambda>(_, e). is_default e) entries)" "(n, y) \<in> set (filter (\<lambda>(_, e). is_default e) entries)"
      using that by simp_all
    then show ?thesis using le by (cases "filter (\<lambda>(_, e). is_default e) entries") auto
  qed
  then show "one_default entries" by (auto simp: one_default_def default_selector_def)
next
  assume o: "one_default entries"
  have "distinct (map fst entries)" using assms by (simp add: sound_entries_def bmap_wf_distinct)
  from filter_two [OF _ this, of "\<lambda>(_, e). is_default e"]
  have "\<not> 1 < length (filter (\<lambda>(_, e). is_default e) entries)"
    using o by (fastforce simp: one_default_def default_selector_def)
  then show "validate_default_selectors entries = Inr ()" by (simp add: validate_default_selectors_def)
qed

lemma find_Some_in: "find P xs = Some x \<Longrightarrow> x \<in> set xs \<and> P x"
  by (induction xs) (auto split: if_splits)

lemma default_sel_name:
  assumes o: "one_default entries"
  shows "or_else (arg_selector arg) (map_option fst (find (\<lambda>(_, e). is_default e \<and>
      \<not> (arg_select arg \<noteq> None \<or> arg_exclude arg \<noteq> None)) entries)) = Some n \<longleftrightarrow> chosen_selector entries arg n"
proof (cases "arg_selector arg")
  case (Some s)
  then show ?thesis by (auto simp: or_else_def chosen_selector_def)
next
  case None
  show ?thesis
  proof (cases "find (\<lambda>(_, e). is_default e \<and> \<not> (arg_select arg \<noteq> None \<or> arg_exclude arg \<noteq> None)) entries")
    case None': None
    then have "\<not> chosen_selector entries arg n"
      using None by (auto simp: find_None_iff chosen_selector_def default_selector_def)
    then show ?thesis using None None' by (simp add: or_else_def)
  next
    case (Some q)
    then have q: "q \<in> set entries" "is_default (snd q)" "arg_select arg = None" "arg_exclude arg = None"
      using find_Some_in [OF Some] by (auto split: prod.splits)
    then have "default_selector entries (fst q)" unfolding default_selector_def by (metis prod.collapse)
    then have "fst q = n \<longleftrightarrow> default_selector entries n" using o by (auto simp: one_default_def)
    then show ?thesis using None Some q by (simp add: or_else_def chosen_selector_def)
  qed
qed

definition imposed :: "ResolveArgs \<Rightarrow> SelectExpression \<Rightarrow> SelectExpression" where
  "imposed arg = (case arg_indirect_selection arg of Some m \<Rightarrow> set_indirect_selection m | None \<Rightarrow> (\<lambda>e. e))"

definition defaulted :: "ResolveArgs \<Rightarrow> SelectExpression \<Rightarrow> SelectExpression" where
  "defaulted arg = apply_default_indirect_selection (case arg_indirect_selection arg of Some m \<Rightarrow> m | None \<Rightarrow> Eager)"

lemma imposed_proper [simp]: "proper (imposed arg e) \<longleftrightarrow> proper e"
  by (simp add: imposed_def split: option.split)

lemma defaulted_proper [simp]: "proper (defaulted arg e) \<longleftrightarrow> proper e"
  by (simp add: defaulted_def)

lemma resolve_final_cases:
  assumes s: "sound_entries entries"
  shows "resolve_final_selectors entries arg = Inr rs \<longleftrightarrow>
    one_default entries \<and> selector_definitions rs = map (\<lambda>(n, e). (n, entry_include e)) entries \<and>
    ((\<exists>n x. chosen_selector entries arg n \<and> map_of entries n = Some x \<and>
        sel_include rs = Some (imposed arg (entry_include x)) \<and> sel_excluded rs = map_option (imposed arg) (arg_exclude arg)) \<or>
     ((\<forall>n. \<not> chosen_selector entries arg n) \<and> sel_include rs = map_option (defaulted arg) (arg_select arg) \<and>
        sel_excluded rs = map_option (defaulted arg) (arg_exclude arg)))"
proof (cases "one_default entries")
  case False
  then have "validate_default_selectors entries \<noteq> Inr ()" using validate_one_default [OF s] by simp
  then show ?thesis using False by (cases "validate_default_selectors entries") (simp_all add: resolve_final_selectors_def)
next
  case True
  then have v: "validate_default_selectors entries = Inr ()" using validate_one_default [OF s] by simp
  let ?sel = "or_else (arg_selector arg) (map_option fst (find (\<lambda>(_, e). is_default e \<and>
      \<not> (arg_select arg \<noteq> None \<or> arg_exclude arg \<noteq> None)) entries))"
  note sel = default_sel_name [OF True, of arg]
  show ?thesis
  proof (cases ?sel)
    case None
    then have "\<forall>n. \<not> chosen_selector entries arg n" using sel by simp
    then show ?thesis using v True None
      by (cases rs) (auto simp: resolve_final_selectors_def Let_def defaulted_def)
  next
    case (Some n)
    then have c: "chosen_selector entries arg m \<longleftrightarrow> m = n" for m using sel [of m] by auto
    show ?thesis using v True Some c
      by (cases rs; cases "map_of entries n") (auto simp: resolve_final_selectors_def Let_def imposed_def)
  qed
qed

section \<open>Properties\<close>

text \<open>When the expressions of the command line are proper, all that the scheduler gets is.\<close>

lemma resolve_final_proper:
  assumes "resolve_selector_definitions defs [] = Inr entries"
    and "resolve_final_selectors entries arg = Inr rs"
    and "pred_option proper (arg_select arg)" and "pred_option proper (arg_exclude arg)"
  shows "pred_option proper (sel_include rs) \<and> pred_option proper (sel_excluded rs) \<and>
    list_all (\<lambda>(n, e). proper e) (selector_definitions rs)"
proof -
  have s: "sound_entries entries"
    by (rule resolve_selector_definitions_sound [OF assms(1)]) (simp add: sound_entries_def)
  have "pred_option proper (sel_include rs) \<and> pred_option proper (sel_excluded rs)"
    using assms(2) [unfolded resolve_final_cases [OF s]] assms(3,4) sound_entries_proper [OF s sound_entries_get [OF s]]
    by (auto simp: option.pred_map comp_def)
  moreover have "list_all (\<lambda>(n, e). proper e) (selector_definitions rs)"
    using assms(2) [unfolded resolve_final_cases [OF s]] sound_entries_proper [OF s]
    by (auto simp: list_all_iff)
  ultimately show ?thesis by simp
qed

definition tag_definition :: "string \<Rightarrow> string \<Rightarrow> SelectorDefinition" where
  "tag_definition n v = \<lparr>def_name = n, def_description = None, def_default = Some True,
     def_definition = FullDef (AtomExpr (MethodKey [(''resource_type'', ScalarValue v)]))\<rparr>"

lemma resolve_tag_definition:
  "resolve_selector_definitions [tag_definition n v] [] =
     Inr [(n, entry_of (tag_definition n v) (method_to_expression (method_key_atom ''resource_type'' (ScalarValue v)) None))]"
proof -
  have "parse_definition (def_definition (tag_definition n v)) =
      Inr (method_to_expression (method_key_atom ''resource_type'' (ScalarValue v)) None)"
    by (simp add: tag_definition_def)
  moreover have "def_name (tag_definition n v) = n" by (simp add: tag_definition_def)
  ultimately show ?thesis by (simp add: resolve_selector_definitions_Cons)
qed

definition no_flags :: ResolveArgs where
  "no_flags = \<lparr>arg_selector = None, arg_select = None, arg_exclude = None, arg_indirect_selection = Some Cautious\<rparr>"

text \<open>C19 A definition of the selector file selects the set read off its tree: the union or intersection of
  its members without what is excluded within them and next to them.\<close>

theorem selector_definition_selects:
  assumes "parse_definition v = Inr e" and "expand_selector X e = Inr s"
  shows "set s = definition_set X [] v"
proof -
  obtain r where "eval_selector X [] e = Inr r" "s = into_final r"
    using assms(2) by (auto simp: expand_selector_def rmap_eq_Inr)
  then have "set s = denote X [] e" using plain_final [OF eval_denote(1) [OF parse_proper(1) [OF assms(1)]]] by blast
  then show ?thesis using definition_denotes [of X "[]" v] assms(1) by (simp add: denotes_def)
qed

definition model_atom :: SelectorDefinitionValue where
  "model_atom = FullDef (AtomExpr (MethodAtom
     (MethodAtomExpr ''resource_type'' (ScalarValue ''model'') False False False None None None None)))"

lemma parse_model_atom: "parse_definition model_atom = Inr (resource_is ''model'')"
  by (simp add: model_atom_def method_to_expression_def split_method_def method_from_str_def all_methods_def
      eq_ignore_ascii_case_def to_ascii_lowercase_def ascii_lower_def is_ascii_upper_def char_code_def
      to_selection_value_def resource_is_def)

theorem selector_definition_witness:
  "definition_set sample_context [] (FullDef (CompositeExpr (Composite (Some [model_atom]) None None))) = {''m.a'', ''m.b''}"
proof -
  let ?v = "FullDef (CompositeExpr (Composite (Some [model_atom]) None None))"
  have m: "parse_member model_atom = Inr (Inl (resource_is ''model''))"
    using parse_model_atom by (simp add: parse_member_Inr) (simp add: exclude_block_def model_atom_def)
  have "parse_definition ?v = Inr (Or [resource_is ''model''])"
    by (simp add: composite_values_def m keep_left_def keep_right_def map_filter_def combine_composite_def)
  moreover obtain s where s: "expand_selector sample_context (Or [resource_is ''model'']) = Inr s"
    by (simp add: expand_selector_def sample_eval)
  moreover have "set s = {''m.a'', ''m.b''}"
  proof -
    have "proper (resource_is ''model'')" by (simp add: resource_is_def)
    from eval_denote(1) [OF this sample_eval]
    have "denote sample_context [] (resource_is ''model'') = {''m.a'', ''m.b''}" by simp
    then have d: "denote sample_context [] (Or [resource_is ''model'']) = {''m.a'', ''m.b''}" by simp
    have "proper (Or [resource_is ''model''])" by (simp add: resource_is_def)
    from eval_denote(1) [OF this] obtain r where
      "eval_selector sample_context [] (Or [resource_is ''model'']) = Inr r" "s = into_final r"
      "plain_result r (denote sample_context [] (Or [resource_is ''model'']))"
      using s by (auto simp: expand_selector_def rmap_eq_Inr simp del: eval_selector.simps)
    then show ?thesis using d plain_final by metis
  qed
  ultimately show ?thesis using selector_definition_selects by metis
qed

text \<open>Resolution fails exactly on two default selectors or an unknown chosen one. An explicit selector
  wins over everything, the default one only over a command line without \<open>--select\<close> and \<open>--exclude\<close>;
  a chosen selector gets the exclusions of the command line and its test mode, which replaces the
  mode of the file; the expressions of the command line get theirs only where none is given.\<close>

theorem final_selector_precedence:
  assumes "resolve_selector_definitions defs [] = Inr entries"
  shows "(is_ok (resolve_final_selectors entries arg) \<longleftrightarrow>
      one_default entries \<and> (\<forall>n. chosen_selector entries arg n \<longrightarrow> map_of entries n \<noteq> None)) \<and>
    (\<forall>n x rs. chosen_selector entries arg n \<and> map_of entries n = Some x \<and> resolve_final_selectors entries arg = Inr rs \<longrightarrow>
      sel_include rs = Some (imposed arg (entry_include x)) \<and>
      sel_excluded rs = map_option (imposed arg) (arg_exclude arg)) \<and>
    (\<forall>rs. (\<forall>n. \<not> chosen_selector entries arg n) \<and> resolve_final_selectors entries arg = Inr rs \<longrightarrow>
      sel_include rs = map_option (defaulted arg) (arg_select arg) \<and>
      sel_excluded rs = map_option (defaulted arg) (arg_exclude arg))"
proof -
  have s: "sound_entries entries"
    by (rule resolve_selector_definitions_sound [OF assms(1)]) (simp add: sound_entries_def)
  note c = resolve_final_cases [OF s, of arg]
  have u: "m = n" if "one_default entries" "chosen_selector entries arg m" "chosen_selector entries arg n" for m n
    using that by (auto simp: chosen_selector_def one_default_def split: option.splits)
  show ?thesis
  proof (intro conjI allI impI)
    show "is_ok (resolve_final_selectors entries arg) \<longleftrightarrow>
      one_default entries \<and> (\<forall>n. chosen_selector entries arg n \<longrightarrow> map_of entries n \<noteq> None)"
    proof
      assume "is_ok (resolve_final_selectors entries arg)"
      then obtain rs where "resolve_final_selectors entries arg = Inr rs"
        by (cases "resolve_final_selectors entries arg") auto
      then show "one_default entries \<and> (\<forall>n. chosen_selector entries arg n \<longrightarrow> map_of entries n \<noteq> None)"
        unfolding c using u by (metis option.distinct(1))
    next
      assume o: "one_default entries \<and> (\<forall>n. chosen_selector entries arg n \<longrightarrow> map_of entries n \<noteq> None)"
      have "\<exists>rs. resolve_final_selectors entries arg = Inr rs"
      proof (cases "\<exists>n. chosen_selector entries arg n")
        case True
        then obtain n x where nx: "chosen_selector entries arg n" "map_of entries n = Some x" using o by blast
        show ?thesis unfolding c
          by (rule exI [of _ "\<lparr>sel_include = Some (imposed arg (entry_include x)),
            sel_excluded = map_option (imposed arg) (arg_exclude arg),
            selector_definitions = map (\<lambda>(n, e). (n, entry_include e)) entries\<rparr>"]) (use o nx in auto)
      next
        case False
        show ?thesis unfolding c
          by (rule exI [of _ "\<lparr>sel_include = map_option (defaulted arg) (arg_select arg),
            sel_excluded = map_option (defaulted arg) (arg_exclude arg),
            selector_definitions = map (\<lambda>(n, e). (n, entry_include e)) entries\<rparr>"]) (use o False in simp)
      qed
      then show "is_ok (resolve_final_selectors entries arg)" by auto
    qed
  next
    fix n x rs
    assume a: "chosen_selector entries arg n \<and> map_of entries n = Some x \<and> resolve_final_selectors entries arg = Inr rs"
    then have "resolve_final_selectors entries arg = Inr rs" by simp
    then obtain m y where "chosen_selector entries arg m" "map_of entries m = Some y" "one_default entries"
      "sel_include rs = Some (imposed arg (entry_include y))" "sel_excluded rs = map_option (imposed arg) (arg_exclude arg)"
      unfolding c using a by auto
    moreover then have "m = n" using u a by blast
    ultimately show "sel_include rs = Some (imposed arg (entry_include x))"
      "sel_excluded rs = map_option (imposed arg) (arg_exclude arg)" using a by simp_all
  next
    fix rs
    assume a: "(\<forall>n. \<not> chosen_selector entries arg n) \<and> resolve_final_selectors entries arg = Inr rs"
    then have "resolve_final_selectors entries arg = Inr rs" by simp
    then show "sel_include rs = map_option (defaulted arg) (arg_select arg)"
      "sel_excluded rs = map_option (defaulted arg) (arg_exclude arg)" unfolding c using a by auto
  qed
qed

theorem final_selector_witness:
  "\<exists>entries x rs. resolve_selector_definitions [tag_definition ''s'' ''model''] [] = Inr entries \<and>
     map_of entries ''s'' = Some x \<and> resolve_final_selectors entries no_flags = Inr rs \<and>
     sel_include rs = Some (set_indirect_selection Cautious (entry_include x)) \<and>
     sel_include rs \<noteq> Some (entry_include x)"
proof -
  let ?x = "entry_of (tag_definition ''s'' ''model'')
      (method_to_expression (method_key_atom ''resource_type'' (ScalarValue ''model'')) None)"
  note r = resolve_tag_definition [of "''s''" "''model''"]
  have d: "default_selector [(''s'', ?x)] n \<longleftrightarrow> n = ''s''" for n
    by (simp add: default_selector_def entry_of_def tag_definition_def)
  have c: "chosen_selector [(''s'', ?x)] no_flags n \<longleftrightarrow> n = ''s''" for n
    by (simp add: chosen_selector_def d no_flags_def)
  have "one_default [(''s'', ?x)]" by (simp add: one_default_def d)
  then have "is_ok (resolve_final_selectors [(''s'', ?x)] no_flags)"
    using final_selector_precedence [OF r, of no_flags, THEN conjunct1] c by simp
  then obtain rs where rs: "resolve_final_selectors [(''s'', ?x)] no_flags = Inr rs"
    by (cases "resolve_final_selectors [(''s'', ?x)] no_flags") simp_all
  then have i: "sel_include rs = Some (set_indirect_selection Cautious (entry_include ?x))"
    using final_selector_precedence [OF r, of no_flags, THEN conjunct2, THEN conjunct1, rule_format, of "''s''" ?x rs] c
    by (simp add: imposed_def) (simp add: no_flags_def)
  moreover have "set_indirect_selection Cautious (entry_include ?x) \<noteq> entry_include ?x"
    by (simp add: entry_of_def method_to_expression_def method_key_atom_def split: prod.split)
  ultimately have "sel_include rs \<noteq> Some (entry_include ?x)" by simp
  moreover have "map_of [(''s'', ?x)] ''s'' = Some ?x" by simp
  ultimately show ?thesis using r rs i by blast
qed

end
