(* ===== verification/Command_Line_Contract.thy ===== *)
theory Command_Line_Contract imports Command_Line Selector_Yaml_Contract Selector_Contract begin

text \<open>
  What the command line promises the rest: its flags are accepted exactly when the expressions made
  of them exist, and together with the selector file they give the scheduler only expressions the
  evaluator has a set for.
\<close>

section \<open>The expressions of the flags\<close>









section \<open>Validation\<close>

lemma delimiters_no_pieces:
  assumes "list_all (\<lambda>c. c = CHR '','' \<or> is_whitespace c) s"
  shows "token_pieces s = []"
proof -
  have "trim p = []" if "p \<in> set (split_on (CHR '','') s)" for p
  proof -
    have "\<forall>c \<in> set p. is_whitespace c"
      using split_on_pieces [OF that] split_on_subset [OF that] assms by (fastforce simp: list_all_iff)
    then have "dropWhile is_whitespace p = []" by (simp only: dropWhile_eq_Nil_conv)
    then show ?thesis by (simp only: trim_def rev.simps dropWhile.simps)
  qed
  then show ?thesis by (auto simp: token_pieces_def filter_empty_conv)
qed

definition pieces_parse :: "string \<Rightarrow> bool" where
  "pieces_parse s \<longleftrightarrow> (\<forall>p \<in> set (token_pieces s). is_ok (parse_single_selector p))"

lemma parse_model_specifiers_ok:
  "is_ok (parse_model_specifiers tokens) \<longleftrightarrow> tokens \<noteq> [] \<and> list_all pieces_parse tokens"
proof (cases "tokens = []")
  case True
  then show ?thesis by (simp add: parse_model_specifiers_def)
next
  case False
  show ?thesis
    using False unfolding parse_model_specifiers_eq [OF False] Let_def
    by (auto simp: is_ok_collect pieces_parse_def list_all_iff filter_empty_conv)
qed

lemma check_selector_ok: "is_ok (check_selector s) \<longleftrightarrow> pieces_parse s"
  using delimiters_no_pieces [of s] by (auto simp: check_selector_def parse_model_specifiers_ok pieces_parse_def)

definition accepted_flag :: "string list option \<Rightarrow> bool" where
  "accepted_flag flag \<longleftrightarrow> flag \<noteq> Some [] \<and> pred_option (list_all (\<lambda>s. is_ok (check_selector s))) flag"

lemma flag_expression_ok: "is_ok (flag_expression mode flag) \<longleftrightarrow> accepted_flag flag"
proof (cases flag)
  case (Some tokens)
  have "is_ok (flag_expression mode flag) \<longleftrightarrow> is_ok (parse_model_specifiers tokens)"
    using Some by (simp add: flag_expression_def split: sum.split failure.split)
  then show ?thesis using Some by (simp add: parse_model_specifiers_ok accepted_flag_def check_selector_ok)
qed (simp add: flag_expression_def accepted_flag_def)

section \<open>Properties\<close>

text \<open>C36 Building the selection of a command succeeds exactly when each of its flags has a value and every
  value passes the validation of the argument parser. The unwrapping of the parsed selectors, which
  parses the values of a flag together where the validation saw them one by one, never fails on
  arguments the argument parser let through.\<close>

theorem accepted_flags_build_selection:
  "is_ok (command_selection cmd args index) \<longleftrightarrow>
     accepted_flag (cli_select args) \<and> accepted_flag (cli_exclude args)"
proof -
  have "is_ok (command_selection cmd args index) \<longleftrightarrow> is_ok (common_eval_args args)"
    by (simp add: command_selection_def cli_eval_args_def source_eval_args_def split: cli_command.split)
  also have "\<dots> \<longleftrightarrow> is_ok (flag_expression (cli_indirect_selection args) (cli_select args)) \<and>
      is_ok (flag_expression (cli_indirect_selection args) (cli_exclude args))"
    by (cases "flag_expression (cli_indirect_selection args) (cli_select args)";
        cases "flag_expression (cli_indirect_selection args) (cli_exclude args)") (simp_all add: common_eval_args_def)
  finally show ?thesis by (simp add: flag_expression_ok)
qed








end
