(* ===== verification/Schedule_Change.thy ===== *)
theory Schedule_Change imports Schedule begin

text \<open>
  Changes to a finished schedule and its rendering: the compute boundaries of sidecar execution
  (\<^verbatim>\<open>crates/dbt-scheduler/src/schedule.rs\<close>), local execution, listing and the table of the graph
  (\<^verbatim>\<open>crates/dbt-dag/src/schedule.rs\<close>).
\<close>

section \<open>Sidecar execution\<close>

definition is_remote :: "nodes \<Rightarrow> string \<Rightarrow> bool" where
  "is_remote ns uid \<longleftrightarrow> (case get_node ns uid of Some n \<Rightarrow> compute n = Some Remote | None \<Rightarrow> False)"

text \<open>
  The remote nodes that become frontier, and the remote tests that are removed. The panic message
  goes on with the node and an explanation.
\<close>

fun classify_remote :: "nodes \<Rightarrow> string list \<Rightarrow> string bset \<times> string bset \<Rightarrow> (string bset \<times> string bset) fs_result" where
  "classify_remote ns [] acc = Inr acc"
| "classify_remote ns (uid # uids) (moved, removed) =
     (case get_node ns uid of
        None \<Rightarrow> classify_remote ns uids (moved, removed)
      | Some n \<Rightarrow>
          if compute n \<noteq> Some Remote then classify_remote ns uids (moved, removed)
          else if resource_type n \<in> {Model, Snapshot} then classify_remote ns uids (bs_insert uid moved, removed)
          else if resource_type n \<in> {TestNode, UnitTestNode} then classify_remote ns uids (moved, bs_insert uid removed)
          else Inl (Panic ''internal error: entered unreachable code: compute: remote on unsupported node type''))"

definition is_stale_test :: "nodes \<Rightarrow> string \<Rightarrow> bool" where
  "is_stale_test ns uid \<longleftrightarrow>
     (case (case map_of (tests ns) uid of
              Some t \<Rightarrow> Some (depends_on t)
            | None \<Rightarrow> map_option depends_on (map_of (unit_tests ns) uid)) of
        Some ds \<Rightarrow> list_ex (is_remote ns) ds
      | None \<Rightarrow> False)"

definition drop_test :: "string \<Rightarrow> Schedule \<Rightarrow> Schedule" where
  "drop_test uid sched = sched
     \<lparr>selected_nodes := bs_remove uid (selected_nodes sched),
      sorted_nodes := filter (\<lambda>x. x \<noteq> uid) (sorted_nodes sched),
      sched_deps := bm_remove uid (sched_deps sched)\<rparr>"

definition move_to_frontier :: "string \<Rightarrow> Schedule \<Rightarrow> Schedule" where
  "move_to_frontier uid sched = sched
     \<lparr>selected_nodes := bs_remove uid (selected_nodes sched),
      frontier_nodes := bs_insert uid (frontier_nodes sched)\<rparr>"

definition modify_schedule_for_sidecar_compute_boundaries :: "Schedule \<Rightarrow> nodes \<Rightarrow> Schedule fs_result" where
  "modify_schedule_for_sidecar_compute_boundaries sched ns =
     rmap (\<lambda>(moved, removed).
         let sched = fold move_to_frontier moved sched;
             stale = filter (is_stale_test ns) (selected_nodes sched)
         in fold drop_test (removed @ stale) sched)
       (classify_remote ns (selected_nodes sched) ([], []))"

record ComputeBoundaryReport =
  boundary_nodes :: "string bset"
  skipped_test_nodes :: "string bset"

definition report_node ::
    "Schedule \<Rightarrow> nodes \<Rightarrow> string \<Rightarrow> ComputeBoundaryReport \<Rightarrow> ComputeBoundaryReport" where
  "report_node sched ns uid r =
     (case get_node ns uid of
        None \<Rightarrow> r
      | Some n \<Rightarrow>
          if resource_type n \<in> {Model, Snapshot}
          then (if uid \<in> set (frontier_nodes sched) \<and> compute n = Some Remote
                then r \<lparr>boundary_nodes := bs_insert uid (boundary_nodes r)\<rparr> else r)
          else if resource_type n \<in> {TestNode, UnitTestNode}
          then r \<lparr>skipped_test_nodes := bs_insert uid (skipped_test_nodes r)\<rparr>
          else r)"

definition sidecar_compute_boundary_report :: "Schedule \<Rightarrow> nodes \<Rightarrow> ComputeBoundaryReport" where
  "sidecar_compute_boundary_report sched ns =
     fold (report_node sched ns) (bs_diff (all_selected_nodes sched) (selected_nodes sched))
       \<lparr>boundary_nodes = [], skipped_test_nodes = []\<rparr>"

section \<open>Local execution\<close>

text \<open>Seeds of the frontier are run locally, so they move to the selected nodes.\<close>

definition modify_for_local_execution :: "Schedule \<Rightarrow> Schedule" where
  "modify_for_local_execution sched =
     fold (\<lambda>uid s. if starts_with uid ''seed.''
         then s \<lparr>selected_nodes := bs_insert uid (selected_nodes s),
                 frontier_nodes := bs_remove uid (frontier_nodes s)\<rparr> else s)
       (frontier_nodes sched) sched"

section \<open>Rendering\<close>

definition newline :: string where
  "newline = [CHR 0x0A]"

definition show_nodes :: "Schedule \<Rightarrow> string" where
  "show_nodes sched =
     (case sched_select sched of Some e \<Rightarrow> ''    [--select: '' @ show_expression e @ '']'' @ newline | None \<Rightarrow> []) @
     (case sched_exclude sched of Some e \<Rightarrow> ''    [--exclude: '' @ show_expression e @ '']'' @ newline | None \<Rightarrow> []) @
     join newline (selected_nodes sched) @ newline"

datatype ListOutputFormat = JsonOutput | SelectorOutput | NameOutput | PathOutput

record ListItem =
  item_unique_id :: string
  item_content :: string

text \<open>What a node prints in each format is a method of the node, an argument here.\<close>

definition show_dbt_nodes ::
    "(node \<Rightarrow> ListOutputFormat \<Rightarrow> string) \<Rightarrow> Schedule \<Rightarrow> nodes \<Rightarrow> ListOutputFormat \<Rightarrow> ListItem list fs_result" where
  "show_dbt_nodes content sched ns fmt =
     collect_results (\<lambda>uid. case get_node ns uid of
         Some n \<Rightarrow> Inr \<lparr>item_unique_id = uid, item_content = content n fmt\<rparr>
       | None \<Rightarrow> Inl (Panic ''selected node not in manifest'')) (all_selected_nodes sched)"

text \<open>Left-aligned to a width; the default columns of the JSON output.\<close>

definition pad_right :: "nat \<Rightarrow> string \<Rightarrow> string" where
  "pad_right w s = s @ replicate (w - length s) (CHR '' '')"

definition default_output_keys :: "string list" where
  "default_output_keys = [''alias'', ''name'', ''package_name'', ''depends_on'', ''tags'', ''config'',
     ''resource_type'', ''source_name'', ''original_file_path'', ''unique_id'']"

text \<open>
  \<^verbatim>\<open>generate_json_output\<close> up to the printing of the map: the node is its JSON object, an ordered map
  of keys to values, and \<open>clean\<close> removes the locations from an object of dependencies.
\<close>

definition json_fields :: "('v \<Rightarrow> 'v) \<Rightarrow> (string, 'v) bmap \<Rightarrow> string list \<Rightarrow> (string, 'v) bmap" where
  "json_fields clean node_map output_keys =
     (let keys = (if output_keys = [] then default_output_keys else output_keys);
          m = (if ''depends_on'' \<in> set keys
               then (case map_of node_map ''depends_on'' of Some v \<Rightarrow> bm_insert ''depends_on'' (clean v) [] | None \<Rightarrow> [])
               else [])
      in fold (\<lambda>key m. case map_of node_map key of
           Some v \<Rightarrow> if key \<noteq> ''depends_on'' then bm_insert key v m else m | None \<Rightarrow> m) keys m)"

definition show_schedule_row :: "Schedule \<Rightarrow> nat \<Rightarrow> string \<Rightarrow> string" where
  "show_schedule_row sched width key =
     (case map_of (sched_deps sched) key of
        None \<Rightarrow> []
      | Some values \<Rightarrow>
          if frontier_nodes sched \<noteq> []
          then pad_right width key @ '' | '' @
            pad_right 8 (if key \<in> set (frontier_nodes sched) then ''*'' else []) @ '' | '' @ join '', '' values @ newline
          else pad_right width key @ '' | '' @ join '', '' values @ newline)"

definition show_schedule :: "Schedule \<Rightarrow> string" where
  "show_schedule sched =
     (let width = fold (\<lambda>k w. max w (str_len k)) (bm_keys (sched_deps sched)) 0;
          header = (if frontier_nodes sched \<noteq> []
            then pad_right width ''Unique Id'' @ '' | '' @ pad_right 8 ''Frontier'' @ '' | Depends-on'' @ newline
            else pad_right width ''Unique Id'' @ '' |  Depends-on'' @ newline)
      in header @ replicate (width + 3 + 8 + 3 + width) (CHR ''-'') @ newline @
         concat (map (show_schedule_row sched width) (sorted_nodes sched)))"

end
