(* ===== verification/Schedule_Correct.thy ===== *)
theory Schedule_Correct imports Schedule_Change Selection_Eval begin

text \<open>
  Correctness of the schedule: the derived graph is the dependency relation of the nodes, the
  ephemeral closure and the frontier are what their definitions say, and every schedule that is
  built keeps the invariants of \<^verbatim>\<open>crates/dbt-dag/src/schedule.rs\<close>.
\<close>

section \<open>The dependency graph\<close>

lemma node_dependencies_Inr:
  "node_dependencies ns uid ds acc = Inr s \<Longrightarrow> bset_wf acc \<Longrightarrow>
   bset_wf s \<and> set s = set acc \<union> set ds \<and> (\<forall>x \<in> set ds. contains ns x)"
  by (induction ds arbitrary: acc) (auto split: if_splits)

lemma node_dependencies_ok: "is_ok (node_dependencies ns uid ds acc) \<longleftrightarrow> (\<forall>x \<in> set ds. contains ns x)"
  by (induction ds arbitrary: acc) auto

lemma collect_deps_Inr:
  "collect_deps ns cancelled k rest d = Inr d' \<Longrightarrow> deps_wf d \<Longrightarrow> distinct (map fst rest) \<Longrightarrow>
   fst ` set d \<inter> fst ` set rest = {} \<Longrightarrow>
   deps_wf d' \<and> fst ` set d' = fst ` set d \<union> fst ` set rest \<and>
   (\<forall>(uid, n) \<in> set rest. set (succs d' uid) = set (depends_on n) \<and> (\<forall>x \<in> set (depends_on n). contains ns x)) \<and>
   (\<forall>uid \<in> fst ` set d. succs d' uid = succs d uid)"
proof (induction rest arbitrary: k d)
  case (Cons un rest)
  obtain uid n where un: "un = (uid, n)" by fastforce
  obtain ds where ds: "node_dependencies ns uid (depends_on n) [] = Inr ds"
    and step: "collect_deps ns cancelled (k + 1) rest (bm_insert uid ds d) = Inr d'"
    using Cons.prems(1) un by (auto simp: result)
  have s: "bset_wf ds" "set ds = set (depends_on n)" "\<forall>x \<in> set (depends_on n). contains ns x"
    using node_dependencies_Inr [OF ds] by (auto simp: bset_wf_def)
  have new: "uid \<notin> fst ` set d" "uid \<notin> fst ` set rest" using Cons.prems un by auto
  have "map_of d uid = None" using new(1) by (simp add: map_of_eq_None_iff)
  have vals: "snd ` set (bm_insert uid ds d) \<subseteq> insert ds (snd ` set d)"
    by (induction uid ds d rule: bm_insert.induct) auto
  have "bset_wf vs" if "vs \<in> snd ` set (bm_insert uid ds d)" for vs
  proof -
    have "vs = ds \<or> vs \<in> snd ` set d" using vals that by blast
    then show ?thesis using s(1) Cons.prems(2) by (auto simp: deps_wf_def)
  qed
  then have wf: "deps_wf (bm_insert uid ds d)" using Cons.prems(2) by (simp add: deps_wf_def)
  have keys: "fst ` set (bm_insert uid ds d) = insert uid (fst ` set d)" by (rule keys_bm_insert)
  have ih: "deps_wf d' \<and> fst ` set d' = fst ` set (bm_insert uid ds d) \<union> fst ` set rest \<and>
    (\<forall>(uid, n) \<in> set rest. set (succs d' uid) = set (depends_on n) \<and> (\<forall>x \<in> set (depends_on n). contains ns x)) \<and>
    (\<forall>u \<in> fst ` set (bm_insert uid ds d). succs d' u = succs (bm_insert uid ds d) u)"
    by (rule Cons.IH [OF step wf]) (use Cons.prems un keys new in auto)
  have this_node: "succs d' uid = ds" using ih keys by simp
  have others: "succs d' u = succs d u" if "u \<in> fst ` set d" for u
  proof -
    have "u \<noteq> uid" using that new(1) by blast
    moreover have "u \<in> fst ` set (bm_insert uid ds d)" using that unfolding keys by simp
    then have "succs d' u = succs (bm_insert uid ds d) u"
      by (rule bspec [OF ih [THEN conjunct2, THEN conjunct2, THEN conjunct2]])
    ultimately show ?thesis by simp
  qed
  show ?case
  proof (intro conjI)
    show "deps_wf d'" using ih by simp
    show "fst ` set d' = fst ` set d \<union> fst ` set (un # rest)" using ih keys un by simp
    show "\<forall>(uid, n) \<in> set (un # rest). set (succs d' uid) = set (depends_on n) \<and> (\<forall>x \<in> set (depends_on n). contains ns x)"
      using ih this_node s un by simp
    show "\<forall>u \<in> fst ` set d. succs d' u = succs d u" using others by simp
  qed
qed simp

lemma collect_deps_ok:
  assumes "\<forall>k. \<not> cancelled k"
  shows "is_ok (collect_deps ns cancelled k rest d) \<longleftrightarrow> (\<forall>(uid, n) \<in> set rest. \<forall>x \<in> set (depends_on n). contains ns x)"
proof (induction rest arbitrary: k d)
  case (Cons un rest)
  obtain uid n where un: "un = (uid, n)" by fastforce
  show ?case
  proof (cases "node_dependencies ns uid (depends_on n) []")
    case (Inl e)
    then have "\<not> (\<forall>x \<in> set (depends_on n). contains ns x)" using node_dependencies_ok [of ns uid "depends_on n" "[]"] by simp
    then show ?thesis using Inl un assms by (auto simp: check_cancellation_def)
  next
    case (Inr ds)
    then have "\<forall>x \<in> set (depends_on n). contains ns x" using node_dependencies_ok [of ns uid "depends_on n" "[]"] by simp
    then show ?thesis using Inr un assms Cons.IH by (auto simp: check_cancellation_def)
  qed
qed simp

text \<open>The graph of a project: every node is a key, its dependencies are those of the node.\<close>

definition graph_of :: "nodes \<Rightarrow> string deps \<Rightarrow> bool" where
  "graph_of ns d \<longleftrightarrow> deps_wf d \<and> dom (map_of d) = {u. contains ns u} \<and>
     (\<forall>u n. get_node ns u = Some n \<longrightarrow> set (succs d u) = set (depends_on n))"

lemma derive_deps_graph:
  assumes "nodes_wf ns" and "derive_deps ns cancelled = Inr d"
  shows "graph_of ns d" and "\<forall>(u, n) \<in> set (iter ns). \<forall>x \<in> set (depends_on n). contains ns x"
proof -
  obtain d0 where d0: "collect_deps ns cancelled 1 (iter ns) [] = Inr d0" and d: "d = ensure_all_nodes_defined d0"
    using assms(2) by (auto simp: derive_deps_def result)
  have "distinct (map fst (iter ns))" using assms(1) by (simp add: nodes_wf_def)
  note c = collect_deps_Inr [OF d0 _ this]
  have wf0: "deps_wf d0" and keys0: "fst ` set d0 = fst ` set (iter ns)"
    and deps0: "\<forall>(u, n) \<in> set (iter ns). set (succs d0 u) = set (depends_on n) \<and> (\<forall>x \<in> set (depends_on n). contains ns x)"
    using c by (auto simp: deps_wf_def)
  then show "\<forall>(u, n) \<in> set (iter ns). \<forall>x \<in> set (depends_on n). contains ns x" by blast
  have ids: "fst ` set (iter ns) = {u. contains ns u}"
    unfolding contains_iff_get_node get_node_map_of by (auto simp: map_of_eq_None_iff image_iff)
  have bw: "bmap_wf d0" using wf0 by (simp add: deps_wf_def)
  have vals: "x \<in> {u. contains ns u}" if "vs \<in> snd ` set d0" "x \<in> set vs" for vs x
  proof -
    obtain u where "(u, vs) \<in> set d0" using \<open>vs \<in> snd ` set d0\<close> by auto
    moreover then have "u \<in> fst ` set (iter ns)" using keys0 by (metis fst_conv image_eqI)
    then obtain n where n: "(u, n) \<in> set (iter ns)" by auto
    ultimately have "succs d0 u = vs" using bmap_wf_map_of [OF bw] by simp
    then show ?thesis using deps0 n that(2) by auto
  qed
  note e = ensure_all_nodes_defined_spec [OF bw, folded d]
  have dom: "dom (map_of d) = {u. contains ns u}"
    using e(3) vals keys0 ids by (auto simp: dom_map_of_conv_image_fst)
  have "u \<in> dom (map_of d0)" if "u \<in> dom (map_of d)" for u
    using that dom keys0 ids by (auto simp: dom_map_of_conv_image_fst)
  then have "vs \<in> snd ` set d \<Longrightarrow> bset_wf vs" for vs
  proof -
    assume "vs \<in> snd ` set d"
    then obtain u where u: "(u, vs) \<in> set d" by auto
    then have m: "map_of d u = Some vs" using bmap_wf_map_of [OF e(1)] by simp
    then have "u \<in> dom (map_of d0)" using \<open>\<And>u. u \<in> dom (map_of d) \<Longrightarrow> u \<in> dom (map_of d0)\<close> by blast
    then obtain ws where ws: "map_of d0 u = Some ws" by blast
    have "ws = vs" using m ws e(2) by (metis succs_Some)
    then show "bset_wf vs" using ws wf0 bmap_wf_map_of [OF bw] by (force simp: deps_wf_def)
  qed
  then have "deps_wf d" using e(1) by (simp add: deps_wf_def)
  moreover have "set (succs d u) = set (depends_on n)" if "get_node ns u = Some n" for u n
  proof -
    have "(u, n) \<in> set (iter ns)" using iter_get_node [OF assms(1)] that by simp
    then show ?thesis using deps0 e(2) by auto
  qed
  ultimately show "graph_of ns d" using dom by (simp add: graph_of_def)
qed

section \<open>Ephemeral models\<close>

definition is_ephemeral :: "nodes \<Rightarrow> string \<Rightarrow> bool" where
  "is_ephemeral ns uid \<longleftrightarrow> (case get_node ns uid of Some n \<Rightarrow> materialized n = Ephemeral | None \<Rightarrow> False)"

text \<open>The recursive calls of \<^verbatim>\<open>collect_ephemeral_upstream\<close>, and the models it collects.\<close>

definition unit_test_deps :: "nodes \<Rightarrow> string \<Rightarrow> string set" where
  "unit_test_deps ns uid = (case map_of (unit_tests ns) uid of Some t \<Rightarrow> set (depends_on t) | None \<Rightarrow> {})"

definition ephemeral_deps :: "string deps \<Rightarrow> nodes \<Rightarrow> string \<Rightarrow> string set" where
  "ephemeral_deps d ns uid = {y \<in> set (succs d uid). is_ephemeral ns y}"

inductive ephemeral_above :: "string deps \<Rightarrow> nodes \<Rightarrow> string \<Rightarrow> string \<Rightarrow> bool" for d ns where
  direct: "y \<in> ephemeral_deps d ns x \<Longrightarrow> ephemeral_above d ns x y"
| further: "y \<in> ephemeral_deps d ns x \<Longrightarrow> ephemeral_above d ns y z \<Longrightarrow> ephemeral_above d ns x z"
| of_tested: "y \<in> unit_test_deps ns x \<Longrightarrow> ephemeral_above d ns y z \<Longrightarrow> ephemeral_above d ns x z"

lemma ephemeral_above_iff:
  "ephemeral_above d ns x z \<longleftrightarrow>
     z \<in> ephemeral_deps d ns x \<or>
     (\<exists>y \<in> ephemeral_deps d ns x. ephemeral_above d ns y z) \<or>
     (\<exists>y \<in> unit_test_deps ns x. ephemeral_above d ns y z)"
  by (subst ephemeral_above.simps) auto

text \<open>With a rank that drops along every call, as many frames as the rank are enough.\<close>

lemma ephemeral_of_unit_test_spec:
  assumes "\<And>y acc. y \<in> set ds \<Longrightarrow> \<exists>s. collect_ephemeral_upstream frames d ns y acc = Inr s \<and>
      set s = set acc \<union> {z. ephemeral_above d ns y z}"
  shows "\<exists>s. ephemeral_of_unit_test frames d ns ds acc = Inr s \<and>
    set s = set acc \<union> {z. \<exists>y \<in> set ds. ephemeral_above d ns y z}"
  using assms
proof (induction ds arbitrary: acc)
  case (Cons y ds)
  obtain s where s: "collect_ephemeral_upstream frames d ns y acc = Inr s"
    "set s = set acc \<union> {z. ephemeral_above d ns y z}" using Cons.prems [of y acc] by auto
  obtain t where "ephemeral_of_unit_test frames d ns ds s = Inr t"
    "set t = set s \<union> {z. \<exists>y \<in> set ds. ephemeral_above d ns y z}" using Cons.IH [of s] Cons.prems by auto
  then show ?case using s by auto
qed simp

lemma ephemeral_of_deps_spec:
  assumes "\<And>y acc. y \<in> set ds \<Longrightarrow> is_ephemeral ns y \<Longrightarrow>
      \<exists>s. collect_ephemeral_upstream frames d ns y acc = Inr s \<and> set s = set acc \<union> {z. ephemeral_above d ns y z}"
  shows "\<exists>s. ephemeral_of_deps frames d ns ds acc = Inr s \<and>
    set s = set acc \<union> {z. \<exists>y \<in> set ds. is_ephemeral ns y \<and> (z = y \<or> ephemeral_above d ns y z)}"
  using assms
proof (induction ds arbitrary: acc)
  case (Cons y ds)
  show ?case
  proof (cases "is_ephemeral ns y")
    case False
    then show ?thesis using Cons.IH [of acc] Cons.prems by (auto simp: is_ephemeral_def)
  next
    case True
    obtain s where s: "collect_ephemeral_upstream frames d ns y (bs_insert y acc) = Inr s"
      "set s = insert y (set acc) \<union> {z. ephemeral_above d ns y z}"
      using Cons.prems [of y "bs_insert y acc"] True by auto
    obtain t where "ephemeral_of_deps frames d ns ds s = Inr t"
      "set t = set s \<union> {z. \<exists>y \<in> set ds. is_ephemeral ns y \<and> (z = y \<or> ephemeral_above d ns y z)}"
      using Cons.IH [of s] Cons.prems by auto
    then show ?thesis using s True by (auto simp: is_ephemeral_def)
  qed
qed simp

lemma collect_ephemeral_upstream_rank:
  assumes "\<And>x y. y \<in> ephemeral_deps d ns x \<union> unit_test_deps ns x \<Longrightarrow> rank y < (rank x :: nat)"
  shows "rank uid < frames \<Longrightarrow>
    \<exists>s. collect_ephemeral_upstream frames d ns uid acc = Inr s \<and> set s = set acc \<union> {z. ephemeral_above d ns uid z}"
proof (induction frames arbitrary: uid acc)
  case (Suc frames)
  have call: "\<exists>s. collect_ephemeral_upstream frames d ns y acc = Inr s \<and> set s = set acc \<union> {z. ephemeral_above d ns y z}"
    if "y \<in> ephemeral_deps d ns uid \<union> unit_test_deps ns uid" for y acc
    using Suc.IH [of y] assms [OF that] Suc.prems by auto
  obtain s where s: "(case map_of (unit_tests ns) uid of Some t \<Rightarrow> ephemeral_of_unit_test frames d ns (depends_on t) acc
      | None \<Rightarrow> Inr acc) = Inr s" "set s = set acc \<union> {z. \<exists>y \<in> unit_test_deps ns uid. ephemeral_above d ns y z}"
  proof (cases "map_of (unit_tests ns) uid")
    case (Some t)
    then show ?thesis
      using ephemeral_of_unit_test_spec [of "depends_on t" frames d ns acc] call that by (auto simp: unit_test_deps_def)
  qed (use that in \<open>auto simp: unit_test_deps_def\<close>)
  obtain t where t: "ephemeral_of_deps frames d ns (succs d uid) s = Inr t"
    "set t = set s \<union> {z. \<exists>y \<in> set (succs d uid). is_ephemeral ns y \<and> (z = y \<or> ephemeral_above d ns y z)}"
    using ephemeral_of_deps_spec [of "succs d uid" ns frames d s] call by (auto simp: ephemeral_deps_def)
  have "{z. ephemeral_above d ns uid z} = {z. \<exists>y \<in> unit_test_deps ns uid. ephemeral_above d ns y z} \<union>
      {z. \<exists>y \<in> set (succs d uid). is_ephemeral ns y \<and> (z = y \<or> ephemeral_above d ns y z)}"
    by (subst ephemeral_above_iff) (auto simp: ephemeral_deps_def)
  then show ?case using s t by auto
qed simp

text \<open>A model that is ephemeral and upstream of itself is never finished with.\<close>

lemma collect_ephemeral_cycle:
  assumes "\<And>x. x \<in> C \<Longrightarrow> \<exists>y \<in> C. y \<in> ephemeral_deps d ns x"
  shows "uid \<in> C \<Longrightarrow> \<not> is_ok (collect_ephemeral_upstream frames d ns uid acc)"
proof (induction frames arbitrary: uid acc)
  case (Suc frames)
  obtain y where y: "y \<in> C" "y \<in> set (succs d uid)" "is_ephemeral ns y"
    using assms Suc.prems by (auto simp: ephemeral_deps_def)
  have "y \<in> set ds \<Longrightarrow> \<not> is_ok (ephemeral_of_deps frames d ns ds acc)" for ds acc
  proof (induction ds arbitrary: acc)
    case (Cons x ds)
    show ?case
    proof (cases "x = y")
      case True
      then show ?thesis
        using Suc.IH [OF y(1), of "bs_insert y acc"] y(3)
        by (cases "collect_ephemeral_upstream frames d ns y (bs_insert y acc)") (auto simp: is_ephemeral_def)
    next
      case False
      then show ?thesis
        using Cons by (cases "collect_ephemeral_upstream frames d ns x (bs_insert x acc)") auto
    qed
  qed simp
  then have "\<not> is_ok (ephemeral_of_deps frames d ns (succs d uid) acc)" for acc using y(2) by blast
  then show ?case by (simp add: rbind_def split: sum.split option.split)
qed simp

lemma collect_ephemeral_never_ok:
  assumes "\<And>x. x \<in> C \<Longrightarrow> \<exists>y \<in> C. y \<in> ephemeral_deps d ns x" and "u \<in> C"
  shows "u \<in> set uids \<Longrightarrow> \<not> is_ok (collect_ephemeral frames d ns uids acc)"
proof (induction uids arbitrary: acc)
  case (Cons x uids)
  show ?case
  proof (cases "x = u")
    case True
    then show ?thesis using collect_ephemeral_cycle [OF assms, of frames acc]
      by (cases "collect_ephemeral_upstream frames d ns u acc") simp_all
  next
    case False
    then show ?thesis using Cons by (cases "collect_ephemeral_upstream frames d ns x acc") simp_all
  qed
qed simp

text \<open>The walk has no other way to fail than to run out of stack.\<close>

lemma collect_upstream_error:
  "collect_ephemeral_upstream frames d ns uid acc = Inl e \<Longrightarrow> e = Panic ''stack overflow''"
  "ephemeral_of_unit_test frames d ns ds acc = Inl e \<Longrightarrow> e = Panic ''stack overflow''"
  "ephemeral_of_deps frames d ns ds acc = Inl e \<Longrightarrow> e = Panic ''stack overflow''"
  by (induction frames d ns uid acc and frames d ns ds acc and frames d ns ds acc
      rule: collect_ephemeral_upstream_ephemeral_of_unit_test_ephemeral_of_deps.induct)
    (auto simp: rbind_def split: sum.splits option.splits if_splits)

lemma collect_ephemeral_error: "collect_ephemeral frames d ns uids acc = Inl e \<Longrightarrow> e = Panic ''stack overflow''"
  by (induction uids arbitrary: acc) (auto simp: rbind_def dest: collect_upstream_error(1) split: sum.splits)

lemma collect_ephemeral_overflows:
  assumes "\<And>x. x \<in> C \<Longrightarrow> \<exists>y \<in> C. y \<in> ephemeral_deps d ns x" and "u \<in> C" and "u \<in> set uids"
  shows "collect_ephemeral frames d ns uids acc = Inl (Panic ''stack overflow'')"
proof (cases "collect_ephemeral frames d ns uids acc")
  case (Inl e)
  then show ?thesis using collect_ephemeral_error [OF Inl] by simp
next
  case (Inr s)
  then show ?thesis using collect_ephemeral_never_ok [OF assms, of frames acc] by simp
qed

section \<open>The frontier\<close>

text \<open>
  The frontier of one selected node: its dependencies that are not selected, metrics and semantic
  models apart, and for a unit test the dependencies of the first of its dependencies.
\<close>

definition hydrated :: "string \<Rightarrow> bool" where
  "hydrated x \<longleftrightarrow> \<not> starts_with x ''metric.'' \<and> \<not> starts_with x ''semantic_model.''"

definition frontier_of :: "string set \<Rightarrow> string deps \<Rightarrow> string \<Rightarrow> string set" where
  "frontier_of chosen d u =
     {x \<in> set (succs d u). x \<notin> chosen \<and> hydrated x} \<union>
     (if starts_with u ''unit_test.'' then \<Union> (set ` succs d ` set (take 1 (succs d u))) - chosen else {})"

lemma set_frontier_of_deps:
  "set (frontier_of_deps chosen ds f) = set f \<union> {x \<in> set ds. x \<notin> set chosen \<and> hydrated x}"
  unfolding frontier_of_deps_def by (induction ds arbitrary: f) (auto simp: hydrated_def)

lemma set_frontier_of_unit_test:
  "set (frontier_of_unit_test chosen d x f) = set f \<union> (set (succs d x) - set chosen)"
proof -
  have "set (fold (\<lambda>y f. if y \<in> set chosen then f else bs_insert y f) ys f) = set f \<union> (set ys - set chosen)" for ys
    by (induction ys arbitrary: f) auto
  then show ?thesis by (simp add: frontier_of_unit_test_def)
qed

lemma frontier_steps_wf:
  "bset_wf f \<Longrightarrow> bset_wf (frontier_of_deps chosen ds f)"
  "bset_wf f \<Longrightarrow> bset_wf (frontier_of_unit_test chosen d x f)"
proof -
  have fold_inv: "(\<And>x f. bset_wf f \<Longrightarrow> bset_wf (g x f)) \<Longrightarrow> bset_wf f \<Longrightarrow> bset_wf (fold g xs f)"
    for g :: "string \<Rightarrow> string bset \<Rightarrow> string bset" and xs f
    by (induction xs arbitrary: f) auto
  show "bset_wf f \<Longrightarrow> bset_wf (frontier_of_deps chosen ds f)"
    unfolding frontier_of_deps_def by (rule fold_inv) auto
  show "bset_wf f \<Longrightarrow> bset_wf (frontier_of_unit_test chosen d x f)"
    unfolding frontier_of_unit_test_def by (rule fold_inv) auto
qed

lemma frontier_loop_Inr:
  "frontier_loop chosen d uids f = Inr F \<Longrightarrow> bset_wf f \<Longrightarrow>
   bset_wf F \<and> set F = set f \<union> (\<Union>u \<in> set uids. frontier_of (set chosen) d u)"
proof (induction uids arbitrary: f)
  case (Cons u us)
  show ?case
  proof (cases "map_of d u")
    case None
    then show ?thesis using Cons.IH [of f] Cons.prems by (simp add: frontier_of_def)
  next
    case (Some ds)
    show ?thesis
    proof (cases "starts_with u ''unit_test.''")
      case False
      then have step: "frontier_loop chosen d us (frontier_of_deps chosen ds f) = Inr F"
        using Cons.prems Some by simp
      have "frontier_of (set chosen) d u = {x \<in> set ds. x \<notin> set chosen \<and> hydrated x}"
        using Some False by (simp add: frontier_of_def)
      then show ?thesis using Cons.IH [OF step frontier_steps_wf(1) [OF Cons.prems(2)]]
        by (simp add: set_frontier_of_deps Un_assoc)
    next
      case True
      then obtain x xs where ds: "ds = x # xs"
        using Cons.prems(1) Some by (cases ds) (auto simp: unwrap_none_def)
      let ?f = "frontier_of_unit_test chosen d x f"
      have step: "frontier_loop chosen d us (frontier_of_deps chosen ds ?f) = Inr F"
        using Cons.prems Some True ds by simp
      have "frontier_of (set chosen) d u = {x \<in> set ds. x \<notin> set chosen \<and> hydrated x} \<union> (set (succs d x) - set chosen)"
        using Some True ds by (simp add: frontier_of_def)
      then show ?thesis using Cons.IH [OF step frontier_steps_wf(1) [OF frontier_steps_wf(2) [OF Cons.prems(2)]]]
        by (auto simp: set_frontier_of_deps set_frontier_of_unit_test)
    qed
  qed
qed simp

lemma frontier_loop_ok:
  "is_ok (frontier_loop chosen d uids f) \<longleftrightarrow>
   (\<forall>u \<in> set uids. starts_with u ''unit_test.'' \<longrightarrow> map_of d u \<noteq> Some [])"
proof (induction uids arbitrary: f)
  case (Cons u us)
  show ?case
  proof (cases "map_of d u")
    case (Some ds)
    then show ?thesis using Cons by (cases ds) (auto simp: unwrap_none_def)
  qed (use Cons in auto)
qed simp

lemma set_frontier:
  assumes "get_frontier_nodes chosen d = Inr F"
  shows "bset_wf F" and "set F = (\<Union>u \<in> set chosen. frontier_of (set chosen) d u)"
  using frontier_loop_Inr [OF assms [unfolded get_frontier_nodes_def]] by (simp_all add: bset_wf_def)

lemma frontier_disjoint: "get_frontier_nodes chosen d = Inr F \<Longrightarrow> set F \<inter> set chosen = {}"
  using set_frontier(2) by (auto simp: frontier_of_def split: if_splits)

section \<open>The schedule\<close>

text \<open>
  The types of a project agree with the maps its nodes are in, and what is ephemeral is neither a
  source nor a node of another project.
\<close>

definition typed_nodes :: "nodes \<Rightarrow> bool" where
  "typed_nodes ns \<longleftrightarrow>
     (\<forall>u n. get_node ns u = Some n \<longrightarrow>
        (resource_type n = SourceNode \<longleftrightarrow> has_key (sources ns) u) \<and>
        (materialized n = Ephemeral \<longrightarrow> resource_type n \<noteq> SourceNode \<and> \<not> is_extended_model n))"

text \<open>The closure only adds ephemeral models.\<close>

definition adds_ephemeral :: "nodes \<Rightarrow> string bset \<Rightarrow> string bset \<Rightarrow> bool" where
  "adds_ephemeral ns acc s \<longleftrightarrow> set acc \<subseteq> set s \<and> set s \<subseteq> set acc \<union> {z. is_ephemeral ns z} \<and> (bset_wf acc \<longrightarrow> bset_wf s)"

lemma adds_ephemeral_refl: "adds_ephemeral ns s s"
  by (simp add: adds_ephemeral_def)

lemma adds_ephemeral_trans: "adds_ephemeral ns r s \<Longrightarrow> adds_ephemeral ns s t \<Longrightarrow> adds_ephemeral ns r t"
  unfolding adds_ephemeral_def by fast

lemma adds_ephemeral_insert: "is_ephemeral ns y \<Longrightarrow> adds_ephemeral ns s (bs_insert y s)"
  by (auto simp: adds_ephemeral_def)

lemma collect_ephemeral_sound:
  "collect_ephemeral_upstream frames d ns uid acc = Inr s \<Longrightarrow> adds_ephemeral ns acc s"
  "ephemeral_of_unit_test frames d ns ds acc = Inr s \<Longrightarrow> adds_ephemeral ns acc s"
  "ephemeral_of_deps frames d ns ds acc = Inr s \<Longrightarrow> adds_ephemeral ns acc s"
proof (induction frames d ns uid acc and frames d ns ds acc and frames d ns ds acc arbitrary: s and s and s
    rule: collect_ephemeral_upstream_ephemeral_of_unit_test_ephemeral_of_deps.induct)
  case (2 frames d ns uid acc)
  obtain t where t: "(case map_of (unit_tests ns) uid of Some u \<Rightarrow> ephemeral_of_unit_test frames d ns (depends_on u) acc
      | None \<Rightarrow> Inr acc) = Inr t" "ephemeral_of_deps frames d ns (succs d uid) t = Inr s"
    using 2(3) by (auto simp: rbind_eq_Inr)
  have "adds_ephemeral ns acc t" using t(1) 2(1) by (auto simp: adds_ephemeral_refl split: option.splits)
  then show ?case using 2(2) [OF t] by (rule adds_ephemeral_trans)
next
  case (4 frames d ns y ds acc)
  then obtain t where t: "collect_ephemeral_upstream frames d ns y acc = Inr t"
    "ephemeral_of_unit_test frames d ns ds t = Inr s" by (auto simp: rbind_eq_Inr)
  show ?case using 4(1) [OF t(1)] 4(2) [OF t] by (rule adds_ephemeral_trans)
next
  case (6 frames d ns y ds acc)
  show ?case
  proof (cases "is_ephemeral ns y")
    case True
    then have c: "case get_node ns y of Some n \<Rightarrow> materialized n = Ephemeral | None \<Rightarrow> False"
      by (simp add: is_ephemeral_def)
    then obtain t where t: "collect_ephemeral_upstream frames d ns y (bs_insert y acc) = Inr t"
      "ephemeral_of_deps frames d ns ds t = Inr s" using 6(4) by (auto simp: rbind_eq_Inr)
    have "adds_ephemeral ns acc t"
      using adds_ephemeral_insert [OF True] 6(1) [OF c t(1)] by (rule adds_ephemeral_trans)
    then show ?thesis using 6(2) [OF c t] by (rule adds_ephemeral_trans)
  next
    case False
    then have c: "\<not> (case get_node ns y of Some n \<Rightarrow> materialized n = Ephemeral | None \<Rightarrow> False)"
      by (simp add: is_ephemeral_def)
    then have "ephemeral_of_deps frames d ns ds acc = Inr s" using 6(4) by simp
    then show ?thesis by (rule 6(3) [OF c])
  qed
qed (simp_all add: adds_ephemeral_refl)

lemma collect_ephemeral_adds: "collect_ephemeral frames d ns uids acc = Inr s \<Longrightarrow> adds_ephemeral ns acc s"
proof (induction uids arbitrary: acc)
  case (Cons u us)
  then obtain t where t: "collect_ephemeral_upstream frames d ns u acc = Inr t"
    "collect_ephemeral frames d ns us t = Inr s" by (auto simp: rbind_eq_Inr)
  show ?case using collect_ephemeral_sound(1) [OF t(1)] Cons.IH [OF t(2)] by (rule adds_ephemeral_trans)
qed (simp add: adds_ephemeral_refl)

section \<open>Restricted graphs\<close>

text \<open>Ordered dependency sets within a set of nodes, and graphs of such sets.\<close>

definition set_in :: "'a::linorder set \<Rightarrow> 'a bset \<Rightarrow> bool" where
  "set_in S vs \<longleftrightarrow> bset_wf vs \<and> set vs \<subseteq> S"

definition deps_in :: "'a::linorder set \<Rightarrow> 'a deps \<Rightarrow> bool" where
  "deps_in S m \<longleftrightarrow> bmap_wf m \<and> (\<forall>vs \<in> snd ` set m. set_in S vs)"

lemma set_in_simps [simp]:
  "set_in S []"
  "set_in S vs \<Longrightarrow> x \<in> S \<Longrightarrow> set_in S (bs_insert x vs)"
  "set_in S vs \<Longrightarrow> set_in S ws \<Longrightarrow> set_in S (bs_extend vs ws)"
  by (simp_all add: set_in_def bset_wf_def [of "[]"])

lemma deps_in_wf: "deps_in S m \<Longrightarrow> deps_wf m"
  by (simp add: deps_in_def deps_wf_def set_in_def)

lemma deps_in_Nil [simp]: "deps_in S []"
  by (simp add: deps_in_def bmap_wf_def)

lemma vals_bm_insert: "snd ` set (bm_insert k v m) \<subseteq> insert v (snd ` set m)"
  by (induction k v m rule: bm_insert.induct) auto

lemma deps_in_insert: "deps_in S m \<Longrightarrow> set_in S vs \<Longrightarrow> deps_in S (bm_insert k vs m)"
  unfolding deps_in_def using vals_bm_insert [of k vs m] bmap_wf_insert [of m k vs] by blast

lemma deps_in_lookup: "deps_in S m \<Longrightarrow> map_of m k = Some vs \<Longrightarrow> set_in S vs"
  unfolding deps_in_def by (force dest: map_of_SomeD)

lemma first_upstream_wf:
  "deps_in (set sel) memo \<Longrightarrow> first_upstream d sel memo visiting node = (r, memo') \<Longrightarrow>
     set_in (set sel) r \<and> deps_in (set sel) memo'"
  "deps_in (set sel) memo \<Longrightarrow> set_in (set sel) acc \<Longrightarrow>
   first_upstream_parents d sel memo visiting ps acc = (r, memo') \<Longrightarrow>
     set_in (set sel) r \<and> deps_in (set sel) memo'"
proof (induction d sel memo visiting node and d sel memo visiting ps acc
    arbitrary: r memo' and r memo' rule: first_upstream_first_upstream_parents.induct)
  case (1 d sel memo visiting node)
  show ?case
  proof (cases "map_of memo node")
    case (Some cached)
    then show ?thesis using 1 by (auto intro: deps_in_lookup)
  next
    case None
    note fresh = this
    show ?thesis
    proof (cases "node \<in> set visiting")
      case True
      then show ?thesis using 1 None by simp
    next
      case False
      show ?thesis
      proof (cases "map_of d node")
        case None
        then have "r = []" "memo' = bm_insert node [] memo" using 1(3) fresh False by auto
        then show ?thesis using deps_in_insert [OF 1(2), of "[]" node] by simp
      next
        case (Some parents)
        obtain res m where rm: "first_upstream_parents d sel memo (bs_insert node visiting) parents [] = (res, m)"
          by fastforce
        have "set_in (set sel) res \<and> deps_in (set sel) m"
          by (rule 1(1) [OF fresh False Some 1(2) _ rm]) simp
        moreover have "r = res" "memo' = bm_insert node res m" using 1(3) fresh False Some rm by auto
        ultimately show ?thesis by (simp add: deps_in_insert)
      qed
    qed
  qed
next
  case (3 d sel memo visiting parent parents result)
  show ?case
  proof (cases "parent \<in> set sel")
    case True
    show ?thesis by (rule 3(1) [OF True 3(4)]) (use 3(4-6) True in simp_all)
  next
    case False
    obtain up m where um: "first_upstream d sel memo visiting parent = (up, m)" by fastforce
    have "set_in (set sel) up \<and> deps_in (set sel) m" by (rule 3(2) [OF False 3(4) um])
    then show ?thesis
      by (intro 3(3) [OF False um [symmetric]]) (use 3(4-6) False um in simp_all)
  qed
qed simp

lemma restrict_fold_wf:
  "deps_in (set sel) memo \<Longrightarrow> deps_in (set sel) out \<Longrightarrow>
   fold (\<lambda>node (memo, out). case first_upstream d sel memo [] node of
      (parents, memo') \<Rightarrow> (memo', bm_insert node parents out)) ns (memo, out) = (memo', out') \<Longrightarrow>
   deps_in (set sel) out' \<and> dom (map_of out') = dom (map_of out) \<union> set ns"
proof (induction ns arbitrary: memo out)
  case (Cons n ns)
  obtain ps m where pm: "first_upstream d sel memo [] n = (ps, m)" by fastforce
  have w: "set_in (set sel) ps \<and> deps_in (set sel) m" by (rule first_upstream_wf(1) [OF Cons.prems(1) pm])
  have "deps_in (set sel) out' \<and> dom (map_of out') = dom (map_of (bm_insert n ps out)) \<union> set ns"
    by (rule Cons.IH [of m]) (use w Cons.prems pm in \<open>simp_all add: deps_in_insert\<close>)
  then show ?case using Cons.prems(2) by (auto simp: deps_in_def)
qed simp

lemma restrict_in: "deps_in (set sel) (restrict_with_transitive d sel)"
  and dom_restrict: "dom (map_of (restrict_with_transitive d sel)) = set sel"
proof -
  obtain memo' out' where f: "fold (\<lambda>node (memo, out). case first_upstream d sel memo [] node of
      (parents, memo') \<Rightarrow> (memo', bm_insert node parents out)) sel ([], []) = (memo', out')" by fastforce
  show "deps_in (set sel) (restrict_with_transitive d sel)" "dom (map_of (restrict_with_transitive d sel)) = set sel"
    using restrict_fold_wf [OF _ _ f] f by (simp_all add: restrict_with_transitive_def)
qed

lemmas restrict_wf = deps_in_wf [OF restrict_in]

text \<open>All values of a restricted graph are keys of it.\<close>

lemma graph_nodes_restrict: "graph_nodes (restrict_with_transitive d sel) = set sel"
  using restrict_in [of sel d] unfolding graph_nodes_def dom_restrict by (auto simp: deps_in_def set_in_def)

end
