(* ===== verification/Schedule_Invariant.thy ===== *)
theory Schedule_Invariant imports Schedule_Correct begin

text \<open>
  The invariants of a finished schedule: what is selected, what is frontier, the order of the nodes
  and the restricted graph; and that a schedule is built whenever the graph has no cycle.
\<close>

section \<open>The restricted graph keeps the order\<close>

lemma restrict_path:
  assumes "acyclic (edges (succs d))" and "x \<in> set sel"
  shows "(y, x) \<in> (edges (succs d))\<^sup>+ \<Longrightarrow>
    \<exists>p. first_up d (set sel) y p \<and> (p, x) \<in> (edges (succs (restrict_with_transitive d sel)))\<^sup>*"
proof (induction rule: converse_trancl_induct)
  case (base y)
  then have "first_up d (set sel) y x" using assms(2) by (auto intro: first_up.direct)
  then show ?case by blast
next
  case (step y z)
  then obtain p where p: "first_up d (set sel) z p"
    "(p, x) \<in> (edges (succs (restrict_with_transitive d sel)))\<^sup>*" by blast
  show ?case
  proof (cases "z \<in> set sel")
    case True
    then have "first_up d (set sel) y z" using step(1) by (auto intro: first_up.direct)
    moreover have "(z, p) \<in> edges (succs (restrict_with_transitive d sel))"
      using True p(1) by (simp add: set_succs_restrict [OF assms(1)])
    ultimately show ?thesis using p(2) by (meson converse_rtrancl_into_rtrancl)
  next
    case False
    then have "first_up d (set sel) y p" using step(1) p(1) by (auto intro: first_up.climb)
    then show ?thesis using p(2) by blast
  qed
qed

lemma restrict_order:
  assumes "acyclic (edges (succs d))" and "x \<in> set sel" and "y \<in> set sel" and "(y, x) \<in> (edges (succs d))\<^sup>+"
  shows "(y, x) \<in> (edges (succs (restrict_with_transitive d sel)))\<^sup>+"
proof -
  obtain p where p: "first_up d (set sel) y p"
    "(p, x) \<in> (edges (succs (restrict_with_transitive d sel)))\<^sup>*" using restrict_path [OF assms(1,2,4)] by blast
  have "(y, p) \<in> edges (succs (restrict_with_transitive d sel))"
    using assms(3) p(1) by (simp add: set_succs_restrict [OF assms(1)])
  then show ?thesis using p(2) by (rule rtrancl_into_trancl2)
qed

lemma split_in_front: "r @ s = xs @ x # ys \<Longrightarrow> x \<notin> set s \<Longrightarrow> \<exists>zs. r = xs @ x # zs \<and> ys = zs @ s"
proof (induction xs arbitrary: r)
  case Nil
  then show ?case by (cases r) auto
next
  case (Cons a xs)
  then show ?case by (cases r) auto
qed

text \<open>Sorting the restricted graph lists the selected nodes, each after what it depends on.\<close>

lemma sort_restricted:
  assumes "acyclic (edges (succs d))"
  obtains res where "topological_sort (restrict_with_transitive d sel) = Inr res" "distinct res" "set res = set sel"
    "\<And>xs x ys y. res = xs @ x # ys \<Longrightarrow> y \<in> set sel \<Longrightarrow> (y, x) \<in> (edges (succs d))\<^sup>+ \<Longrightarrow> y \<in> set ys"
proof -
  let ?r = "restrict_with_transitive d sel"
  obtain res where res: "topological_sort ?r = Inr res" "distinct res"
    "set res = {x \<in> graph_nodes ?r. \<not> (\<exists>y. (y, y) \<in> (edges (succs ?r))\<^sup>+ \<and> (y, x) \<in> (edges (succs ?r))\<^sup>*)}"
    "\<And>xs x ys y. res = xs @ x # ys \<Longrightarrow> (y, x) \<in> (edges (succs ?r))\<^sup>+ \<Longrightarrow> y \<in> set ys"
    by (rule topological_sort_correct [OF restrict_wf [of d sel]]) (rule that, assumption+)
  have none: "(y, y) \<notin> (edges (succs ?r))\<^sup>+" for y
    by (rule acyclic_def [THEN iffD1, OF restrict_acyclic [OF assms], THEN spec])
  then have "set res = graph_nodes ?r" unfolding res(3) by fast
  then have s: "set res = set sel" by (simp add: graph_nodes_restrict)
  show ?thesis
  proof (rule that [OF res(1,2) s])
    fix xs x ys y
    assume split: "res = xs @ x # ys" and y: "y \<in> set sel" "(y, x) \<in> (edges (succs d))\<^sup>+"
    have "x \<in> set sel" using split s by auto
    then show "y \<in> set ys" using res(4) [OF split] restrict_order [OF assms _ y] by blast
  qed
qed

section \<open>Frames enough for the ephemeral closure\<close>

definition rank_of :: "string deps \<Rightarrow> string \<Rightarrow> nat" where
  "rank_of d x = card {z. (x, z) \<in> (edges (succs d))\<^sup>+}"

lemma finite_below: "finite {z. (x, z) \<in> (edges (succs d))\<^sup>+}"
proof -
  have "{z. (x, z) \<in> (edges (succs d))\<^sup>+} \<subseteq> Range ((edges (succs d))\<^sup>+)" by blast
  moreover have "finite (Range ((edges (succs d))\<^sup>+))" by (simp add: finite_Range del: edges_iff)
  ultimately show ?thesis by (rule finite_subset)
qed

lemma rank_drops:
  assumes "acyclic (edges (succs d))" and "y \<in> set (succs d x)"
  shows "rank_of d y < rank_of d x"
  unfolding rank_of_def
proof (rule psubset_card_mono [OF finite_below])
  have e: "(x, y) \<in> (edges (succs d))\<^sup>+" using assms(2) by (auto intro: r_into_trancl)
  moreover have "(y, y) \<notin> (edges (succs d))\<^sup>+" using assms(1) by (simp add: acyclic_def)
  ultimately show "{z. (y, z) \<in> (edges (succs d))\<^sup>+} \<subset> {z. (x, z) \<in> (edges (succs d))\<^sup>+}"
    by (auto intro: trancl_trans)
qed

lemma rank_bound: "deps_wf d \<Longrightarrow> rank_of d x \<le> card (graph_nodes d)"
  unfolding rank_of_def
proof (rule card_mono [OF finite_graph_nodes])
  show "{z. (x, z) \<in> (edges (succs d))\<^sup>+} \<subseteq> graph_nodes d"
  proof
    fix z assume "z \<in> {z. (x, z) \<in> (edges (succs d))\<^sup>+}"
    then have "(x, z) \<in> (edges (succs d))\<^sup>+" by simp
    then obtain y where "(y, z) \<in> edges (succs d)" by (blast dest: tranclD2)
    then have "z \<in> set (succs d y)" by simp
    then show "z \<in> graph_nodes d" by (rule succs_nodes)
  qed
qed

lemma graph_unit_test_deps:
  assumes "nodes_wf ns" and "graph_of ns d"
  shows "unit_test_deps ns x \<subseteq> set (succs d x)"
proof (cases "map_of (unit_tests ns) x")
  case (Some t)
  then have "(x, t) \<in> set (iter ns)" by (auto simp: iter_def dest: map_of_SomeD)
  then have "get_node ns x = Some t" using iter_get_node [OF assms(1)] by simp
  then show ?thesis using Some assms(2) by (simp add: unit_test_deps_def graph_of_def)
qed (simp add: unit_test_deps_def)

lemma collect_ephemeral_returns:
  assumes "nodes_wf ns" and "graph_of ns d" and "acyclic (edges (succs d))" and "card (graph_nodes d) < frames"
  shows "\<exists>s. collect_ephemeral frames d ns uids acc = Inr s \<and>
    set s = set acc \<union> {z. \<exists>u \<in> set uids. ephemeral_above d ns u z}"
proof (induction uids arbitrary: acc)
  case (Cons u us)
  have drops: "rank_of d y < rank_of d x" if "y \<in> ephemeral_deps d ns x \<union> unit_test_deps ns x" for x y
  proof (rule rank_drops [OF assms(3)])
    show "y \<in> set (succs d x)" using that graph_unit_test_deps [OF assms(1,2)] by (auto simp: ephemeral_deps_def)
  qed
  have "deps_wf d" using assms(2) by (simp add: graph_of_def)
  then have "rank_of d u < frames" using rank_bound [of d u] assms(4) by simp
  then obtain s where s: "collect_ephemeral_upstream frames d ns u acc = Inr s"
    "set s = set acc \<union> {z. ephemeral_above d ns u z}" 
    using collect_ephemeral_upstream_rank [of d ns "rank_of d" u frames acc, OF drops] by blast
  obtain t where "collect_ephemeral frames d ns us s = Inr t"
    "set t = set s \<union> {z. \<exists>u \<in> set us. ephemeral_above d ns u z}" using Cons.IH [of s] by blast
  then show ?case using s by auto
qed simp

section \<open>What \<^verbatim>\<open>schedule_graph\<close> puts together\<close>

definition internal :: "nodes \<Rightarrow> string bset \<Rightarrow> string bset" where
  "internal ns chosen = filter (\<lambda>n. \<not> is_external ns n) chosen"

lemma set_internal: "set (internal ns chosen) = {u \<in> set chosen. \<not> is_external ns u}"
  by (simp add: internal_def)

lemma assemble_schedule_Inr:
  assumes "assemble_schedule frames debug_build X rs args chosen = Inr (sched, ems)"
  obtains sel frontier sorted where
    "(if command args \<noteq> ListNodes
      then rmap (bs_extend (internal (ctx_nodes X) chosen))
        (collect_ephemeral frames (ctx_deps X) (ctx_nodes X) (internal (ctx_nodes X) chosen) [])
      else Inr (internal (ctx_nodes X) chosen)) = Inr sel"
    "get_frontier_nodes sel (ctx_deps X) = Inr frontier"
    "topological_sort (restrict_with_transitive (ctx_deps X) sel) = Inr sorted"
    "all_selected_nodes sched = chosen" "selected_nodes sched = sel" "frontier_nodes sched = frontier"
    "sorted_nodes sched = sorted @ frontier"
    "sched_deps sched = restrict_with_transitive (ctx_deps X) (bs_extend sel frontier)"
    "ems = find_cycle_diagnostics (restrict_with_transitive (ctx_deps X) sel) (ctx_nodes X)"
  using assms unfolding assemble_schedule_def Let_def internal_def [symmetric]
  by (auto simp: result split del: if_split)

lemma assembled_selected:
  assumes "(if command args \<noteq> ListNodes
      then rmap (bs_extend (internal ns chosen)) (collect_ephemeral frames d ns (internal ns chosen) [])
      else Inr (internal ns chosen)) = Inr sel"
  shows "set (internal ns chosen) \<subseteq> set sel"
    and "\<And>u. u \<in> set sel \<Longrightarrow> u \<in> set (internal ns chosen) \<or> command args \<noteq> ListNodes \<and> is_ephemeral ns u"
    and "bset_wf chosen \<Longrightarrow> bset_wf sel"
proof -
  consider "command args = ListNodes" "sel = internal ns chosen"
    | eph where "command args \<noteq> ListNodes" "collect_ephemeral frames d ns (internal ns chosen) [] = Inr eph"
        "sel = bs_extend (internal ns chosen) eph"
    using assms by (auto simp: result split: if_splits)
  then have "set (internal ns chosen) \<subseteq> set sel \<and>
    (\<forall>u \<in> set sel. u \<in> set (internal ns chosen) \<or> command args \<noteq> ListNodes \<and> is_ephemeral ns u) \<and>
    (bset_wf chosen \<longrightarrow> bset_wf sel)"
  proof cases
    case 1
    then show ?thesis by (simp add: internal_def)
  next
    case (2 eph)
    have "set eph \<subseteq> {z. is_ephemeral ns z}"
      using collect_ephemeral_adds [OF 2(2)] by (simp add: adds_ephemeral_def)
    then show ?thesis using 2 by (auto simp: internal_def)
  qed
  then show "set (internal ns chosen) \<subseteq> set sel"
    "\<And>u. u \<in> set sel \<Longrightarrow> u \<in> set (internal ns chosen) \<or> command args \<noteq> ListNodes \<and> is_ephemeral ns u"
    "bset_wf chosen \<Longrightarrow> bset_wf sel" by simp_all
qed

text \<open>An external node is never ephemeral, so it is never selected, and the debug assertions hold.\<close>

lemma ephemeral_internal: "typed_nodes ns \<Longrightarrow> is_ephemeral ns u \<Longrightarrow> \<not> is_external ns u"
  by (auto simp: typed_nodes_def is_ephemeral_def is_external_def split: option.splits)

lemma external_node:
  "typed_nodes ns \<Longrightarrow> get_node ns u = Some n \<Longrightarrow>
   resource_type n = SourceNode \<or> is_extended_model n \<longleftrightarrow> is_external ns u"
  by (simp add: typed_nodes_def is_external_def)

lemma debug_assertions_hold:
  assumes "typed_nodes ns" and "set (frontier_nodes sched) \<inter> set (selected_nodes sched) = {}"
    and "\<And>u. u \<in> set (selected_nodes sched) \<Longrightarrow> \<not> is_external ns u"
  shows "debug_assert_invariants sched ns = Inr ()"
proof -
  have "bs_inter (frontier_nodes sched) (selected_nodes sched) = []"
    using assms(2) by (auto simp: bs_inter_def filter_empty_conv)
  moreover have "(\<And>u. u \<in> set us \<Longrightarrow> \<not> is_external ns u) \<Longrightarrow> assert_schedulable ns us = Inr ()" for us
  proof (induction us)
    case (Cons u us)
    have "\<not> is_external ns u" using Cons.prems by simp
    then have "\<not> (resource_type n = SourceNode \<or> is_extended_model n)" if "get_node ns u = Some n" for n
      using external_node [OF assms(1) that] by simp
    then show ?case using Cons by (simp split: option.split)
  qed simp
  ultimately show ?thesis using assms(3) by (simp add: debug_assert_invariants_def)
qed

lemma assembled_internal:
  assumes "typed_nodes ns" and "(if command args \<noteq> ListNodes
      then rmap (bs_extend (internal ns chosen)) (collect_ephemeral frames d ns (internal ns chosen) [])
      else Inr (internal ns chosen)) = Inr sel" and "u \<in> set sel"
  shows "\<not> is_external ns u"
  using assembled_selected(2) [OF assms(2,3)] ephemeral_internal [OF assms(1)] by (auto simp: set_internal)

lemma rbind_cong_ok: "(\<And>x. a = Inr x \<Longrightarrow> f x = g x) \<Longrightarrow> rbind a f = rbind a g"
  by (cases a) auto

lemma assemble_debug_release:
  assumes "typed_nodes (ctx_nodes X)"
  shows "assemble_schedule frames True X rs args chosen = assemble_schedule frames False X rs args chosen"
  unfolding assemble_schedule_def Let_def internal_def [symmetric] if_True if_False
proof (intro rbind_cong_ok)
  fix sel frontier sorted
  assume sel: "(if command args \<noteq> ListNodes
      then rmap (bs_extend (internal (ctx_nodes X) chosen))
        (collect_ephemeral frames (ctx_deps X) (ctx_nodes X) (internal (ctx_nodes X) chosen) [])
      else Inr (internal (ctx_nodes X) chosen)) = Inr sel"
    and f: "get_frontier_nodes sel (ctx_deps X) = Inr frontier"
  show "rmap g (debug_assert_invariants \<lparr>sched_deps = r, sorted_nodes = s, all_selected_nodes = c,
      selected_nodes = sel, frontier_nodes = frontier, overlapping_sources = q, sched_select = i, sched_exclude = e\<rparr>
      (ctx_nodes X)) = rmap g (Inr ())" for g r s c q i e
    using debug_assertions_hold [OF assms, of "\<lparr>sched_deps = r, sorted_nodes = s, all_selected_nodes = c,
      selected_nodes = sel, frontier_nodes = frontier, overlapping_sources = q, sched_select = i, sched_exclude = e\<rparr>"]
      frontier_disjoint [OF f] assembled_internal [OF assms sel] by simp
qed

section \<open>The whole build\<close>

definition depends :: "nodes \<Rightarrow> (string \<times> string) set" where
  "depends ns = {(u, v). \<exists>n. get_node ns u = Some n \<and> v \<in> set (depends_on n)}"

lemma graph_of_edges:
  assumes "graph_of ns d"
  shows "edges (succs d) = depends ns"
proof -
  have "v \<in> set (succs d u) \<longleftrightarrow> (u, v) \<in> depends ns" for u v
  proof (cases "get_node ns u")
    case None
    then have "u \<notin> dom (map_of d)" using assms by (simp add: graph_of_def contains_iff_get_node)
    then have "map_of d u = None" by (simp add: domIff)
    then show ?thesis using None by (simp add: depends_def)
  next
    case (Some n)
    then show ?thesis using assms by (simp add: graph_of_def depends_def)
  qed
  then show ?thesis by auto
qed

lemma succs_depends: "graph_of ns d \<Longrightarrow> y \<in> set (succs d x) \<longleftrightarrow> (x, y) \<in> depends ns"
  by (simp flip: graph_of_edges)

lemma schedule_graph_Inr:
  assumes "schedule_graph frames debug_build sha256_hex X rs args = Inr (sched, stats, ems)"
  obtains computed chosen report diagnostics where
    "computed_selection X rs args = Inr computed"
    "apply_selection_override sha256_hex (ctx_nodes X) args computed = (chosen, stats, report)"
    "assemble_schedule frames debug_build X rs args chosen = Inr (sched, diagnostics)"
    "ems = report @ diagnostics"
proof -
  obtain computed where c: "computed_selection X rs args = Inr computed"
    using assms by (auto simp: schedule_graph_def result)
  obtain chosen st report where
    o: "apply_selection_override sha256_hex (ctx_nodes X) args computed = (chosen, st, report)" by (metis prod_cases3)
  then show ?thesis using assms c that [OF c] by (auto simp: schedule_graph_def result)
qed

lemma build_schedule_Inr:
  assumes "build_schedule frames debug_build sha256_hex E cancelled args ns previous rs results = Inr (sched, ems)"
  obtains d X converted chosen warnings diagnostics where
    "derive_deps ns cancelled = Inr d" "ctx_nodes X = ns" "ctx_deps X = d"
    "assemble_schedule frames debug_build X converted args chosen = Inr (sched, diagnostics)"
    "ems = warnings @ diagnostics"
proof -
  obtain d where d: "derive_deps ns cancelled = Inr d"
    using assms by (auto simp: build_schedule_def result)
  let ?X = "\<lparr>ctx_env = E, ctx_deps = d, ctx_nodes = ns, ctx_previous = previous, ctx_results = results,
    ctx_selectors = selector_definitions rs\<rparr>"
  let ?rs = "\<lparr>sel_include = map_option fst (map_option convert_column_selectors_to_fqn (sel_include rs)),
    sel_excluded = map_option fst (map_option convert_column_selectors_to_fqn (sel_excluded rs)),
    selector_definitions = selector_definitions rs\<rparr>"
  obtain warnings stats more where
    g: "schedule_graph frames debug_build sha256_hex ?X ?rs args = Inr (sched, stats, more)"
    and ems: "ems = warnings @ more"
    using assms d unfolding build_schedule_def Let_def by (fastforce simp: result simp del: option.map_comp split_paired_Ex split: prod.splits)
  obtain chosen report diagnostics where
    "assemble_schedule frames debug_build ?X ?rs args chosen = Inr (sched, diagnostics)"
    "more = report @ diagnostics"
    by (rule schedule_graph_Inr [OF g])
  then show ?thesis using that [OF d, of ?X ?rs chosen diagnostics "warnings @ report"] ems by simp
qed

lemma cycle_errors_None: "concat (map (cycle_errors ns) (List.enumerate k cycles)) = [] \<longleftrightarrow> cycles = []"
  by (cases cycles) (auto simp: cycle_errors_def)

lemma find_cycle_diagnostics_None:
  "find_cycle_diagnostics d ns = [] \<longleftrightarrow> acyclic (edges (succs d))"
proof -
  obtain cycles cuts res where c: "find_and_cut_cycles d (\<lambda>_. True) = (cycles, cuts, res)" by (metis prod_cases3)
  then have "find_cycle_diagnostics d ns = [] \<longleftrightarrow> cycles = []"
    by (simp add: find_cycle_diagnostics_def cycle_errors_None del: concat_eq_Nil_conv)
  also have "\<dots> \<longleftrightarrow> acyclic (edges (succs d))" using find_and_cut_cycles_correct [OF c] by simp
  finally show ?thesis .
qed

section \<open>A schedule is built\<close>

definition unit_tests_depend :: "nodes \<Rightarrow> bool" where
  "unit_tests_depend ns \<longleftrightarrow>
     (\<forall>u n. get_node ns u = Some n \<longrightarrow> starts_with u ''unit_test.'' \<longrightarrow> depends_on n \<noteq> [])"

lemma frontier_returns:
  assumes "graph_of ns d" and "unit_tests_depend ns"
  shows "\<exists>F. get_frontier_nodes sel d = Inr F"
proof -
  have "map_of d u \<noteq> Some []" if u: "starts_with u ''unit_test.''" for u
  proof
    assume m: "map_of d u = Some []"
    then have "u \<in> dom (map_of d)" by blast
    then have "contains ns u" using assms(1) by (simp add: graph_of_def)
    then obtain n where n: "get_node ns u = Some n" by (auto simp: contains_iff_get_node)
    then have "set (succs d u) = set (depends_on n)" using assms(1) by (simp add: graph_of_def)
    then show False using m n u assms(2) by (auto simp: unit_tests_depend_def)
  qed
  then have "is_ok (get_frontier_nodes sel d)" by (simp add: get_frontier_nodes_def frontier_loop_ok)
  then show ?thesis by (cases "get_frontier_nodes sel d") auto
qed

lemma debug_ok:
  assumes "typed_nodes ns" and "(if command args \<noteq> ListNodes
      then rmap (bs_extend (internal ns chosen)) (collect_ephemeral frames d ns (internal ns chosen) [])
      else Inr (internal ns chosen)) = Inr sel"
    and "get_frontier_nodes sel d = Inr F" and "selected_nodes sched = sel" and "frontier_nodes sched = F"
  shows "debug_assert_invariants sched ns = Inr ()"
  by (rule debug_assertions_hold [OF assms(1)])
    (use frontier_disjoint [OF assms(3)] assembled_internal [OF assms(1,2)] assms(4,5) in simp_all)

lemma assemble_schedule_returns:
  assumes "nodes_wf (ctx_nodes X)" and "typed_nodes (ctx_nodes X)" and "graph_of (ctx_nodes X) (ctx_deps X)"
    and "acyclic (edges (succs (ctx_deps X)))" and "card (graph_nodes (ctx_deps X)) < frames"
    and "unit_tests_depend (ctx_nodes X)"
  shows "\<exists>sched. assemble_schedule frames debug_build X rs args chosen = Inr (sched, []) \<and>
    all_selected_nodes sched = chosen"
proof -
  let ?ns = "ctx_nodes X" and ?d = "ctx_deps X"
  obtain sel where sel: "(if command args \<noteq> ListNodes
      then rmap (bs_extend (internal ?ns chosen)) (collect_ephemeral frames ?d ?ns (internal ?ns chosen) [])
      else Inr (internal ?ns chosen)) = Inr sel"
    using collect_ephemeral_returns [OF assms(1,3,4,5), of "internal ?ns chosen" "[]"] by force
  obtain F where F: "get_frontier_nodes sel ?d = Inr F" using frontier_returns [OF assms(3,6)] by blast
  obtain srt where srt: "topological_sort (restrict_with_transitive ?d sel) = Inr srt"
    by (rule sort_restricted [OF assms(4)])
  have diag: "find_cycle_diagnostics (restrict_with_transitive ?d sel) ?ns = []"
    by (simp add: find_cycle_diagnostics_None restrict_acyclic [OF assms(4)] del: edges_iff)
  show ?thesis
    unfolding assemble_schedule_def Let_def internal_def [symmetric] sel
    by (simp add: F srt diag debug_ok [OF assms(2) sel F])
qed

lemma graph_nodes_contained:
  assumes "graph_of ns d" and "\<forall>(u, v) \<in> depends ns. contains ns v"
  shows "graph_nodes d \<subseteq> {u. contains ns u}"
proof -
  have "contains ns v" if vs: "vs \<in> snd ` set d" "v \<in> set vs" for vs v
  proof -
    obtain u where "(u, vs) \<in> set d" using vs(1) by auto
    then have "map_of d u = Some vs" using assms(1) by (simp add: graph_of_def deps_wf_def bmap_wf_map_of)
    then have "(u, v) \<in> edges (succs d)" using vs(2) by simp
    then have "(u, v) \<in> depends ns" by (simp only: graph_of_edges [OF assms(1)])
    then show ?thesis using assms(2) by blast
  qed
  then show ?thesis using assms(1) by (auto simp: graph_nodes_def graph_of_def)
qed

lemma card_nodes: "nodes_wf ns \<Longrightarrow> card {u. contains ns u} = node_count ns"
proof -
  assume "nodes_wf ns"
  then have d: "distinct (map fst (iter ns))" by (simp add: nodes_wf_def)
  have "{u. contains ns u} = set (map fst (iter ns))"
    unfolding contains_iff_get_node get_node_map_of by (auto simp: map_of_eq_None_iff)
  then show ?thesis using distinct_card [OF d] by (simp add: node_count_iter)
qed

lemma graph_nodes_count:
  assumes "nodes_wf ns" and "graph_of ns d" and "\<forall>(u, v) \<in> depends ns. contains ns v"
  shows "card (graph_nodes d) \<le> node_count ns"
proof -
  have "{u. contains ns u} = dom (map_of d)" using assms(2) by (simp add: graph_of_def)
  then have "finite {u. contains ns u}" by (simp add: finite_dom_map_of)
  then have "card (graph_nodes d) \<le> card {u. contains ns u}"
    by (rule card_mono) (rule graph_nodes_contained [OF assms(2,3)])
  then show ?thesis by (simp add: card_nodes [OF assms(1)])
qed

lemma derive_deps_returns:
  assumes "nodes_wf ns" and "\<forall>k. \<not> cancelled k"
  shows "is_ok (derive_deps ns cancelled) \<longleftrightarrow> (\<forall>(u, v) \<in> depends ns. contains ns v)"
proof -
  have "is_ok (derive_deps ns cancelled) \<longleftrightarrow> is_ok (collect_deps ns cancelled 1 (iter ns) [])"
    by (simp add: derive_deps_def is_ok_rmap)
  also have "\<dots> \<longleftrightarrow> (\<forall>(u, n) \<in> set (iter ns). \<forall>x \<in> set (depends_on n). contains ns x)"
    by (rule collect_deps_ok [OF assms(2)])
  also have "\<dots> \<longleftrightarrow> (\<forall>(u, v) \<in> depends ns. contains ns v)"
    using iter_get_node [OF assms(1)] by (fastforce simp: depends_def)
  finally show ?thesis .
qed

definition schedulable :: "(string \<Rightarrow> string) \<Rightarrow> nodes \<Rightarrow> SchedulerArgs \<Rightarrow> string \<Rightarrow> bool" where
  "schedulable sha256_hex ns args u \<longleftrightarrow>
     (command args = Compile \<longrightarrow> \<not> has_key (unit_tests ns) u) \<and>
     (\<forall>m. map_of (models ns) u = Some m \<longrightarrow> \<not> checksum_eq (checksum m) (checksum_hash sha256_hex [])) \<and>
     (\<forall>n. get_node ns u = Some n \<longrightarrow> resource_type n \<in> {TestNode, UnitTestNode} \<longrightarrow> enabled n)"

lemma set_retain_schedulable:
  "set (retain_schedulable sha256_hex ns args chosen) = {u \<in> set chosen. schedulable sha256_hex ns args u}"
  unfolding retain_schedulable_def Let_def schedulable_def by (auto split: option.splits)

text \<open>A project whose dependencies all exist and form no cycle.\<close>

definition sound_project :: "nodes \<Rightarrow> bool" where
  "sound_project ns \<longleftrightarrow> nodes_wf ns \<and> typed_nodes ns \<and> acyclic (depends ns) \<and>
     (\<forall>(u, v) \<in> depends ns. contains ns v) \<and> unit_tests_depend ns"

text \<open>A run without selectors.\<close>

definition plain_args :: "SchedulerArgs \<Rightarrow> bool" where
  "plain_args args \<longleftrightarrow> resource_types args = [] \<and> exclude_resource_types args = [] \<and>
     exclude_unique_ids args = [] \<and> selection_override args = None"

lemma plain_selection:
  assumes "plain_args args" and "sel_include rs = None" and "sel_excluded rs = None"
  shows "computed_selection X rs args = Inr (bs_of_list (materializable_keys (ctx_nodes X)))"
  using assms by (simp add: computed_selection_def plain_args_def retain_types_def)

lemma plain_schedule:
  assumes "sound_project ns" and "node_count ns < frames" and "\<forall>k. \<not> cancelled k" and "plain_args args"
    and "sel_include rs = None" and "sel_excluded rs = None"
  shows "\<exists>sched. build_schedule frames debug_build sha256_hex E cancelled args ns previous rs results = Inr (sched, []) \<and>
    all_selected_nodes sched = retain_schedulable sha256_hex ns args (bs_of_list (materializable_keys ns))"
proof -
  have p: "nodes_wf ns" "typed_nodes ns" "acyclic (depends ns)" "\<forall>(u, v) \<in> depends ns. contains ns v"
    "unit_tests_depend ns" using assms(1) by (simp_all add: sound_project_def)
  obtain d where d: "derive_deps ns cancelled = Inr d"
    using derive_deps_returns [OF p(1) assms(3)] p(4) by (cases "derive_deps ns cancelled") auto
  note g = derive_deps_graph(1) [OF p(1) d]
  have acyc: "acyclic (edges (succs d))" unfolding graph_of_edges [OF g] by (rule p(3))
  have fr: "card (graph_nodes d) < frames" using graph_nodes_count [OF p(1) g p(4)] assms(2) by simp
  let ?X = "\<lparr>ctx_env = E, ctx_deps = d, ctx_nodes = ns, ctx_previous = previous, ctx_results = results,
    ctx_selectors = selector_definitions rs\<rparr>"
  let ?rs = "\<lparr>sel_include = None, sel_excluded = None, selector_definitions = selector_definitions rs\<rparr>"
  let ?chosen = "retain_schedulable sha256_hex ns args (bs_of_list (materializable_keys ns))"
  obtain sched where "assemble_schedule frames debug_build ?X ?rs args ?chosen = Inr (sched, [])"
    "all_selected_nodes sched = ?chosen"
    using assemble_schedule_returns [of ?X frames debug_build ?rs args ?chosen] p g acyc fr by auto
  moreover have "computed_selection ?X ?rs args = Inr (bs_of_list (materializable_keys ns))"
    using plain_selection [OF assms(4), of ?rs ?X] by simp
  moreover have "selection_override args = None" using assms(4) by (simp add: plain_args_def)
  ultimately show ?thesis
    using assms(3,5,6) by (simp add: build_schedule_def check_cancellation_def d schedule_graph_def apply_selection_override_def)
qed

end
