(* ===== verification/Schedule_Contract.thy ===== *)
theory Schedule_Contract imports Schedule_Invariant Node_Match_Contract begin

text \<open>
  What the scheduler of \<^verbatim>\<open>crates/dbt-scheduler/src/schedule.rs\<close> promises the commands that run a
  schedule, with two small projects as the concrete instances.
\<close>

section \<open>Two projects\<close>

text \<open>A table on an ephemeral model, and two ephemeral models that depend on each other.\<close>

definition shop :: nodes where
  "shop = empty_nodes \<lparr>models :=
     [(''m.a'', sample_node ''m.a'' ''a'' \<lparr>materialized := Ephemeral\<rparr>),
      (''m.b'', sample_node ''m.b'' ''b'' \<lparr>depends_on := [''m.a'']\<rparr>)]\<rparr>"

definition shop_loop :: nodes where
  "shop_loop = empty_nodes \<lparr>models :=
     [(''m.a'', sample_node ''m.a'' ''a'' \<lparr>materialized := Ephemeral, depends_on := [''m.b'']\<rparr>),
      (''m.b'', sample_node ''m.b'' ''b'' \<lparr>materialized := Ephemeral, depends_on := [''m.a'']\<rparr>)]\<rparr>"

definition build_args :: SchedulerArgs where
  "build_args = \<lparr>command = Build, resource_types = [], exclude_resource_types = [], exclude_unique_ids = [],
     selection_override = None\<rparr>"

definition no_selectors :: ResolvedSelector where
  "no_selectors = \<lparr>sel_include = None, sel_excluded = None, selector_definitions = []\<rparr>"

lemma get_shop: "get_node shop u =
  (if u = ''m.a'' then Some (sample_node ''m.a'' ''a'' \<lparr>materialized := Ephemeral\<rparr>)
   else if u = ''m.b'' then Some (sample_node ''m.b'' ''b'' \<lparr>depends_on := [''m.a'']\<rparr>) else None)"
  by (simp add: shop_def get_node_def empty_nodes_def or_else_def)

lemma shop_depends: "depends shop = {(''m.b'', ''m.a'')}"
  by (auto simp: depends_def get_shop sample_node_def split: if_splits)

lemma shop_sound: "sound_project shop"
proof -
  have "nodes_wf shop" by (simp add: nodes_wf_def iter_def shop_def empty_nodes_def) (simp add: sample_node_def)
  moreover have "typed_nodes shop"
    unfolding typed_nodes_def get_shop by (simp add: has_key_def shop_def empty_nodes_def sample_node_def)
  moreover have "acyclic (depends shop)" by (simp add: shop_depends acyclic_insert) (simp add: acyclic_def)
  moreover have "unit_tests_depend shop" unfolding unit_tests_depend_def get_shop by (simp add: starts_with_def)
  ultimately show ?thesis by (simp add: sound_project_def shop_depends contains_iff_get_node get_shop)
qed

lemma shop_count: "node_count shop = 2"
  by (simp add: node_count_def shop_def empty_nodes_def)

lemma shop_schedule:
  obtains sched where
    "build_schedule 3 debug_build (\<lambda>_. ''e3'') no_globs (\<lambda>_. False) build_args shop None no_selectors None = Inr (sched, [])"
    "set (all_selected_nodes sched) = {''m.a'', ''m.b''}"
proof -
  obtain sched where s:
    "build_schedule 3 debug_build (\<lambda>_. ''e3'') no_globs (\<lambda>_. False) build_args shop None no_selectors None = Inr (sched, [])"
    "all_selected_nodes sched = retain_schedulable (\<lambda>_. ''e3'') shop build_args (bs_of_list (materializable_keys shop))"
    using plain_schedule [OF shop_sound, of 3 "\<lambda>_. False" build_args no_selectors debug_build "\<lambda>_. ''e3''" no_globs None None]
    by (auto simp: shop_count plain_args_def build_args_def no_selectors_def)
  have "materializable_keys shop = [''m.a'', ''m.b'']" by (simp add: materializable_keys_def shop_def empty_nodes_def)
  moreover have "schedulable (\<lambda>_. ''e3'') shop build_args u" if "u \<in> {''m.a'', ''m.b''}" for u
    using that by (auto simp: schedulable_def build_args_def get_shop)
      (auto simp: shop_def empty_nodes_def sample_node_def checksum_hash_def split: if_splits)
  ultimately have "set (all_selected_nodes sched) = {''m.a'', ''m.b''}"
    unfolding s(2) set_retain_schedulable by auto
  with s(1) show ?thesis by (rule that)
qed

section \<open>The dependency graph\<close>

text \<open>\<^verbatim>\<open>derive_deps\<close>, unless it is cancelled, fails exactly when a node depends on an id that is
  no node; otherwise its graph is ordered, has the nodes as its keys and the dependencies of the
  nodes as its edges.\<close>

theorem derive_deps_exact:
  assumes "nodes_wf ns" and "\<forall>k. \<not> cancelled k"
  shows "(is_ok (derive_deps ns cancelled) \<longleftrightarrow> (\<forall>(u, v) \<in> depends ns. contains ns v)) \<and>
    (\<forall>d. derive_deps ns cancelled = Inr d \<longrightarrow>
       deps_wf d \<and> dom (map_of d) = {u. contains ns u} \<and> edges (succs d) = depends ns)"
proof (intro conjI allI impI)
  show "is_ok (derive_deps ns cancelled) \<longleftrightarrow> (\<forall>(u, v) \<in> depends ns. contains ns v)"
    by (rule derive_deps_returns [OF assms])
  fix d assume "derive_deps ns cancelled = Inr d"
  note g = derive_deps_graph(1) [OF assms(1) this]
  show "edges (succs d) = depends ns" by (rule graph_of_edges [OF g])
  show "deps_wf d" "dom (map_of d) = {u. contains ns u}" using g by (simp_all add: graph_of_def)
qed

theorem derive_deps_witness:
  "\<exists>d. derive_deps shop (\<lambda>_. False) = Inr d \<and> edges (succs d) = {(''m.b'', ''m.a'')}"
proof -
  have n: "nodes_wf shop" and "\<forall>(u, v) \<in> depends shop. contains shop v"
    using shop_sound by (simp_all add: sound_project_def)
  then obtain d where "derive_deps shop (\<lambda>_. False) = Inr d"
    using derive_deps_exact [OF n, of "\<lambda>_. False"] by (cases "derive_deps shop (\<lambda>_. False)") auto
  then show ?thesis using derive_deps_exact [OF n, of "\<lambda>_. False"] shop_depends by auto
qed

section \<open>Ephemeral models\<close>

text \<open>In an acyclic project the recursion that collects the ephemeral models above the selected
  nodes ends on a stack of one frame more than the project has nodes, and collects exactly the
  ephemeral models that ephemeral models alone, or a tested model first, lead to.\<close>

theorem ephemeral_closure_ends:
  assumes "sound_project ns" and "derive_deps ns cancelled = Inr d" and "node_count ns < frames"
  shows "\<exists>s. collect_ephemeral frames d ns uids [] = Inr s \<and>
    set s = {z. \<exists>u \<in> set uids. ephemeral_above d ns u z}"
proof -
  have p: "nodes_wf ns" "acyclic (depends ns)" "\<forall>(u, v) \<in> depends ns. contains ns v"
    using assms(1) by (simp_all add: sound_project_def)
  note g = derive_deps_graph(1) [OF p(1) assms(2)]
  have "acyclic (edges (succs d))" unfolding graph_of_edges [OF g] by (rule p(2))
  then show ?thesis
    using collect_ephemeral_returns [OF p(1) g _ le_less_trans [OF graph_nodes_count [OF p(1) g p(3)] assms(3)], of uids "[]"]
    by simp
qed

theorem ephemeral_closure_witness:
  "\<exists>d s. derive_deps shop (\<lambda>_. False) = Inr d \<and> collect_ephemeral 3 d shop [''m.b''] [] = Inr s \<and> ''m.a'' \<in> set s"
proof -
  have n: "nodes_wf shop" using shop_sound by (simp add: sound_project_def)
  obtain d where d: "derive_deps shop (\<lambda>_. False) = Inr d"
    using derive_deps_returns [OF n, of "\<lambda>_. False"] shop_sound
    by (cases "derive_deps shop (\<lambda>_. False)") (auto simp: sound_project_def)
  have "(''m.b'', ''m.a'') \<in> edges (succs d)"
    unfolding graph_of_edges [OF derive_deps_graph(1) [OF n d]] by (simp add: shop_depends)
  then have "ephemeral_above d shop ''m.b'' ''m.a''"
    by (intro ephemeral_above.direct) (simp add: ephemeral_deps_def is_ephemeral_def get_shop)
  then show ?thesis using ephemeral_closure_ends [OF shop_sound d, of 3 "[''m.b'']"] d shop_count by auto
qed

text \<open>C39 When ephemeral models depend on each other in a circle and one of them is selected, assembling
  the schedule of any command but \<^verbatim>\<open>list\<close> ends in a stack overflow, however many frames the stack has.
  It never returns a schedule, and never the error of the diagnostics that would report the
  circle: the walk comes before them and exhausts the stack.\<close>

theorem ephemeral_cycle_overflows:
  assumes "graph_of (ctx_nodes X) (ctx_deps X)" and "command args \<noteq> ListNodes"
    and "\<And>x. x \<in> C \<Longrightarrow> \<exists>y \<in> C. (x, y) \<in> depends (ctx_nodes X) \<and> is_ephemeral (ctx_nodes X) y"
    and "u \<in> C" and "u \<in> set chosen" and "\<not> is_external (ctx_nodes X) u"
  shows "assemble_schedule frames debug_build X rs args chosen = Inl (Panic ''stack overflow'')"
proof -
  have "\<exists>y \<in> C. y \<in> ephemeral_deps (ctx_deps X) (ctx_nodes X) x" if "x \<in> C" for x
    using assms(3) [OF that] by (simp add: ephemeral_deps_def succs_depends [OF assms(1)])
  then have "collect_ephemeral frames (ctx_deps X) (ctx_nodes X) (internal (ctx_nodes X) chosen) [] =
      Inl (Panic ''stack overflow'')"
    using assms(4,5,6) by (intro collect_ephemeral_overflows [of C]) (simp_all add: set_internal)
  then show ?thesis using assms(2) by (simp add: assemble_schedule_def internal_def [symmetric])
qed

lemma get_loop: "get_node shop_loop u =
  (if u = ''m.a'' then Some (sample_node ''m.a'' ''a'' \<lparr>materialized := Ephemeral, depends_on := [''m.b'']\<rparr>)
   else if u = ''m.b'' then Some (sample_node ''m.b'' ''b'' \<lparr>materialized := Ephemeral, depends_on := [''m.a'']\<rparr>) else None)"
  by (simp add: shop_loop_def get_node_def empty_nodes_def or_else_def)

lemma loop_depends: "depends shop_loop = {(''m.a'', ''m.b''), (''m.b'', ''m.a'')}"
  by (auto simp: depends_def get_loop sample_node_def split: if_splits)

lemma loop_wf: "nodes_wf shop_loop"
  by (simp add: nodes_wf_def iter_def shop_loop_def empty_nodes_def) (simp add: sample_node_def)

theorem ephemeral_cycle_witness:
  "\<exists>d. derive_deps shop_loop (\<lambda>_. False) = Inr d \<and>
     (\<forall>frames. assemble_schedule frames False \<lparr>ctx_env = no_globs, ctx_deps = d, ctx_nodes = shop_loop,
       ctx_previous = None, ctx_results = None, ctx_selectors = []\<rparr> no_selectors build_args [''m.a''] =
         Inl (Panic ''stack overflow''))"
proof -
  obtain d where d: "derive_deps shop_loop (\<lambda>_. False) = Inr d"
    using derive_deps_returns [OF loop_wf, of "\<lambda>_. False"]
    by (cases "derive_deps shop_loop (\<lambda>_. False)") (auto simp: loop_depends contains_iff_get_node get_loop)
  have i: "\<not> is_external shop_loop ''m.a''"
    by (simp add: is_external_def get_loop has_key_def) (simp add: shop_loop_def empty_nodes_def sample_node_def)
  have "\<exists>y \<in> {''m.a'', ''m.b''}. (x, y) \<in> depends shop_loop \<and> is_ephemeral shop_loop y"
    if "x \<in> {''m.a'', ''m.b''}" for x
    using that by (auto simp: loop_depends is_ephemeral_def get_loop)
  then show ?thesis
    using ephemeral_cycle_overflows [of "\<lparr>ctx_env = no_globs, ctx_deps = d, ctx_nodes = shop_loop,
        ctx_previous = None, ctx_results = None, ctx_selectors = []\<rparr>" build_args "{''m.a'', ''m.b''}" "''m.a''" "[''m.a'']"]
      derive_deps_graph(1) [OF loop_wf d] d i by (auto simp: build_args_def)
qed

section \<open>The frontier\<close>

text \<open>C40 \<^verbatim>\<open>get_frontier_nodes\<close> panics exactly when a selected unit test has an entry without dependencies in
  the graph. Otherwise the frontier is ordered and disjoint from the selection. It consists of the
  dependencies of selected nodes that are not selected and are neither metrics nor semantic models,
  and, for each selected unit test, of all dependencies of its first dependency that are not
  selected. The dependencies of its further dependencies are left out.\<close>

theorem frontier_exact:
  "(is_ok (get_frontier_nodes chosen d) \<longleftrightarrow>
      (\<forall>u \<in> set chosen. starts_with u ''unit_test.'' \<longrightarrow> map_of d u \<noteq> Some [])) \<and>
   (\<forall>F. get_frontier_nodes chosen d = Inr F \<longrightarrow>
      bset_wf F \<and> set F \<inter> set chosen = {} \<and>
      set F = (\<Union>u \<in> set chosen. {x \<in> set (succs d u). x \<notin> set chosen \<and> hydrated x} \<union>
        (if starts_with u ''unit_test.'' then \<Union> (set ` succs d ` set (take 1 (succs d u))) - set chosen else {})))"
proof (intro conjI allI impI)
  show "is_ok (get_frontier_nodes chosen d) \<longleftrightarrow>
      (\<forall>u \<in> set chosen. starts_with u ''unit_test.'' \<longrightarrow> map_of d u \<noteq> Some [])"
    by (simp add: get_frontier_nodes_def frontier_loop_ok)
  fix F assume F: "get_frontier_nodes chosen d = Inr F"
  show "bset_wf F" by (rule set_frontier(1) [OF F])
  show "set F \<inter> set chosen = {}" by (rule frontier_disjoint [OF F])
  show "set F = (\<Union>u \<in> set chosen. {x \<in> set (succs d u). x \<notin> set chosen \<and> hydrated x} \<union>
        (if starts_with u ''unit_test.'' then \<Union> (set ` succs d ` set (take 1 (succs d u))) - set chosen else {}))"
    using set_frontier(2) [OF F] by (simp only: frontier_of_def)
qed

theorem frontier_witness:
  "is_ok (get_frontier_nodes [''m.b''] [(''m.a'', []), (''m.b'', [''m.a''])]) \<and>
   \<not> is_ok (get_frontier_nodes [''unit_test.t''] [(''unit_test.t'', [])])"
  using frontier_exact [of "[''m.b'']" "[(''m.a'', []), (''m.b'', [''m.a''])]"]
    frontier_exact [of "[''unit_test.t'']" "[(''unit_test.t'', [])]"] by (simp add: starts_with_def)

section \<open>Every schedule\<close>

text \<open>C1 In every schedule that is built no node is both selected and frontier, no source and no node of
  another project is selected, all other nodes of the selection are, whatever is selected beyond the selection is
  ephemeral, and the graph is ordered, has the selected and frontier nodes as its keys, and has no value that
  is not a key.\<close>

theorem schedule_invariants:
  assumes "typed_nodes ns"
    and "build_schedule frames debug_build sha256_hex E cancelled args ns previous rs results = Inr (sched, ems)"
  shows "set (frontier_nodes sched) \<inter> set (selected_nodes sched) = {} \<and>
    (\<forall>u \<in> set (selected_nodes sched). \<not> is_external ns u) \<and>
    {u \<in> set (all_selected_nodes sched). \<not> is_external ns u} \<subseteq> set (selected_nodes sched) \<and>
    (\<forall>u \<in> set (selected_nodes sched) - set (all_selected_nodes sched). is_ephemeral ns u) \<and>
    deps_wf (sched_deps sched) \<and>
    dom (map_of (sched_deps sched)) = set (selected_nodes sched) \<union> set (frontier_nodes sched) \<and>
    graph_nodes (sched_deps sched) = dom (map_of (sched_deps sched))"
proof -
  obtain X converted chosen diagnostics where X: "ctx_nodes X = ns"
    and a: "assemble_schedule frames debug_build X converted args chosen = Inr (sched, diagnostics)"
    by (rule build_schedule_Inr [OF assms(2)])
  note facts = assemble_schedule_Inr [OF a, unfolded X]
  obtain sel F where sel: "(if command args \<noteq> ListNodes
      then rmap (bs_extend (internal ns chosen)) (collect_ephemeral frames (ctx_deps X) ns (internal ns chosen) [])
      else Inr (internal ns chosen)) = Inr sel"
    and F: "get_frontier_nodes sel (ctx_deps X) = Inr F"
    and eqs: "all_selected_nodes sched = chosen" "selected_nodes sched = sel" "frontier_nodes sched = F"
      "sched_deps sched = restrict_with_transitive (ctx_deps X) (bs_extend sel F)"
    by (rule facts)
  note subset = assembled_selected(1,2) [OF sel]
  show ?thesis unfolding eqs
  proof (intro conjI)
    show "set F \<inter> set sel = {}" by (rule frontier_disjoint [OF F])
    show "\<forall>u \<in> set sel. \<not> is_external ns u" using assembled_internal [OF assms(1) sel] by blast
    show "{u \<in> set chosen. \<not> is_external ns u} \<subseteq> set sel" using subset(1) by (simp add: set_internal)
    show "\<forall>u \<in> set sel - set chosen. is_ephemeral ns u" using subset(2) by (auto simp: set_internal)
    show "deps_wf (restrict_with_transitive (ctx_deps X) (bs_extend sel F))" by (rule restrict_wf)
    show "dom (map_of (restrict_with_transitive (ctx_deps X) (bs_extend sel F))) = set sel \<union> set F"
      by (simp add: dom_restrict)
    show "graph_nodes (restrict_with_transitive (ctx_deps X) (bs_extend sel F)) =
        dom (map_of (restrict_with_transitive (ctx_deps X) (bs_extend sel F)))"
      by (simp add: dom_restrict graph_nodes_restrict)
  qed
qed

theorem schedule_invariants_witness:
  "\<exists>sched. build_schedule 3 True (\<lambda>_. ''e3'') no_globs (\<lambda>_. False) build_args shop None no_selectors None = Inr (sched, []) \<and>
     {''m.a'', ''m.b''} \<subseteq> set (selected_nodes sched)"
proof -
  obtain sched where s:
    "build_schedule 3 True (\<lambda>_. ''e3'') no_globs (\<lambda>_. False) build_args shop None no_selectors None = Inr (sched, [])"
    "set (all_selected_nodes sched) = {''m.a'', ''m.b''}" by (rule shop_schedule)
  have t: "typed_nodes shop" using shop_sound by (simp add: sound_project_def)
  have "\<not> is_external shop u" if "u \<in> {''m.a'', ''m.b''}" for u
    using that by (auto simp: is_external_def get_shop has_key_def) (simp_all add: shop_def empty_nodes_def sample_node_def)
  then have "{u \<in> set (all_selected_nodes sched). \<not> is_external shop u} = {''m.a'', ''m.b''}"
    unfolding s(2) by blast
  then show ?thesis using schedule_invariants [OF t s(1)] s(1) by simp
qed

text \<open>C2 In an acyclic project a schedule lists the selected and frontier nodes once each, a selected
  node after everything selected that it depends on, directly or through nodes left out.\<close>

theorem schedule_order:
  assumes "nodes_wf ns" and "acyclic (depends ns)"
    and "build_schedule frames debug_build sha256_hex E cancelled args ns previous rs results = Inr (sched, ems)"
  shows "distinct (sorted_nodes sched) \<and>
    set (sorted_nodes sched) = set (selected_nodes sched) \<union> set (frontier_nodes sched) \<and>
    (\<forall>xs x ys y. sorted_nodes sched = xs @ x # ys \<longrightarrow> x \<in> set (selected_nodes sched) \<longrightarrow>
      y \<in> set (selected_nodes sched) \<longrightarrow> (y, x) \<in> (depends ns)\<^sup>+ \<longrightarrow> y \<in> set ys)"
proof -
  obtain d X converted chosen diagnostics where d: "derive_deps ns cancelled = Inr d"
    and X: "ctx_nodes X = ns" "ctx_deps X = d"
    and a: "assemble_schedule frames debug_build X converted args chosen = Inr (sched, diagnostics)"
    by (rule build_schedule_Inr [OF assms(3)])
  have e: "edges (succs d) = depends ns" by (rule graph_of_edges [OF derive_deps_graph(1) [OF assms(1) d]])
  obtain sel F srt where F: "get_frontier_nodes sel d = Inr F"
    and srt: "topological_sort (restrict_with_transitive d sel) = Inr srt"
    and eqs: "selected_nodes sched = sel" "frontier_nodes sched = F" "sorted_nodes sched = srt @ F"
    by (rule assemble_schedule_Inr [OF a, unfolded X])
  obtain res where res: "topological_sort (restrict_with_transitive d sel) = Inr res" "distinct res" "set res = set sel"
    "\<And>xs x ys y. res = xs @ x # ys \<Longrightarrow> y \<in> set sel \<Longrightarrow> (y, x) \<in> (depends ns)\<^sup>+ \<Longrightarrow> y \<in> set ys"
    by (rule sort_restricted [of d sel, unfolded e, OF assms(2)]) (rule that, assumption+)
  have "srt = res" using srt res(1) by simp
  have disj: "set F \<inter> set sel = {}" by (rule frontier_disjoint [OF F])
  show ?thesis unfolding eqs \<open>srt = res\<close>
  proof (intro conjI allI impI)
    show "distinct (res @ F)" using res(2,3) disj set_frontier(1) [OF F] by (auto simp: bset_wf_def strict_sorted_iff)
    show "set (res @ F) = set sel \<union> set F" by (simp add: res(3))
    fix xs x ys y
    assume l: "res @ F = xs @ x # ys" and x: "x \<in> set sel" and y: "y \<in> set sel" "(y, x) \<in> (depends ns)\<^sup>+"
    have "x \<notin> set F" using x disj by blast
    then obtain zs where "res = xs @ x # zs" "ys = zs @ F"
      using split_in_front [OF l] by blast
    then show "y \<in> set ys" using res(4) [OF _ y] by simp
  qed
qed

theorem schedule_order_witness:
  "\<exists>sched. build_schedule 3 True (\<lambda>_. ''e3'') no_globs (\<lambda>_. False) build_args shop None no_selectors None = Inr (sched, []) \<and>
     distinct (sorted_nodes sched)"
proof -
  obtain sched where s:
    "build_schedule 3 True (\<lambda>_. ''e3'') no_globs (\<lambda>_. False) build_args shop None no_selectors None = Inr (sched, [])"
    by (rule shop_schedule)
  have "nodes_wf shop" "acyclic (depends shop)" using shop_sound by (simp_all add: sound_project_def)
  then show ?thesis using schedule_order [OF _ _ s] s by blast
qed

text \<open>The assertions that only a debug build makes never fire, so a debug build schedules what a
  release build schedules.\<close>

theorem debug_build_equals_release:
  assumes "typed_nodes ns"
  shows "build_schedule frames True sha256_hex E cancelled args ns previous rs results =
    build_schedule frames False sha256_hex E cancelled args ns previous rs results"
proof -
  have "schedule_graph frames True sha256_hex X converted args = schedule_graph frames False sha256_hex X converted args"
    if "ctx_nodes X = ns" for X converted
    unfolding schedule_graph_def using assemble_debug_release [of X] assms that by simp
  then show ?thesis by (simp add: build_schedule_def Let_def)
qed

theorem debug_build_witness:
  "build_schedule 0 True (\<lambda>_. ''e3'') no_globs (\<lambda>_. False) build_args shop None no_selectors None =
   build_schedule 0 False (\<lambda>_. ''e3'') no_globs (\<lambda>_. False) build_args shop None no_selectors None"
  using debug_build_equals_release [of shop] shop_sound by (simp add: sound_project_def)

text \<open>C3 A run without selectors on a project whose dependencies all exist and form no circle is
  scheduled: with a stack of more frames than nodes there is a schedule, without warnings and errors,
  and it selects the nodes that can be materialized and run.\<close>

theorem default_run_scheduled:
  assumes "sound_project ns" and "node_count ns < frames" and "\<forall>k. \<not> cancelled k" and "plain_args args"
    and "sel_include rs = None" and "sel_excluded rs = None"
  shows "\<exists>sched. build_schedule frames debug_build sha256_hex E cancelled args ns previous rs results = Inr (sched, []) \<and>
    set (all_selected_nodes sched) = {u \<in> set (materializable_keys ns). schedulable sha256_hex ns args u}"
  using plain_schedule [OF assms, of debug_build sha256_hex E previous results]
  by (auto simp: set_retain_schedulable)

theorem default_run_witness:
  "is_ok (build_schedule 3 True (\<lambda>_. ''e3'') no_globs (\<lambda>_. False) build_args shop None no_selectors None)"
proof -
  have "node_count shop < 3" "plain_args build_args" "sel_include no_selectors = None" "sel_excluded no_selectors = None"
    by (simp_all add: shop_count plain_args_def build_args_def no_selectors_def)
  from default_run_scheduled [OF shop_sound this(1) _ this(2-4), of "\<lambda>_. False" True "\<lambda>_. ''e3''" no_globs None None]
  show ?thesis by auto
qed

end
