(* ===== verification/Schedule_Change_Contract.thy ===== *)
theory Schedule_Change_Contract imports Schedule_Contract begin

text \<open>
  What decides the nodes of a schedule before it is built, the selection of the caller or an externally
  supplied set, and what the change for sidecar execution leaves of it.
\<close>

section \<open>The computed selection\<close>

text \<open>The dependencies of a test or unit test; what the resource type filters let through.\<close>

definition tested_by :: "nodes \<Rightarrow> string \<Rightarrow> string set" where
  "tested_by ns u = (case map_of (tests ns) u of Some t \<Rightarrow> set (depends_on t) | None \<Rightarrow> unit_test_deps ns u)"

definition type_admitted :: "nodes \<Rightarrow> SchedulerArgs \<Rightarrow> string \<Rightarrow> bool" where
  "type_admitted ns args u \<longleftrightarrow>
     resource_types args = [] \<and> exclude_resource_types args = [] \<or>
     (\<exists>n. get_node ns u = Some n \<and>
        Inr (resource_type n) \<notin> resource_node_type ` set (exclude_resource_types args) \<and>
        (resource_types args = [] \<or> Inr (resource_type n) \<in> resource_node_type ` set (resource_types args)))"

lemma keeps_test_iff:
  "keeps_test ns excluded ids u \<longleftrightarrow> tested_by ns u \<inter> (set excluded \<union> set ids) = {}"
  by (auto simp: keeps_test_def tested_by_def unit_test_deps_def has_key_def list_ex_iff split: option.splits)

lemma collect_results_set: "collect_results f xs = Inr ys \<Longrightarrow> Inr y \<in> f ` set xs \<longleftrightarrow> y \<in> set ys"
  unfolding collect_results_Inr by (induction xs ys rule: list_all2_induct) auto

lemma retain_types_set:
  assumes "retain_types ns args chosen = Inr s"
  shows "set s = {u \<in> set chosen. type_admitted ns args u}"
proof (cases "resource_types args \<noteq> [] \<or> exclude_resource_types args \<noteq> []")
  case False
  then show ?thesis using assms by (simp add: retain_types_def type_admitted_def)
next
  case True
  then obtain ins outs where i: "collect_results resource_node_type (resource_types args) = Inr ins"
    and e: "collect_results resource_node_type (exclude_resource_types args) = Inr outs"
    and s: "s = filter (keeps_type ns ins outs) chosen"
    using assms by (auto simp: retain_types_def result)
  have "ins = [] \<longleftrightarrow> resource_types args = []" using i unfolding collect_results_Inr
    by (metis list_all2_Nil list_all2_Nil2)
  then have "keeps_type ns ins outs u \<longleftrightarrow> type_admitted ns args u" for u
    using True by (auto simp: keeps_type_def type_admitted_def collect_results_set [OF i] collect_results_set [OF e]
      split: option.splits)
  then show ?thesis by (simp add: s)
qed

text \<open>The selection a caller's inputs compute: what the include expression evaluates to, or everything
  that can be materialized, without what the exclude expression evaluates to and the excluded ids,
  without the tests of which any dependency is excluded, whatever their indirect selection mode, and
  restricted by the resource type filters.\<close>

theorem computed_selection_exact:
  assumes "computed_selection X rs args = Inr s"
  shows "\<exists>base excluded.
    (case sel_include rs of
       Some i \<Rightarrow> expand_selector X (if command args = Show then with_indirect_selection Empty i else i) = Inr base
     | None \<Rightarrow> set base = set (materializable_keys (ctx_nodes X))) \<and>
    (case sel_excluded rs of Some e \<Rightarrow> expand_selector X e = Inr excluded | None \<Rightarrow> excluded = []) \<and>
    set s = {u \<in> set base. u \<notin> set excluded \<union> set (exclude_unique_ids args) \<and>
      tested_by (ctx_nodes X) u \<inter> (set excluded \<union> set (exclude_unique_ids args)) = {} \<and>
      type_admitted (ctx_nodes X) args u}"
proof -
  obtain base excluded where
    b: "(case sel_include rs of
       Some i \<Rightarrow> expand_selector X (if command args = Show then with_indirect_selection Empty i else i)
     | None \<Rightarrow> Inr (bs_of_list (materializable_keys (ctx_nodes X)))) = Inr base"
    and e: "(case sel_excluded rs of Some e \<Rightarrow> expand_selector X e | None \<Rightarrow> Inr []) = Inr excluded"
    and t: "retain_types (ctx_nodes X) args
      (if excluded \<noteq> [] \<or> exclude_unique_ids args \<noteq> []
       then filter (keeps_test (ctx_nodes X) excluded (exclude_unique_ids args))
         (filter (\<lambda>n. \<not> (n \<in> set excluded \<or> n \<in> set (exclude_unique_ids args))) base)
       else filter (\<lambda>n. \<not> (n \<in> set excluded \<or> n \<in> set (exclude_unique_ids args))) base) = Inr s"
    using assms unfolding computed_selection_def Let_def by (auto simp only: rbind_eq_Inr)
  have "set s = {u \<in> set base. u \<notin> set excluded \<union> set (exclude_unique_ids args) \<and>
      tested_by (ctx_nodes X) u \<inter> (set excluded \<union> set (exclude_unique_ids args)) = {} \<and>
      type_admitted (ctx_nodes X) args u}"
    unfolding retain_types_set [OF t] by (auto simp: keeps_test_iff)
  moreover have "case sel_include rs of
       Some i \<Rightarrow> expand_selector X (if command args = Show then with_indirect_selection Empty i else i) = Inr base
     | None \<Rightarrow> set base = set (materializable_keys (ctx_nodes X))"
    using b by (auto split: option.splits)
  moreover have "case sel_excluded rs of Some e \<Rightarrow> expand_selector X e = Inr excluded | None \<Rightarrow> excluded = []"
    using e by (auto split: option.splits)
  ultimately show ?thesis by blast
qed

definition shop_context :: context_data where
  "shop_context = \<lparr>ctx_env = no_globs, ctx_deps = [], ctx_nodes = shop, ctx_previous = None, ctx_results = None,
     ctx_selectors = []\<rparr>"

theorem computed_selection_witness:
  "rmap set (computed_selection shop_context no_selectors (build_args \<lparr>exclude_unique_ids := [''m.a'']\<rparr>)) = Inr {''m.b''}"
proof -
  have keys: "set (materializable_keys shop) = {''m.a'', ''m.b''}"
    by (simp add: materializable_keys_def shop_def empty_nodes_def)
  have X: "ctx_nodes shop_context = shop" by (simp add: shop_context_def)
  let ?args = "build_args \<lparr>exclude_unique_ids := [''m.a'']\<rparr>"
  obtain s where s: "computed_selection shop_context no_selectors ?args = Inr s"
    by (auto simp: computed_selection_def retain_types_def no_selectors_def build_args_def Let_def)
  have "tested_by shop u = {}" for u by (simp add: tested_by_def unit_test_deps_def shop_def empty_nodes_def)
  moreover have "type_admitted shop ?args u" for u by (simp add: type_admitted_def build_args_def)
  moreover have "sel_include no_selectors = None" "sel_excluded no_selectors = None" "exclude_unique_ids ?args = [''m.a'']"
    by (simp_all add: no_selectors_def)
  ultimately have "set s = {u \<in> {''m.a'', ''m.b''}. u \<noteq> ''m.a''}"
    using computed_selection_exact [OF s] by (auto simp: X keys)
  then show ?thesis by (auto simp: s)
qed

section \<open>A supplied selection\<close>

text \<open>With an override the selection of the schedule is the supplied ids that are nodes and can be
  run, whatever the selectors, the excluded ids and the resource types are, and the replacement is
  reported as a warning.\<close>

theorem override_replaces_selection:
  assumes "selection_override args = Some over"
    and "schedule_graph frames debug_build sha256_hex X rs args = Inr (sched, stats, ems)"
  shows "set (all_selected_nodes sched) =
      {u \<in> set (override_ids over). get_node (ctx_nodes X) u \<noteq> None \<and> schedulable sha256_hex (ctx_nodes X) args u} \<and>
    (\<exists>msg. WarnMessage SelectionOverrideActive msg \<in> set ems)"
proof -
  obtain computed chosen report diagnostics where
    o: "apply_selection_override sha256_hex (ctx_nodes X) args computed = (chosen, stats, report)"
    and a: "assemble_schedule frames debug_build X rs args chosen = Inr (sched, diagnostics)"
    and ems: "ems = report @ diagnostics"
    by (rule schedule_graph_Inr [OF assms(2)])
  have "all_selected_nodes sched = chosen" by (rule assemble_schedule_Inr [OF a])
  moreover have "chosen = retain_schedulable sha256_hex (ctx_nodes X) args
      (filter (\<lambda>uid. get_node (ctx_nodes X) uid \<noteq> None) (override_ids over))"
    using o assms(1) by (auto simp: apply_selection_override_def Let_def)
  moreover have "\<exists>msg. WarnMessage SelectionOverrideActive msg \<in> set report"
    using o assms(1) by (auto simp: apply_selection_override_def override_report_def Let_def)
  ultimately show ?thesis by (auto simp: set_retain_schedulable ems)
qed

section \<open>Sidecar execution\<close>

definition remote_of :: "nodes \<Rightarrow> NodeType set \<Rightarrow> string \<Rightarrow> bool" where
  "remote_of ns T u \<longleftrightarrow> (\<exists>n. get_node ns u = Some n \<and> compute n = Some Remote \<and> resource_type n \<in> T)"

lemma classify_remote_Inr:
  "classify_remote ns uids (moved, removed) = Inr (m, r) \<Longrightarrow>
   set m = set moved \<union> {u \<in> set uids. remote_of ns {Model, Snapshot} u} \<and>
   set r = set removed \<union> {u \<in> set uids. remote_of ns {TestNode, UnitTestNode} u} \<and>
   (\<forall>u \<in> set uids. is_remote ns u \<longrightarrow> remote_of ns {Model, Snapshot} u \<or> remote_of ns {TestNode, UnitTestNode} u)"
proof (induction uids arbitrary: moved removed)
  case (Cons u us)
  have none: "\<not> remote_of ns T u" if "\<not> is_remote ns u" for T using that by (auto simp: remote_of_def is_remote_def)
  consider "\<not> is_remote ns u" "classify_remote ns us (moved, removed) = Inr (m, r)"
    | "remote_of ns {Model, Snapshot} u" "\<not> remote_of ns {TestNode, UnitTestNode} u"
      "classify_remote ns us (bs_insert u moved, removed) = Inr (m, r)"
    | "remote_of ns {TestNode, UnitTestNode} u" "\<not> remote_of ns {Model, Snapshot} u"
      "classify_remote ns us (moved, bs_insert u removed) = Inr (m, r)"
    using Cons.prems by (auto simp: is_remote_def remote_of_def split: option.splits if_splits)
  then show ?case
  proof cases
    case 1
    then show ?thesis using Cons.IH [OF 1(2)] none [OF 1(1)] by auto
  next
    case 2
    then show ?thesis using Cons.IH [OF 2(3)] by auto
  next
    case 3
    then show ?thesis using Cons.IH [OF 3(3)] by auto
  qed
qed simp

lemma fold_move:
  "set (selected_nodes (fold move_to_frontier us s)) = set (selected_nodes s) - set us \<and>
   set (frontier_nodes (fold move_to_frontier us s)) = set (frontier_nodes s) \<union> set us \<and>
   sorted_nodes (fold move_to_frontier us s) = sorted_nodes s \<and>
   sched_deps (fold move_to_frontier us s) = sched_deps s"
  by (induction us arbitrary: s) (auto simp: move_to_frontier_def)

lemma drop_test_simps:
  "set (selected_nodes (drop_test u s)) = set (selected_nodes s) - {u}"
  "frontier_nodes (drop_test u s) = frontier_nodes s"
  "sorted_nodes (drop_test u s) = filter (\<lambda>x. x \<noteq> u) (sorted_nodes s)"
  "dom (map_of (sched_deps (drop_test u s))) = dom (map_of (sched_deps s)) - {u}"
  by (simp_all add: drop_test_def)

lemma fold_drop:
  "set (selected_nodes (fold drop_test us s)) = set (selected_nodes s) - set us \<and>
   frontier_nodes (fold drop_test us s) = frontier_nodes s \<and>
   sorted_nodes (fold drop_test us s) = filter (\<lambda>x. x \<notin> set us) (sorted_nodes s) \<and>
   dom (map_of (sched_deps (fold drop_test us s))) = dom (map_of (sched_deps s)) - set us"
proof (induction us arbitrary: s)
  case (Cons u us)
  have "filter (\<lambda>x. x \<notin> set us) (filter (\<lambda>x. x \<noteq> u) xs) = filter (\<lambda>x. x \<notin> insert u (set us)) xs" for xs
    by (induction xs) auto
  then show ?case unfolding fold_simps list.set Diff_insert2 [of _ u "set us"]
    using Cons.IH [of "drop_test u s"] by (simp only: drop_test_simps simp_thms)
qed simp

text \<open>
  What both invariants of a schedule say of its sets: the frontier is disjoint from the selection, and
  both together are what is listed and what the graph has keys for.
\<close>

definition schedule_consistent :: "Schedule \<Rightarrow> bool" where
  "schedule_consistent s \<longleftrightarrow> set (frontier_nodes s) \<inter> set (selected_nodes s) = {} \<and>
     set (sorted_nodes s) = set (selected_nodes s) \<union> set (frontier_nodes s) \<and>
     dom (map_of (sched_deps s)) = set (selected_nodes s) \<union> set (frontier_nodes s)"

lemma sidecar_sets:
  assumes "modify_schedule_for_sidecar_compute_boundaries s ns = Inr t"
  obtains moved gone where
    "moved = {u \<in> set (selected_nodes s). remote_of ns {Model, Snapshot} u}"
    "gone = {u \<in> set (selected_nodes s). remote_of ns {TestNode, UnitTestNode} u \<or> u \<notin> moved \<and> is_stale_test ns u}"
    "\<forall>u \<in> set (selected_nodes s). is_remote ns u \<longrightarrow> u \<in> moved \<or> remote_of ns {TestNode, UnitTestNode} u"
    "set (selected_nodes t) = set (selected_nodes s) - moved - gone"
    "set (frontier_nodes t) = set (frontier_nodes s) \<union> moved"
    "set (sorted_nodes t) = set (sorted_nodes s) - gone"
    "dom (map_of (sched_deps t)) = dom (map_of (sched_deps s)) - gone"
proof -
  obtain moved removed where c: "classify_remote ns (selected_nodes s) ([], []) = Inr (moved, removed)"
    and t: "t = fold drop_test (removed @ filter (is_stale_test ns) (selected_nodes (fold move_to_frontier moved s)))
      (fold move_to_frontier moved s)"
    using assms by (auto simp: modify_schedule_for_sidecar_compute_boundaries_def result Let_def)
  let ?m = "fold move_to_frontier moved s"
  note r = classify_remote_Inr [OF c]
  have m: "set (selected_nodes ?m) = set (selected_nodes s) - set moved"
    "set (frontier_nodes ?m) = set (frontier_nodes s) \<union> set moved"
    "sorted_nodes ?m = sorted_nodes s" "sched_deps ?m = sched_deps s" by (simp_all add: fold_move)
  let ?gone = "set (removed @ filter (is_stale_test ns) (selected_nodes ?m))"
  note d = fold_drop [of "removed @ filter (is_stale_test ns) (selected_nodes ?m)" ?m, folded t]
  show ?thesis
  proof (rule that [of "set moved" ?gone])
    show "set moved = {u \<in> set (selected_nodes s). remote_of ns {Model, Snapshot} u}" using r by simp
    show "?gone = {u \<in> set (selected_nodes s). remote_of ns {TestNode, UnitTestNode} u \<or> u \<notin> set moved \<and> is_stale_test ns u}"
      using r m(1) by auto
    show "\<forall>u \<in> set (selected_nodes s). is_remote ns u \<longrightarrow> u \<in> set moved \<or> remote_of ns {TestNode, UnitTestNode} u"
      using r by simp
    show "set (selected_nodes t) = set (selected_nodes s) - set moved - ?gone" using d m(1) by simp
    show "set (frontier_nodes t) = set (frontier_nodes s) \<union> set moved" using d m(2) by simp
    show "set (sorted_nodes t) = set (sorted_nodes s) - ?gone" using d m(3) by auto
    show "dom (map_of (sched_deps t)) = dom (map_of (sched_deps s)) - ?gone" using d m(4) by simp
  qed
qed

text \<open>Sidecar execution keeps a consistent schedule consistent. Afterwards no selected node runs
  remotely and no selected test depends on one that does; the remote models and snapshots have become
  frontier, nothing else has, and only tests are gone.\<close>

theorem sidecar_boundaries:
  assumes "schedule_consistent s" and "modify_schedule_for_sidecar_compute_boundaries s ns = Inr t"
  shows "schedule_consistent t \<and>
    (\<forall>u \<in> set (selected_nodes t). \<not> is_remote ns u \<and> \<not> is_stale_test ns u) \<and>
    set (frontier_nodes t) = set (frontier_nodes s) \<union> {u \<in> set (selected_nodes s). remote_of ns {Model, Snapshot} u} \<and>
    (\<forall>u \<in> set (selected_nodes s) - set (selected_nodes t) - set (frontier_nodes t).
       remote_of ns {TestNode, UnitTestNode} u \<or> is_stale_test ns u)"
proof -
  obtain moved gone where moved: "moved = {u \<in> set (selected_nodes s). remote_of ns {Model, Snapshot} u}"
    and gone: "gone = {u \<in> set (selected_nodes s). remote_of ns {TestNode, UnitTestNode} u \<or> u \<notin> moved \<and> is_stale_test ns u}"
    and all: "\<forall>u \<in> set (selected_nodes s). is_remote ns u \<longrightarrow> u \<in> moved \<or> remote_of ns {TestNode, UnitTestNode} u"
    and sel: "set (selected_nodes t) = set (selected_nodes s) - moved - gone"
    and fr: "set (frontier_nodes t) = set (frontier_nodes s) \<union> moved"
    and rest: "set (sorted_nodes t) = set (sorted_nodes s) - gone"
      "dom (map_of (sched_deps t)) = dom (map_of (sched_deps s)) - gone"
    by (rule sidecar_sets [OF assms(2)])
  have disj: "set (frontier_nodes s) \<inter> set (selected_nodes s) = {}"
    and both: "set (sorted_nodes s) = set (selected_nodes s) \<union> set (frontier_nodes s)"
      "dom (map_of (sched_deps s)) = set (selected_nodes s) \<union> set (frontier_nodes s)"
    using assms(1) by (simp_all add: schedule_consistent_def)
  have sub: "moved \<subseteq> set (selected_nodes s)" "gone \<subseteq> set (selected_nodes s)" unfolding moved gone by auto
  have "remote_of ns {TestNode, UnitTestNode} u \<Longrightarrow> \<not> remote_of ns {Model, Snapshot} u" for u
    by (auto simp: remote_of_def)
  then have apart: "gone \<inter> moved = {}" unfolding moved gone by blast
  have split: "set (selected_nodes s) \<union> set (frontier_nodes s) - gone = set (selected_nodes t) \<union> set (frontier_nodes t)"
    unfolding sel fr using disj sub apart by blast
  show ?thesis
  proof (intro conjI)
    show "schedule_consistent t"
      unfolding schedule_consistent_def rest both split using disj sub unfolding sel fr by blast
    show "\<forall>u \<in> set (selected_nodes t). \<not> is_remote ns u \<and> \<not> is_stale_test ns u"
      using all unfolding sel gone by blast
    show "set (frontier_nodes t) = set (frontier_nodes s) \<union> {u \<in> set (selected_nodes s). remote_of ns {Model, Snapshot} u}"
      unfolding fr moved ..
    show "\<forall>u \<in> set (selected_nodes s) - set (selected_nodes t) - set (frontier_nodes t).
        remote_of ns {TestNode, UnitTestNode} u \<or> is_stale_test ns u"
      unfolding sel fr gone by blast
  qed
qed

definition remote_shop :: nodes where
  "remote_shop = empty_nodes \<lparr>models :=
     [(''m.a'', sample_node ''m.a'' ''a'' \<lparr>compute := Some Remote\<rparr>),
      (''m.b'', sample_node ''m.b'' ''b'' \<lparr>depends_on := [''m.a'']\<rparr>)]\<rparr>"

definition remote_schedule :: Schedule where
  "remote_schedule = \<lparr>sched_deps = [(''m.a'', []), (''m.b'', [''m.a''])], sorted_nodes = [''m.a'', ''m.b''],
     all_selected_nodes = [''m.a'', ''m.b''], selected_nodes = [''m.a'', ''m.b''], frontier_nodes = [],
     overlapping_sources = [], sched_select = None, sched_exclude = None\<rparr>"

lemma get_remote_shop: "get_node remote_shop u =
  (if u = ''m.a'' then Some (sample_node ''m.a'' ''a'' \<lparr>compute := Some Remote\<rparr>)
   else if u = ''m.b'' then Some (sample_node ''m.b'' ''b'' \<lparr>depends_on := [''m.a'']\<rparr>) else None)"
  by (simp add: remote_shop_def get_node_def empty_nodes_def or_else_def)

theorem sidecar_witness:
  "\<exists>t. modify_schedule_for_sidecar_compute_boundaries remote_schedule remote_shop = Inr t \<and>
     ''m.a'' \<in> set (frontier_nodes t) \<and> ''m.a'' \<notin> set (selected_nodes t)"
proof -
  have c: "schedule_consistent remote_schedule"
    by (auto simp: schedule_consistent_def remote_schedule_def split: if_splits)
  have "classify_remote remote_shop [''m.a'', ''m.b''] ([], []) = Inr ([''m.a''], [])"
    by (simp add: get_remote_shop) (simp add: sample_node_def bs_insert_def)
  then obtain t where t: "modify_schedule_for_sidecar_compute_boundaries remote_schedule remote_shop = Inr t"
    by (simp add: modify_schedule_for_sidecar_compute_boundaries_def remote_schedule_def)
  note b = sidecar_boundaries [OF c t]
  have "is_remote remote_shop ''m.a''" "remote_of remote_shop {Model, Snapshot} ''m.a''"
    by (simp_all add: is_remote_def remote_of_def get_remote_shop) (simp_all add: sample_node_def)
  moreover have "''m.a'' \<in> set (selected_nodes remote_schedule)" by (simp add: remote_schedule_def)
  ultimately show ?thesis using t b by blast
qed

theorem override_witness:
  "\<exists>X sched stats ems. schedule_graph 3 True (\<lambda>_. ''e3'') X no_selectors
       (build_args \<lparr>selection_override := Some \<lparr>override_ids = [''m.b'', ''m.x''], override_source = ''run''\<rparr>\<rparr>) =
     Inr (sched, stats, ems) \<and> set (all_selected_nodes sched) = {''m.b''}"
proof -
  have p: "nodes_wf shop" "typed_nodes shop" "acyclic (depends shop)" "\<forall>(u, v) \<in> depends shop. contains shop v"
    "unit_tests_depend shop" using shop_sound by (simp_all add: sound_project_def)
  obtain d where d: "derive_deps shop (\<lambda>_. False) = Inr d"
    using derive_deps_returns [OF p(1), of "\<lambda>_. False"] p(4) by (cases "derive_deps shop (\<lambda>_. False)") auto
  note g = derive_deps_graph(1) [OF p(1) d]
  let ?X = "\<lparr>ctx_env = no_globs, ctx_deps = d, ctx_nodes = shop, ctx_previous = None, ctx_results = None, ctx_selectors = []\<rparr>"
  let ?over = "\<lparr>override_ids = [''m.b'', ''m.x''], override_source = ''run''\<rparr>"
  let ?args = "build_args \<lparr>selection_override := Some ?over\<rparr>"
  have "\<exists>sched. assemble_schedule 3 True ?X no_selectors ?args chosen = Inr (sched, [])" for chosen
    using assemble_schedule_returns [of ?X 3 True no_selectors ?args chosen] p g
      graph_nodes_count [OF p(1) g p(4)] shop_count graph_of_edges [OF g] by auto
  moreover have "computed_selection ?X no_selectors ?args = Inr (bs_of_list (materializable_keys shop))"
    by (simp add: computed_selection_def retain_types_def no_selectors_def build_args_def)
  ultimately obtain sched stats ems where s: "schedule_graph 3 True (\<lambda>_. ''e3'') ?X no_selectors ?args = Inr (sched, stats, ems)"
    by (fastforce simp: schedule_graph_def result split: prod.splits)
  have "schedulable (\<lambda>_. ''e3'') shop ?args ''m.b''"
    by (simp add: schedulable_def build_args_def get_shop)
      (simp add: shop_def empty_nodes_def sample_node_def checksum_hash_def)
  then have "set (all_selected_nodes sched) = {''m.b''}"
    using override_replaces_selection [OF _ s, of ?over] by (auto simp: get_shop)
  with s show ?thesis by blast
qed

end
