(* ===== verification/Task_State.thy ===== *)
theory Task_State imports Dbt_Prelude "HOL-Library.Word" begin

unbundle bit_operations_syntax

text \<open>
  The state word of a task (\<^verbatim>\<open>crates/dbt-runtime/src/task/state.rs\<close>): lifecycle, flags and reference
  count in one 64-bit atomic. Every transition is one read-modify-write; a closure returns what to
  report and the word to store, and \<open>atomically\<close> applies it. \<open>fetch_update_action\<close> is the
  compare-and-exchange loop itself, over the values other threads store in between.
\<close>

section \<open>The bits\<close>

type_synonym snapshot = "64 word"

definition RUNNING :: snapshot where "RUNNING = 0b1"

definition COMPLETE :: snapshot where "COMPLETE = 0b10"

definition LIFECYCLE_MASK :: snapshot where "LIFECYCLE_MASK = 0b11"

definition NOTIFIED :: snapshot where "NOTIFIED = 0b100"

definition JOIN_INTEREST :: snapshot where "JOIN_INTEREST = 0b1000"

definition JOIN_WAKER :: snapshot where "JOIN_WAKER = 0b10000"

definition CANCELLED :: snapshot where "CANCELLED = 0b100000"

definition STATE_MASK :: snapshot where
  "STATE_MASK = LIFECYCLE_MASK OR NOTIFIED OR JOIN_INTEREST OR JOIN_WAKER OR CANCELLED"

definition REF_COUNT_MASK :: snapshot where
  "REF_COUNT_MASK = NOT STATE_MASK"

definition count_zeros :: "snapshot \<Rightarrow> nat" where
  "count_zeros w = length (filter (\<lambda>n. \<not> bit w n) [0..<64])"

definition REF_COUNT_SHIFT :: nat where
  "REF_COUNT_SHIFT = count_zeros REF_COUNT_MASK"

definition REF_ONE :: snapshot where
  "REF_ONE = push_bit REF_COUNT_SHIFT 1"

definition INITIAL_STATE :: snapshot where
  "INITIAL_STATE = (REF_ONE * 3) OR JOIN_INTEREST OR NOTIFIED"

definition isize_max :: snapshot where
  "isize_max = 0x7FFFFFFFFFFFFFFF"

section \<open>Snapshots\<close>

definition is_idle :: "snapshot \<Rightarrow> bool" where
  "is_idle s \<longleftrightarrow> s AND (RUNNING OR COMPLETE) = 0"

definition is_notified :: "snapshot \<Rightarrow> bool" where
  "is_notified s \<longleftrightarrow> s AND NOTIFIED = NOTIFIED"

definition unset_notified :: "snapshot \<Rightarrow> snapshot" where
  "unset_notified s = s AND NOT NOTIFIED"

definition set_notified :: "snapshot \<Rightarrow> snapshot" where
  "set_notified s = s OR NOTIFIED"

definition is_running :: "snapshot \<Rightarrow> bool" where
  "is_running s \<longleftrightarrow> s AND RUNNING = RUNNING"

definition set_running :: "snapshot \<Rightarrow> snapshot" where
  "set_running s = s OR RUNNING"

definition unset_running :: "snapshot \<Rightarrow> snapshot" where
  "unset_running s = s AND NOT RUNNING"

definition is_cancelled :: "snapshot \<Rightarrow> bool" where
  "is_cancelled s \<longleftrightarrow> s AND CANCELLED = CANCELLED"

definition set_cancelled :: "snapshot \<Rightarrow> snapshot" where
  "set_cancelled s = s OR CANCELLED"

definition is_complete :: "snapshot \<Rightarrow> bool" where
  "is_complete s \<longleftrightarrow> s AND COMPLETE = COMPLETE"

definition is_join_interested :: "snapshot \<Rightarrow> bool" where
  "is_join_interested s \<longleftrightarrow> s AND JOIN_INTEREST = JOIN_INTEREST"

definition unset_join_interested :: "snapshot \<Rightarrow> snapshot" where
  "unset_join_interested s = s AND NOT JOIN_INTEREST"

definition is_join_waker_set :: "snapshot \<Rightarrow> bool" where
  "is_join_waker_set s \<longleftrightarrow> s AND JOIN_WAKER = JOIN_WAKER"

definition set_join_waker_bit :: "snapshot \<Rightarrow> snapshot" where
  "set_join_waker_bit s = s OR JOIN_WAKER"

definition unset_join_waker :: "snapshot \<Rightarrow> snapshot" where
  "unset_join_waker s = s AND NOT JOIN_WAKER"

definition ref_count :: "snapshot \<Rightarrow> snapshot" where
  "ref_count s = drop_bit REF_COUNT_SHIFT (s AND REF_COUNT_MASK)"

definition assertion :: "bool \<Rightarrow> 'a fs_result \<Rightarrow> 'a fs_result" where
  "assertion b r = (if b then r else Inl (Panic ''assertion failed''))"

definition snapshot_ref_inc :: "snapshot \<Rightarrow> snapshot fs_result" where
  "snapshot_ref_inc s = assertion (s \<le> isize_max) (Inr (s + REF_ONE))"

definition snapshot_ref_dec :: "snapshot \<Rightarrow> snapshot fs_result" where
  "snapshot_ref_dec s = assertion (0 < ref_count s) (Inr (s - REF_ONE))"

section \<open>Read-modify-write\<close>

text \<open>
  The loop: \<open>actuals\<close> are the values the successive compare-and-exchange instructions find. The
  second component of a result is what was stored, if anything; \<open>None\<close> is a loop still running.
\<close>

fun fetch_update_action ::
    "(snapshot \<Rightarrow> ('a \<times> snapshot option) fs_result) \<Rightarrow> snapshot list \<Rightarrow> snapshot \<Rightarrow>
     ('a \<times> snapshot option) fs_result option" where
  "fetch_update_action f actuals cur =
     (case f cur of
        Inl e \<Rightarrow> Some (Inl e)
      | Inr (out, None) \<Rightarrow> Some (Inr (out, None))
      | Inr (out, Some new) \<Rightarrow>
          (case actuals of
             [] \<Rightarrow> None
           | actual # rest \<Rightarrow>
               if actual = cur then Some (Inr (out, Some new)) else fetch_update_action f rest actual))"

definition atomically ::
    "(snapshot \<Rightarrow> ('a \<times> snapshot option) fs_result) \<Rightarrow> snapshot \<Rightarrow> ('a \<times> snapshot) fs_result" where
  "atomically f s = rmap (\<lambda>(out, new). (out, case new of Some n \<Rightarrow> n | None \<Rightarrow> s)) (f s)"

text \<open>\<^verbatim>\<open>fetch_update\<close> reports the word it stored, or the one it left.\<close>

definition fetch_update :: "(snapshot \<Rightarrow> snapshot option fs_result) \<Rightarrow> snapshot \<Rightarrow> ((snapshot + snapshot) \<times> snapshot) fs_result" where
  "fetch_update f s = rmap (\<lambda>new. case new of Some n \<Rightarrow> (Inr n, n) | None \<Rightarrow> (Inl s, s)) (f s)"

section \<open>Transitions\<close>

datatype TransitionToRunning = RunSuccess | RunCancelled | RunFailed | RunDealloc

datatype TransitionToIdle = IdleOk | IdleOkNotified | IdleOkDealloc | IdleCancelled

datatype TransitionToNotifiedByVal = ValDoNothing | ValSubmit | ValDealloc

datatype TransitionToNotifiedByRef = RefDoNothing | RefSubmit

record TransitionToJoinHandleDrop =
  drop_waker :: bool
  drop_output :: bool

definition transition_to_running :: "snapshot \<Rightarrow> (TransitionToRunning \<times> snapshot) fs_result" where
  "transition_to_running = atomically (\<lambda>next.
     assertion (is_notified next)
       (if \<not> is_idle next then
          rmap (\<lambda>next. (if ref_count next = 0 then RunDealloc else RunFailed, Some next)) (snapshot_ref_dec next)
        else
          let next = unset_notified (set_running next)
          in Inr (if is_cancelled next then RunCancelled else RunSuccess, Some next)))"

definition transition_to_idle :: "snapshot \<Rightarrow> (TransitionToIdle \<times> snapshot) fs_result" where
  "transition_to_idle = atomically (\<lambda>cur.
     assertion (is_running cur)
       (if is_cancelled cur then Inr (IdleCancelled, None)
        else
          let next = unset_running cur
          in if \<not> is_notified next then
               rmap (\<lambda>next. (if ref_count next = 0 then IdleOkDealloc else IdleOk, Some next)) (snapshot_ref_dec next)
             else rmap (\<lambda>next. (IdleOkNotified, Some next)) (snapshot_ref_inc next)))"

text \<open>The assertions after a \<^verbatim>\<open>fetch_xor\<close> or \<^verbatim>\<open>fetch_sub\<close> come when the word is already changed.\<close>

definition transition_to_complete :: "snapshot \<Rightarrow> (snapshot \<times> snapshot) fs_result" where
  "transition_to_complete prev =
     (let delta = RUNNING OR COMPLETE
      in assertion (is_running prev \<and> \<not> is_complete prev) (Inr (prev XOR delta, prev XOR delta)))"

definition transition_to_terminal :: "snapshot \<Rightarrow> snapshot \<Rightarrow> (bool \<times> snapshot) fs_result" where
  "transition_to_terminal count prev =
     assertion (count \<le> ref_count prev) (Inr (ref_count prev = count, prev - count * REF_ONE))"

definition transition_to_notified_by_val :: "snapshot \<Rightarrow> (TransitionToNotifiedByVal \<times> snapshot) fs_result" where
  "transition_to_notified_by_val = atomically (\<lambda>s.
     if is_running s then
       rbind (snapshot_ref_dec (set_notified s)) (\<lambda>s. assertion (0 < ref_count s) (Inr (ValDoNothing, Some s)))
     else if is_complete s \<or> is_notified s then
       rmap (\<lambda>s. (if ref_count s = 0 then ValDealloc else ValDoNothing, Some s)) (snapshot_ref_dec s)
     else rmap (\<lambda>s. (ValSubmit, Some s)) (snapshot_ref_inc (set_notified s)))"

definition transition_to_notified_by_ref :: "snapshot \<Rightarrow> (TransitionToNotifiedByRef \<times> snapshot) fs_result" where
  "transition_to_notified_by_ref = atomically (\<lambda>s.
     if is_complete s then Inr (RefDoNothing, None)
     else if is_notified s then Inr (RefDoNothing, Some s)
     else if is_running s then Inr (RefDoNothing, Some (set_notified s))
     else rmap (\<lambda>s. (RefSubmit, Some s)) (snapshot_ref_inc (set_notified s)))"

definition transition_to_notified_and_cancel :: "snapshot \<Rightarrow> (bool \<times> snapshot) fs_result" where
  "transition_to_notified_and_cancel = atomically (\<lambda>s.
     if is_cancelled s \<or> is_complete s then Inr (False, None)
     else if is_running s then Inr (False, Some (set_cancelled (set_notified s)))
     else
       let s = set_cancelled s
       in if \<not> is_notified s then rmap (\<lambda>s. (True, Some s)) (snapshot_ref_inc (set_notified s))
          else Inr (False, Some s))"

definition transition_to_shutdown :: "snapshot \<Rightarrow> (bool \<times> snapshot) fs_result" where
  "transition_to_shutdown prev =
     rmap (\<lambda>(_, new). (is_idle prev, new))
       (fetch_update (\<lambda>s. Inr (Some (set_cancelled (if is_idle s then set_running s else s)))) prev)"

text \<open>\<^verbatim>\<open>compare_exchange_weak\<close> may also fail without cause: \<open>spurious\<close>.\<close>

definition drop_join_handle_fast :: "bool \<Rightarrow> snapshot \<Rightarrow> bool \<times> snapshot" where
  "drop_join_handle_fast spurious s =
     (if s = INITIAL_STATE \<and> \<not> spurious then (True, (INITIAL_STATE - REF_ONE) AND NOT JOIN_INTEREST) else (False, s))"

definition transition_to_join_handle_dropped :: "snapshot \<Rightarrow> (TransitionToJoinHandleDrop \<times> snapshot) fs_result" where
  "transition_to_join_handle_dropped = atomically (\<lambda>s.
     assertion (is_join_interested s)
       (let s = unset_join_interested s;
            output = is_complete s;
            s = (if \<not> is_complete s then unset_join_waker s else s)
        in Inr (\<lparr>drop_waker = \<not> is_join_waker_set s, drop_output = output\<rparr>, Some s)))"

definition set_join_waker :: "snapshot \<Rightarrow> ((snapshot + snapshot) \<times> snapshot) fs_result" where
  "set_join_waker = fetch_update (\<lambda>cur.
     assertion (is_join_interested cur) (assertion (\<not> is_join_waker_set cur)
       (if is_complete cur then Inr None else Inr (Some (set_join_waker_bit cur)))))"

definition unset_waker :: "snapshot \<Rightarrow> ((snapshot + snapshot) \<times> snapshot) fs_result" where
  "unset_waker = fetch_update (\<lambda>cur.
     assertion (is_join_interested cur)
       (if is_complete cur then Inr None
        else assertion (is_join_waker_set cur) (Inr (Some (unset_join_waker cur)))))"

definition unset_waker_after_complete :: "snapshot \<Rightarrow> (snapshot \<times> snapshot) fs_result" where
  "unset_waker_after_complete prev =
     (let new = prev AND NOT JOIN_WAKER
      in assertion (is_complete prev \<and> is_join_waker_set prev) (Inr (new, new)))"

definition ref_inc :: "snapshot \<Rightarrow> snapshot fs_result" where
  "ref_inc prev = (if isize_max < prev then Inl (Panic ''process::abort'') else Inr (prev + REF_ONE))"

definition ref_dec :: "snapshot \<Rightarrow> (bool \<times> snapshot) fs_result" where
  "ref_dec prev = assertion (1 \<le> ref_count prev) (Inr (ref_count prev = 1, prev - REF_ONE))"

definition ref_dec_twice :: "snapshot \<Rightarrow> (bool \<times> snapshot) fs_result" where
  "ref_dec_twice prev = assertion (2 \<le> ref_count prev) (Inr (ref_count prev = 2, prev - 2 * REF_ONE))"

end
