(* ===== verification/Task_Cell.thy ===== *)
theory Task_Cell imports Task_State begin

text \<open>
  One blocking task (\<^verbatim>\<open>crates/dbt-runtime/src/task/\<close>: \<^verbatim>\<open>harness.rs\<close>, \<^verbatim>\<open>core.rs\<close>, \<^verbatim>\<open>mod.rs\<close>, \<^verbatim>\<open>join.rs\<close>)
  shared by two threads: the one that holds the \<^verbatim>\<open>UnownedTask\<close> and runs, shuts down or drops it, and
  the one that holds the \<^verbatim>\<open>JoinHandle\<close>. A step is one atomic operation on the state word, or one access
  to the stage or to the waker; the program counters say what each thread does next. A call into
  the cell after its memory is released, and every failed assertion, is a failure of the step.
\<close>

section \<open>The cell\<close>

text \<open>The output that was joined: a value, a cancellation or a panic.\<close>

datatype join_outcome = Output | JoinCancelled | JoinPanicked

datatype stage = StageRunning | StageFinished join_outcome | StageConsumed

text \<open>
  Program counters of the thread that owns the task. The flag of the last ones is whether the thread
  holds a second reference, the \<^verbatim>\<open>Task\<close> that \<^verbatim>\<open>UnownedTask::run\<close> keeps while it polls.
\<close>

datatype owner_pc = OwnerQueued | OwnerRun | OwnerPoll | OwnerToIdle | OwnerIntoTask | OwnerShutdown | OwnerDropUnowned
  | OwnerCancel bool | OwnerComplete bool | OwnerDropOutput bool | OwnerWakeJoin bool | OwnerUnsetWaker bool
  | OwnerDropWaker bool | OwnerTerminal bool | OwnerDealloc bool | OwnerDropTask | OwnerDone

datatype join_pc = JoinIdle | JoinLoad | JoinWillWake | JoinUnset | JoinSetField | JoinSetBit | JoinClearField | JoinTake
  | JoinGot | JoinFast | JoinSlow | JoinDropOutput bool | JoinDropWaker | JoinDropRef | JoinDealloc | JoinDone

record cell =
  word :: snapshot
  cell_stage :: stage
  stored_waker :: bool
  func :: bool
  owner :: owner_pc
  joiner :: join_pc
  runs :: nat
  deallocs :: nat
  delivered :: "join_outcome list"

text \<open>What is not decided by the cell: the call on the task, the behaviour of the function and of the wakers.\<close>

datatype task_call = CallRun | CallShutdown | CallDrop

datatype poll_result = Pending | Ready

record choice =
  call :: task_call
  func_panics :: bool
  drop_panics :: bool
  wake_panics :: bool
  same_waker :: bool
  spurious_failure :: bool
  drops_handle :: bool

definition live :: "cell \<Rightarrow> 'a fs_result \<Rightarrow> 'a fs_result" where
  "live c r = (if 0 < deallocs c then Inl (Panic ''use after free'') else r)"

definition new_task :: cell where
  "new_task = \<lparr>word = INITIAL_STATE, cell_stage = StageRunning, stored_waker = False, func = True, owner = OwnerQueued,
     joiner = JoinIdle, runs = 0, deallocs = 0, delivered = []\<rparr>"

section \<open>Core\<close>

text \<open>
  \<^verbatim>\<open>BlockingTask::poll\<close> takes the function and is ready at once; without one it panics, which
  \<^verbatim>\<open>poll_future\<close> catches as it catches a panic of the function or an unexpected stage.
\<close>

definition blocking_poll :: "choice \<Rightarrow> cell \<Rightarrow> (poll_result \<times> join_outcome) \<times> cell" where
  "blocking_poll ch c =
     (if func c then ((Ready, if func_panics ch then JoinPanicked else Output), c\<lparr>func := False, runs := Suc (runs c)\<rparr>)
      else ((Ready, JoinPanicked), c))"

definition poll_future :: "choice \<Rightarrow> cell \<Rightarrow> poll_result \<times> cell" where
  "poll_future ch c =
     (let ((res, outcome), c) = (if cell_stage c = StageRunning then blocking_poll ch c else ((Ready, JoinPanicked), c))
      in (res, if res = Ready then c\<lparr>cell_stage := StageFinished outcome\<rparr> else c))"

definition drop_future_or_output :: "cell \<Rightarrow> cell" where
  "drop_future_or_output c = c\<lparr>cell_stage := StageConsumed\<rparr>"

definition cancel_task :: "choice \<Rightarrow> cell \<Rightarrow> cell" where
  "cancel_task ch c = c\<lparr>cell_stage := StageFinished (if drop_panics ch then JoinPanicked else JoinCancelled)\<rparr>"

definition take_output :: "cell \<Rightarrow> cell fs_result" where
  "take_output c =
     (case cell_stage c of
        StageFinished r \<Rightarrow> Inr (c\<lparr>cell_stage := StageConsumed, delivered := delivered c @ [r]\<rparr>)
      | _ \<Rightarrow> Inl (Panic ''JoinHandle polled after completion''))"

definition dealloc :: "cell \<Rightarrow> cell" where
  "dealloc c = c\<lparr>deallocs := Suc (deallocs c)\<rparr>"

section \<open>The owner\<close>

definition store_word :: "('a \<times> snapshot) fs_result \<Rightarrow> ('a \<Rightarrow> cell \<Rightarrow> cell) \<Rightarrow> cell \<Rightarrow> cell fs_result" where
  "store_word r k c = rmap (\<lambda>(a, w). k a (c\<lparr>word := w\<rparr>)) r"

definition owner_at :: "owner_pc \<Rightarrow> cell \<Rightarrow> cell" where
  "owner_at pc c = c\<lparr>owner := pc\<rparr>"

text \<open>\<^verbatim>\<open>BlockingSchedule::release\<close> returns nothing, so one reference is given up at the end.\<close>

definition release :: snapshot where
  "release = 1"

definition after_last :: "bool \<Rightarrow> owner_pc" where
  "after_last extra = (if extra then OwnerDropTask else OwnerDone)"

text \<open>
  \<^verbatim>\<open>complete\<close>: what the last polling thread does once the output is stored. A panic while the waker is
  called, or because there is none, is caught and skips the rest of that block.
\<close>

definition complete_step :: "choice \<Rightarrow> owner_pc \<Rightarrow> cell \<Rightarrow> cell fs_result" where
  "complete_step ch pc c =
     (case pc of
       OwnerComplete extra \<Rightarrow> store_word (transition_to_complete (word c))
            (\<lambda>s. owner_at (if \<not> is_join_interested s then OwnerDropOutput extra
               else if is_join_waker_set s then OwnerWakeJoin extra else OwnerTerminal extra)) c
     | OwnerDropOutput extra \<Rightarrow> Inr (owner_at (OwnerTerminal extra) (drop_future_or_output c))
     | OwnerWakeJoin extra \<Rightarrow>
            Inr (owner_at (if stored_waker c \<and> \<not> wake_panics ch then OwnerUnsetWaker extra else OwnerTerminal extra) c)
     | OwnerUnsetWaker extra \<Rightarrow> store_word (unset_waker_after_complete (word c))
            (\<lambda>s. owner_at (if \<not> is_join_interested s then OwnerDropWaker extra else OwnerTerminal extra)) c
     | OwnerDropWaker extra \<Rightarrow> Inr (owner_at (OwnerTerminal extra) (c\<lparr>stored_waker := False\<rparr>))
     | OwnerTerminal extra \<Rightarrow> store_word (transition_to_terminal release (word c))
            (\<lambda>last. owner_at (if last then OwnerDealloc extra else after_last extra)) c
     | _ \<Rightarrow> Inr c)"

definition owner_step :: "choice \<Rightarrow> cell \<Rightarrow> cell fs_result" where
  "owner_step ch c = live c
     (case owner c of
        OwnerQueued \<Rightarrow> Inr (owner_at (case call ch of
            CallRun \<Rightarrow> OwnerRun | CallShutdown \<Rightarrow> OwnerIntoTask | CallDrop \<Rightarrow> OwnerDropUnowned) c)
      | OwnerRun \<Rightarrow> store_word (transition_to_running (word c)) (\<lambda>r. owner_at (case r of
            RunSuccess \<Rightarrow> OwnerPoll | RunCancelled \<Rightarrow> OwnerCancel True | RunFailed \<Rightarrow> OwnerDropTask
          | RunDealloc \<Rightarrow> OwnerDealloc True)) c
      | OwnerPoll \<Rightarrow> (case poll_future ch c of (res, c') \<Rightarrow>
            Inr (owner_at (if res = Ready then OwnerComplete True else OwnerToIdle) c'))
      | OwnerToIdle \<Rightarrow> rbind (transition_to_idle (word c)) (\<lambda>(r, w). case r of
            IdleCancelled \<Rightarrow> Inr (owner_at (OwnerCancel True) (c\<lparr>word := w\<rparr>))
          | IdleOk \<Rightarrow> Inr (owner_at OwnerDropTask (c\<lparr>word := w\<rparr>))
          | IdleOkDealloc \<Rightarrow> Inr (owner_at (OwnerDealloc True) (c\<lparr>word := w\<rparr>))
          | IdleOkNotified \<Rightarrow> Inl (Panic ''internal error: entered unreachable code''))
      | OwnerIntoTask \<Rightarrow> store_word (ref_dec (word c)) (\<lambda>_. owner_at OwnerShutdown) c
      | OwnerShutdown \<Rightarrow> store_word (transition_to_shutdown (word c))
            (\<lambda>locked. owner_at (if locked then OwnerCancel False else OwnerDropTask)) c
      | OwnerDropUnowned \<Rightarrow> store_word (ref_dec_twice (word c))
            (\<lambda>last. owner_at (if last then OwnerDealloc False else OwnerDone)) c
      | OwnerCancel extra \<Rightarrow> Inr (owner_at (OwnerComplete extra) (cancel_task ch c))
      | OwnerDealloc extra \<Rightarrow> Inr (owner_at (after_last extra) (dealloc c))
      | OwnerDropTask \<Rightarrow> store_word (ref_dec (word c))
            (\<lambda>last. owner_at (if last then OwnerDealloc False else OwnerDone)) c
      | OwnerDone \<Rightarrow> Inr c
      | pc \<Rightarrow> complete_step ch pc c)"

lemmas owner_step_defs = owner_step_def complete_step_def

section \<open>The join handle\<close>

definition joiner_at :: "join_pc \<Rightarrow> cell \<Rightarrow> cell" where
  "joiner_at pc c = c\<lparr>joiner := pc\<rparr>"

text \<open>
  \<^verbatim>\<open>can_read_output\<close>, \<^verbatim>\<open>set_join_waker\<close> and \<^verbatim>\<open>try_read_output\<close>. After it
  returned the output the handle is only dropped, as the contract of a future asks.
\<close>

definition join_load :: "snapshot \<Rightarrow> join_pc fs_result" where
  "join_load s = assertion (is_join_interested s)
     (Inr (if is_complete s then JoinTake else if is_join_waker_set s then JoinWillWake else JoinSetField))"

definition join_unset :: "(snapshot + snapshot) \<Rightarrow> join_pc fs_result" where
  "join_unset r = (case r of
     Inr s \<Rightarrow> assertion (is_join_interested s \<and> \<not> is_join_waker_set s) (Inr JoinSetField)
   | Inl s \<Rightarrow> assertion (is_complete s) (Inr JoinTake))"

definition join_set :: "(snapshot + snapshot) \<Rightarrow> join_pc fs_result" where
  "join_set r = (case r of Inr _ \<Rightarrow> Inr JoinIdle | Inl s \<Rightarrow> assertion (is_complete s) (Inr JoinClearField))"

text \<open>The drop of the handle: \<^verbatim>\<open>drop_join_handle_fast\<close> on the word, then \<^verbatim>\<open>drop_join_handle_slow\<close>.\<close>

definition drop_join_step :: "choice \<Rightarrow> join_pc \<Rightarrow> cell \<Rightarrow> cell fs_result" where
  "drop_join_step ch pc c =
     (case pc of
       JoinFast \<Rightarrow> (case drop_join_handle_fast (spurious_failure ch) (word c) of (fast, w) \<Rightarrow>
            Inr (joiner_at (if fast then JoinDone else JoinSlow) (c\<lparr>word := w\<rparr>)))
     | JoinSlow \<Rightarrow> store_word (transition_to_join_handle_dropped (word c))
            (\<lambda>t. joiner_at (if drop_output t then JoinDropOutput (drop_waker t)
               else if drop_waker t then JoinDropWaker else JoinDropRef)) c
     | JoinDropOutput also_waker \<Rightarrow>
          Inr (joiner_at (if also_waker then JoinDropWaker else JoinDropRef) (drop_future_or_output c))
     | JoinDropWaker \<Rightarrow> Inr (joiner_at JoinDropRef (c\<lparr>stored_waker := False\<rparr>))
     | JoinDropRef \<Rightarrow> store_word (ref_dec (word c)) (\<lambda>last. joiner_at (if last then JoinDealloc else JoinDone)) c
     | JoinDealloc \<Rightarrow> Inr (joiner_at JoinDone (dealloc c))
     | _ \<Rightarrow> Inr c)"

definition join_step :: "choice \<Rightarrow> cell \<Rightarrow> cell fs_result" where
  "join_step ch c = live c
     (case joiner c of
        JoinIdle \<Rightarrow> Inr (joiner_at (if drops_handle ch then JoinFast else JoinLoad) c)
      | JoinLoad \<Rightarrow> rmap (\<lambda>pc. joiner_at pc c) (join_load (word c))
      | JoinWillWake \<Rightarrow>
          (if stored_waker c then Inr (joiner_at (if same_waker ch then JoinIdle else JoinUnset) c)
           else Inl (Panic ''called `Option::unwrap()` on a `None` value''))
      | JoinUnset \<Rightarrow> rbind (unset_waker (word c)) (\<lambda>(r, w). rmap (\<lambda>pc. joiner_at pc (c\<lparr>word := w\<rparr>)) (join_unset r))
      | JoinSetField \<Rightarrow> Inr (joiner_at JoinSetBit (c\<lparr>stored_waker := True\<rparr>))
      | JoinSetBit \<Rightarrow> rbind (set_join_waker (word c)) (\<lambda>(r, w). rmap (\<lambda>pc. joiner_at pc (c\<lparr>word := w\<rparr>)) (join_set r))
      | JoinClearField \<Rightarrow> Inr (joiner_at JoinTake (c\<lparr>stored_waker := False\<rparr>))
      | JoinTake \<Rightarrow> rmap (joiner_at JoinGot) (take_output c)
      | JoinGot \<Rightarrow> Inr (joiner_at JoinFast c)
      | JoinDone \<Rightarrow> Inr c
      | pc \<Rightarrow> drop_join_step ch pc c)"

lemmas join_step_defs = join_step_def drop_join_step_def

section \<open>Interleaving\<close>

inductive cell_step :: "cell \<Rightarrow> cell \<Rightarrow> bool" where
  by_owner: "owner c \<noteq> OwnerDone \<Longrightarrow> owner_step ch c = Inr c' \<Longrightarrow> cell_step c c'"
| by_joiner: "joiner c \<noteq> JoinDone \<Longrightarrow> join_step ch c = Inr c' \<Longrightarrow> cell_step c c'"

inductive reachable_cell :: "cell \<Rightarrow> bool" where
  start: "reachable_cell new_task"
| move: "reachable_cell c \<Longrightarrow> cell_step c c' \<Longrightarrow> reachable_cell c'"

end
