(* ===== verification/Task_State_Correct.thy ===== *)
theory Task_State_Correct imports Task_State begin

text \<open>
  The state word as a record: six flags and a number of references. Every setter of a flag is a bit
  operation below the count, and counting up or down leaves the flags alone.
\<close>

named_theorems task_word

section \<open>Layout\<close>

lemmas flag_masks = RUNNING_def COMPLETE_def NOTIFIED_def JOIN_INTEREST_def JOIN_WAKER_def CANCELLED_def LIFECYCLE_MASK_def

lemma REF_COUNT_MASK_eq: "REF_COUNT_MASK = NOT 63"
  by (simp add: REF_COUNT_MASK_def STATE_MASK_def flag_masks)

lemma REF_COUNT_SHIFT_eq [task_word]: "REF_COUNT_SHIFT = 6"
  by (simp add: REF_COUNT_SHIFT_def count_zeros_def REF_COUNT_MASK_eq upt_rec)

lemma REF_ONE_eq [task_word]: "REF_ONE = 64"
  by (simp add: REF_ONE_def REF_COUNT_SHIFT_eq)

lemma INITIAL_STATE_eq [task_word]: "INITIAL_STATE = 204"
  by (simp add: INITIAL_STATE_def REF_ONE_eq flag_masks)

definition refs :: "snapshot \<Rightarrow> nat" where
  "refs s = unat s div 64"

lemma refs_drop: "unat (drop_bit 6 s) = refs s"
  unfolding unat_drop_bit_eq refs_def by (simp add: drop_bit_eq_div)

lemma unat_ref_count: "unat (ref_count s) = refs s"
proof -
  have "(63 :: snapshot) = mask 6" by (simp add: mask_eq_exp_minus_1)
  moreover have "drop_bit 6 (s AND NOT (mask 6)) = drop_bit 6 s"
    by (rule bit_eqI) (auto simp: bit_simps dest: bit_imp_le_length)
  ultimately show ?thesis
    by (simp only: ref_count_def REF_COUNT_MASK_eq REF_COUNT_SHIFT_eq refs_drop)
qed

lemma ref_count_compare [task_word]:
  "ref_count s = 0 \<longleftrightarrow> refs s = 0" "ref_count s = 1 \<longleftrightarrow> refs s = 1" "ref_count s = 2 \<longleftrightarrow> refs s = 2"
  "0 < ref_count s \<longleftrightarrow> 0 < refs s" "1 \<le> ref_count s \<longleftrightarrow> 1 \<le> refs s" "2 \<le> ref_count s \<longleftrightarrow> 2 \<le> refs s"
  by (simp_all only: word_unat_eq_iff word_less_nat_alt word_le_nat_alt unat_ref_count) simp_all

section \<open>Flags\<close>

text \<open>What the code's three forms of a mask do, for a flag at a position below the count.\<close>

locale flag =
  fixes n :: nat and fmask :: snapshot
  assumes position: "n < 6" and fmask_eq: "fmask = push_bit n 1"
begin

lemma get: "s AND fmask = fmask \<longleftrightarrow> bit s n"
proof
  assume "s AND fmask = fmask"
  then have "bit (s AND fmask) n = bit fmask n" by simp
  then show "bit s n" using position by (simp add: fmask_eq bit_simps)
next
  assume "bit s n"
  then show "s AND fmask = fmask" by (intro bit_eqI) (auto simp: fmask_eq bit_simps)
qed

lemma put: "s OR fmask = set_bit n s"
  by (simp add: fmask_eq set_bit_eq_or)

lemma clear: "s AND NOT fmask = unset_bit n s"
  by (simp add: fmask_eq unset_bit_eq_and_not)

lemma drop_unchanged: "drop_bit 6 (set_bit n s) = drop_bit 6 s" "drop_bit 6 (unset_bit n s) = drop_bit 6 s" for s :: snapshot
  using position by (auto intro!: bit_eqI simp: bit_simps dest: bit_imp_le_length)

lemma refs_unchanged: "refs (set_bit n s) = refs s" "refs (unset_bit n s) = refs s"
  by (simp_all only: refs_drop [symmetric] drop_unchanged)

end

interpretation running: flag 0 RUNNING by unfold_locales (simp_all add: flag_masks)
interpretation complete: flag 1 COMPLETE by unfold_locales (simp_all add: flag_masks)
interpretation notified: flag 2 NOTIFIED by unfold_locales (simp_all add: flag_masks)
interpretation interest: flag 3 JOIN_INTEREST by unfold_locales (simp_all add: flag_masks)
interpretation waker: flag 4 JOIN_WAKER by unfold_locales (simp_all add: flag_masks)
interpretation cancelled: flag 5 CANCELLED by unfold_locales (simp_all add: flag_masks)

lemmas flag_unchanged [task_word] = running.refs_unchanged complete.refs_unchanged notified.refs_unchanged
  interest.refs_unchanged waker.refs_unchanged cancelled.refs_unchanged complete.refs_unchanged [unfolded One_nat_def]

lemma getters [task_word]:
  "is_running s = bit s 0" "is_complete s = bit s 1" "is_notified s = bit s 2"
  "is_join_interested s = bit s 3" "is_join_waker_set s = bit s 4" "is_cancelled s = bit s 5"
  by (simp_all add: is_running_def is_complete_def is_notified_def is_join_interested_def is_join_waker_set_def
      is_cancelled_def running.get complete.get notified.get interest.get waker.get cancelled.get)

lemma is_idle_bits [task_word]: "is_idle s \<longleftrightarrow> \<not> bit s 0 \<and> \<not> bit s 1"
proof -
  have "s AND (RUNNING OR COMPLETE) = take_bit 2 s" by (simp add: flag_masks take_bit_eq_mask mask_eq_exp_minus_1)
  moreover have "take_bit 2 s = 0 \<longleftrightarrow> (\<forall>n < 2. \<not> bit s n)" by (auto simp: bit_eq_iff bit_take_bit_iff)
  moreover have "(\<forall>n < 2. \<not> bit s n) \<longleftrightarrow> \<not> bit s 0 \<and> \<not> bit s 1" using less_2_cases_iff by auto
  ultimately show ?thesis by (simp add: is_idle_def)
qed

lemma setters [task_word]:
  "set_running s = set_bit 0 s" "unset_running s = unset_bit 0 s" "set_notified s = set_bit 2 s"
  "unset_notified s = unset_bit 2 s" "unset_join_interested s = unset_bit 3 s"
  "set_join_waker_bit s = set_bit 4 s" "unset_join_waker s = unset_bit 4 s" "s AND NOT JOIN_WAKER = unset_bit 4 s"
  "set_cancelled s = set_bit 5 s"
  by (simp_all add: set_running_def unset_running_def set_notified_def unset_notified_def unset_join_interested_def
      set_join_waker_bit_def unset_join_waker_def set_cancelled_def running.put running.clear notified.put notified.clear
      interest.clear waker.put waker.clear cancelled.put)

lemma bit_set [task_word]:
  "m < 6 \<Longrightarrow> bit (set_bit n s) m \<longleftrightarrow> m = n \<or> bit s m" "bit (unset_bit n s) m \<longleftrightarrow> m \<noteq> n \<and> bit s m" for s :: snapshot
  by (auto simp: bit_simps)

section \<open>Counting\<close>

lemma bit_add_multiple: "n < 6 \<Longrightarrow> bit (s + 64 * k) n = bit s n" for s k :: snapshot
proof -
  assume n: "n < 6"
  have "(64 :: int) * uint k = push_bit 6 (uint k)" by (simp add: push_bit_eq_mult)
  then have "take_bit 6 (uint s + 64 * uint k) = take_bit 6 (uint s)"
    using take_bit_add [of 6 "uint s" "64 * uint k"] by (simp add: take_bit_push_bit)
  then have b: "bit (uint s + 64 * uint k) n = bit (uint s) n" using n by (metis bit_take_bit_iff)
  have "uint (s + 64 * k) = take_bit 64 (uint s + 64 * uint k)"
    by (simp add: uint_word_ariths take_bit_eq_mod mod_add_right_eq)
  then have "bit (uint (s + 64 * k)) n = bit (uint s) n" using n b by (simp add: bit_take_bit_iff)
  then show ?thesis using n by (simp add: bit_uint_iff)
qed

lemma bit_count [task_word]:
  "n < 6 \<Longrightarrow> bit (s + 64) n = bit s n" "n < 6 \<Longrightarrow> bit (s - 64) n = bit s n" "n < 6 \<Longrightarrow> bit (s - 128) n = bit s n" for s :: snapshot
  using bit_add_multiple [of n s 1] bit_add_multiple [of n "s - 64" 1] bit_add_multiple [of n "s - 128" 2] by simp_all

lemma isize_max_refs [task_word]: "s \<le> isize_max \<longleftrightarrow> refs s < 2 ^ 57"
  by (simp add: isize_max_def refs_def word_le_nat_alt less_Suc_eq_le [symmetric]) linarith

lemma refs_inc [task_word]: "refs s < 2 ^ 57 \<Longrightarrow> refs (s + 64) = Suc (refs s)"
proof -
  assume "refs s < 2 ^ 57"
  then have "unat s + 64 < 2 ^ 64" by (simp add: refs_def)
  then have "unat (s + 64) = unat s + 64" by (simp add: unat_word_ariths)
  then show ?thesis by (simp add: refs_def)
qed

lemma refs_dec [task_word]:
  "0 < refs s \<Longrightarrow> refs (s - 64) = refs s - 1" "2 \<le> refs s \<Longrightarrow> refs (s - 128) = refs s - 2"
proof -
  have d: "refs (s - of_nat (64 * k)) = refs s - k" if "k \<le> refs s" "k \<le> 2" for k
  proof -
    have "64 * k \<le> unat s" using that(1) by (simp add: refs_def)
    moreover have "unat (of_nat (64 * k) :: snapshot) = 64 * k" proof -
      have "k = 0 \<or> k = 1 \<or> k = 2" using that(2) by linarith
      then show ?thesis by (elim disjE) simp_all
    qed
    ultimately have "unat (s - of_nat (64 * k)) = unat s - 64 * k"
      by (simp add: unat_sub word_le_nat_alt)
    then show ?thesis by (simp add: refs_def)
  qed
  show "0 < refs s \<Longrightarrow> refs (s - 64) = refs s - 1" using d [of 1] by simp
  show "2 \<le> refs s \<Longrightarrow> refs (s - 128) = refs s - 2" using d [of 2] by simp
qed

lemma complete_xor [task_word]:
  "bit s 0 \<Longrightarrow> \<not> bit s 1 \<Longrightarrow> s XOR (RUNNING OR COMPLETE) = set_bit 1 (unset_bit 0 s)"
proof (rule bit_eqI)
  fix n assume s: "bit s 0" "\<not> bit s 1" and n: "possible_bit TYPE(64 word) n"
  have m: "RUNNING OR COMPLETE = mask 2" by (simp add: flag_masks mask_eq_exp_minus_1)
  consider "n = 0" | "n = 1" | "2 \<le> n" by linarith
  then show "bit (s XOR (RUNNING OR COMPLETE)) n = bit (set_bit 1 (unset_bit 0 s)) n"
    unfolding m bit_xor_iff bit_mask_iff bit_set_bit_iff bit_unset_bit_iff using s n by cases simp_all
qed

section \<open>The word as a record\<close>

datatype lifecycle = Idle | Running | Complete

record task_view =
  life :: lifecycle
  notified_flag :: bool
  interest_flag :: bool
  waker_flag :: bool
  cancelled_flag :: bool
  references :: nat

definition view :: "snapshot \<Rightarrow> task_view" where
  "view s = \<lparr>life = (if bit s 1 then Complete else if bit s 0 then Running else Idle), notified_flag = bit s 2,
     interest_flag = bit s 3, waker_flag = bit s 4, cancelled_flag = bit s 5, references = refs s\<rparr>"

text \<open>No word of a task has both lifecycle bits.\<close>

definition state_wf :: "snapshot \<Rightarrow> bool" where
  "state_wf s \<longleftrightarrow> \<not> (bit s 0 \<and> bit s 1)"

lemma view_sel [simp]:
  "life (view s) = (if bit s 1 then Complete else if bit s 0 then Running else Idle)"
  "notified_flag (view s) = bit s 2" "interest_flag (view s) = bit s 3" "waker_flag (view s) = bit s 4"
  "cancelled_flag (view s) = bit s 5" "references (view s) = refs s"
  by (simp_all add: view_def)

text \<open>The transitions over the record.\<close>

definition spec_running :: "task_view \<Rightarrow> (TransitionToRunning \<times> task_view) option" where
  "spec_running v =
     (if \<not> notified_flag v then None
      else if life v = Idle then
        Some (if cancelled_flag v then RunCancelled else RunSuccess, v\<lparr>life := Running, notified_flag := False\<rparr>)
      else if references v = 0 then None
      else Some (if references v = 1 then RunDealloc else RunFailed, v\<lparr>references := references v - 1\<rparr>))"

definition spec_idle :: "task_view \<Rightarrow> (TransitionToIdle \<times> task_view) option" where
  "spec_idle v =
     (if life v \<noteq> Running then None
      else if cancelled_flag v then Some (IdleCancelled, v)
      else if notified_flag v then
        (if references v < 2 ^ 57 then Some (IdleOkNotified, v\<lparr>life := Idle, references := Suc (references v)\<rparr>) else None)
      else if references v = 0 then None
      else Some (if references v = 1 then IdleOkDealloc else IdleOk, v\<lparr>life := Idle, references := references v - 1\<rparr>))"

definition spec_complete :: "task_view \<Rightarrow> task_view option" where
  "spec_complete v = (if life v = Running then Some (v\<lparr>life := Complete\<rparr>) else None)"

definition spec_notify_by_val :: "task_view \<Rightarrow> (TransitionToNotifiedByVal \<times> task_view) option" where
  "spec_notify_by_val v =
     (if life v = Running then
        (if references v \<le> 1 then None
         else Some (ValDoNothing, v\<lparr>notified_flag := True, references := references v - 1\<rparr>))
      else if life v = Complete \<or> notified_flag v then
        (if references v = 0 then None
         else Some (if references v = 1 then ValDealloc else ValDoNothing, v\<lparr>references := references v - 1\<rparr>))
      else if references v < 2 ^ 57 then Some (ValSubmit, v\<lparr>notified_flag := True, references := Suc (references v)\<rparr>)
      else None)"

definition spec_notify_by_ref :: "task_view \<Rightarrow> (TransitionToNotifiedByRef \<times> task_view) option" where
  "spec_notify_by_ref v =
     (if life v = Complete \<or> notified_flag v then Some (RefDoNothing, v)
      else if life v = Running then Some (RefDoNothing, v\<lparr>notified_flag := True\<rparr>)
      else if references v < 2 ^ 57 then Some (RefSubmit, v\<lparr>notified_flag := True, references := Suc (references v)\<rparr>)
      else None)"

definition spec_cancel :: "task_view \<Rightarrow> (bool \<times> task_view) option" where
  "spec_cancel v =
     (if cancelled_flag v \<or> life v = Complete then Some (False, v)
      else if life v = Running \<or> notified_flag v then Some (False, v\<lparr>notified_flag := True, cancelled_flag := True\<rparr>)
      else if references v < 2 ^ 57 then
        Some (True, v\<lparr>notified_flag := True, cancelled_flag := True, references := Suc (references v)\<rparr>)
      else None)"

definition spec_shutdown :: "task_view \<Rightarrow> bool \<times> task_view" where
  "spec_shutdown v = (life v = Idle, v\<lparr>life := (if life v = Idle then Running else life v), cancelled_flag := True\<rparr>)"

definition spec_drop_handle :: "task_view \<Rightarrow> (TransitionToJoinHandleDrop \<times> task_view) option" where
  "spec_drop_handle v =
     (if interest_flag v then
        Some (\<lparr>drop_waker = life v \<noteq> Complete \<or> \<not> waker_flag v, drop_output = life v = Complete\<rparr>,
          v\<lparr>interest_flag := False, waker_flag := waker_flag v \<and> life v = Complete\<rparr>)
      else None)"

definition spec_release :: "nat \<Rightarrow> task_view \<Rightarrow> (bool \<times> task_view) option" where
  "spec_release k v = (if k \<le> references v then Some (references v = k, v\<lparr>references := references v - k\<rparr>) else None)"

definition result_of :: "'a fs_result \<Rightarrow> 'a option" where
  "result_of r = (case r of Inr a \<Rightarrow> Some a | Inl _ \<Rightarrow> None)"

lemma result_of_simps [simp]: "result_of (Inr a) = Some a" "result_of (Inl e) = None"
  "result_of (rmap f r) = map_option f (result_of r)"
  "result_of (assertion b r) = (if b then result_of r else None)"
  by (simp_all add: result_of_def assertion_def rmap_def split: sum.split)

lemmas transition_simps = atomically_def fetch_update_def snapshot_ref_dec_def snapshot_ref_inc_def Let_def



lemma view_running: "map_option (map_prod id view) (result_of (transition_to_running s)) = spec_running (view s)"
  by (simp add: transition_to_running_def transition_simps spec_running_def task_word view_def)

lemma view_idle: "state_wf s \<Longrightarrow> map_option (map_prod id view) (result_of (transition_to_idle s)) = spec_idle (view s)"
  by (simp add: transition_to_idle_def transition_simps spec_idle_def task_word view_def state_wf_def)

lemma view_complete:
  "map_option (map_prod view view) (result_of (transition_to_complete s)) = map_option (\<lambda>v. (v, v)) (spec_complete (view s))"
  by (simp add: transition_to_complete_def transition_simps spec_complete_def task_word view_def)

lemma view_notify_by_val:
  "state_wf s \<Longrightarrow> map_option (map_prod id view) (result_of (transition_to_notified_by_val s)) = spec_notify_by_val (view s)"
  by (auto simp: transition_to_notified_by_val_def transition_simps spec_notify_by_val_def task_word view_def state_wf_def
      assertion_def)

lemma view_notify_by_ref:
  "map_option (map_prod id view) (result_of (transition_to_notified_by_ref s)) = spec_notify_by_ref (view s)"
  by (simp add: transition_to_notified_by_ref_def transition_simps spec_notify_by_ref_def task_word view_def)

lemma view_cancel:
  "map_option (map_prod id view) (result_of (transition_to_notified_and_cancel s)) = spec_cancel (view s)"
  by (auto simp: transition_to_notified_and_cancel_def transition_simps spec_cancel_def task_word view_def)

lemma view_shutdown:
  "map_option (map_prod id view) (result_of (transition_to_shutdown s)) = Some (spec_shutdown (view s))"
  by (simp add: transition_to_shutdown_def transition_simps spec_shutdown_def task_word view_def)

lemma view_drop_handle:
  "map_option (map_prod id view) (result_of (transition_to_join_handle_dropped s)) = spec_drop_handle (view s)"
  by (simp add: transition_to_join_handle_dropped_def transition_simps spec_drop_handle_def task_word view_def)

lemma view_ref_dec:
  "map_option (map_prod id view) (result_of (ref_dec s)) = spec_release 1 (view s)"
  "map_option (map_prod id view) (result_of (ref_dec_twice s)) = spec_release 2 (view s)"
  "map_option (map_prod id view) (result_of (transition_to_terminal 1 s)) = spec_release 1 (view s)"
  by (simp_all add: ref_dec_def ref_dec_twice_def transition_to_terminal_def spec_release_def task_word view_def)

section \<open>Interference\<close>

text \<open>
  The loop returns what the closure says of some word it saw, and when it stores, the word it
  replaces is the one the closure was applied to.
\<close>

declare fetch_update_action.simps [simp del]

lemma fetch_update_action_cases:
  assumes "fetch_update_action f actuals cur = Some r"
  obtains (stop) "f cur = r" and "\<And>out new. r = Inr (out, Some new) \<Longrightarrow> cur \<in> set actuals"
  | (again) out new actual rest where "f cur = Inr (out, Some new)" "actuals = actual # rest" "actual \<noteq> cur"
      "fetch_update_action f rest actual = Some r"
proof (cases "\<exists>out new. f cur = Inr (out, Some new)")
  case True
  then obtain out new where f: "f cur = Inr (out, Some new)" by blast
  then obtain actual rest where a: "actuals = actual # rest"
    using assms fetch_update_action.simps [of f actuals cur] by (cases actuals) auto
  show ?thesis
  proof (cases "actual = cur")
    case True
    then show ?thesis using assms fetch_update_action.simps [of f actuals cur] f a by (intro stop) auto
  next
    case False
    then show ?thesis using assms fetch_update_action.simps [of f actuals cur] f a by (intro again) auto
  qed
next
  case False
  then have "f cur = r" using assms fetch_update_action.simps [of f actuals cur]
    by (cases "f cur") (auto split: option.splits)
  then show ?thesis using False by (intro stop) auto
qed

lemma fetch_update_action_seen:
  "fetch_update_action f actuals cur = Some r \<Longrightarrow> \<exists>seen \<in> set (cur # actuals). f seen = r"
proof (induction f actuals cur rule: fetch_update_action.induct)
  case (1 f actuals cur)
  from "1.prems" show ?case
  proof (cases rule: fetch_update_action_cases)
    case (again out new actual rest)
    from "1.IH" [OF again(1) refl refl again(2,3,4)] again(2) show ?thesis by auto
  qed auto
qed

lemma fetch_update_action_store:
  "fetch_update_action f actuals cur = Some (Inr (out, Some new)) \<Longrightarrow> \<exists>replaced \<in> set actuals. f replaced = Inr (out, Some new)"
proof (induction f actuals cur rule: fetch_update_action.induct)
  case (1 f actuals cur)
  from "1.prems" show ?case
  proof (cases rule: fetch_update_action_cases)
    case (again out' new' actual rest)
    from "1.IH" [OF again(1) refl refl again(2,3,4)] again(2) show ?thesis by auto
  qed auto
qed

text \<open>With nobody in between, it is the atomic operation.\<close>

lemma fetch_update_action_alone:
  "map_option (rmap (\<lambda>(out, new). (out, case new of Some n \<Rightarrow> n | None \<Rightarrow> s))) (fetch_update_action f [s] s) = Some (atomically f s)"
  by (auto simp: atomically_def fetch_update_action.simps [of f "[s]" s] split: sum.splits prod.splits option.splits)

end
