(* ===== verification/Machine.thy ===== *)
theory Machine imports Dbt_Prelude begin

text \<open>
  Threads that take steps on a shared state: a step either fails, which stands for a panic or a use of
  memory it must not touch, or gives the next state. The locale is the contract a thread is checked
  against: an invariant that makes every step succeed, and a rank that bounds how long it runs.
\<close>

definition succeeds :: "('a \<Rightarrow> bool) \<Rightarrow> 'a fs_result \<Rightarrow> bool" where
  "succeeds P r \<longleftrightarrow> (case r of Inr a \<Rightarrow> P a | Inl _ \<Rightarrow> False)"

lemma succeeds_simps [simp]: "succeeds P (Inr a) = P a" "succeeds P (Inl e) = False"
  by (simp_all add: succeeds_def)

lemma succeeds_Inr: "succeeds P r \<longleftrightarrow> (\<exists>a. r = Inr a \<and> P a)"
  by (cases r) simp_all

text \<open>A thread that runs alone until it is finished, one choice per step.\<close>

fun run_thread :: "('c \<Rightarrow> 's \<Rightarrow> 's fs_result) \<Rightarrow> ('s \<Rightarrow> bool) \<Rightarrow> 'c list \<Rightarrow> 's \<Rightarrow> 's fs_result" where
  "run_thread step finished [] s = Inr s"
| "run_thread step finished (c # cs) s =
     (if finished s then Inr s else rbind (step c s) (run_thread step finished cs))"

locale safe_thread =
  fixes step :: "'c \<Rightarrow> 's \<Rightarrow> 's fs_result" and finished :: "'s \<Rightarrow> bool" and safe :: "'s \<Rightarrow> bool"
    and allowed :: "'c \<Rightarrow> bool" and rank :: "'s \<Rightarrow> nat"
  assumes step_safe: "safe s \<Longrightarrow> \<not> finished s \<Longrightarrow> succeeds safe (step c s)"
    and step_rank: "safe s \<Longrightarrow> \<not> finished s \<Longrightarrow> allowed c \<Longrightarrow> step c s = Inr t \<Longrightarrow> rank t < rank s"
    and some_choice: "\<exists>c. allowed c"
begin

lemma run_safe: "safe s \<Longrightarrow> run_thread step finished cs s = Inr t \<Longrightarrow> safe t"
proof (induction cs arbitrary: s)
  case (Cons c cs)
  show ?case
  proof (cases "finished s")
    case False
    obtain u where "step c s = Inr u" "safe u"
      using step_safe [OF Cons.prems(1) False, of c] by (auto simp: succeeds_Inr)
    then show ?thesis using Cons.IH [of u] Cons.prems(2) False by simp
  qed (use Cons.prems in simp)
qed simp

lemma rank_finished:
  assumes "safe s" and "rank s = 0"
  shows "finished s"
proof (rule ccontr)
  assume n: "\<not> finished s"
  obtain c where c: "allowed c" using some_choice by blast
  obtain t where "step c s = Inr t" using step_safe [OF assms(1) n, of c] by (auto simp: succeeds_Inr)
  from step_rank [OF assms(1) n c this] assms(2) show False by simp
qed

lemma run_finishes:
  assumes "safe s" and "\<And>c. c \<in> set cs \<Longrightarrow> allowed c" and "rank s \<le> length cs"
  shows "\<exists>t. run_thread step finished cs s = Inr t \<and> safe t \<and> finished t"
  using assms
proof (induction cs arbitrary: s)
  case Nil
  then show ?case using rank_finished by simp
next
  case (Cons c cs)
  show ?case
  proof (cases "finished s")
    case False
    obtain t where t: "step c s = Inr t" "safe t"
      using step_safe [OF Cons.prems(1) False, of c] by (auto simp: succeeds_Inr)
    have "rank t < rank s" using step_rank [OF Cons.prems(1) False _ t(1)] Cons.prems(2) by simp
    then have "\<exists>u. run_thread step finished cs t = Inr u \<and> safe u \<and> finished u"
      using Cons.IH [OF t(2)] Cons.prems(2,3) by simp
    then show ?thesis using t(1) False by simp
  qed (use Cons.prems in simp)
qed

end

end
