(* ===== verification/Task_Cell_Correct.thy ===== *)
theory Task_Cell_Correct imports Task_Cell Task_State_Correct Machine begin

text \<open>
  The invariant of a task cell: the state word is what the program counters of the two threads say,
  and each of the stage, the waker and the memory has at most one thread that may change it.
\<close>

section \<open>What a program counter stands for\<close>

text \<open>The references a thread holds, and the lifecycle the owner has brought the task to.\<close>

fun owner_refs :: "owner_pc \<Rightarrow> nat" where
  "owner_refs OwnerQueued = 2"
| "owner_refs OwnerRun = 2"
| "owner_refs OwnerPoll = 2"
| "owner_refs OwnerToIdle = 2"
| "owner_refs OwnerIntoTask = 2"
| "owner_refs OwnerShutdown = 1"
| "owner_refs OwnerDropUnowned = 2"
| "owner_refs (OwnerCancel x) = 1 + of_bool x"
| "owner_refs (OwnerComplete x) = 1 + of_bool x"
| "owner_refs (OwnerDropOutput x) = 1 + of_bool x"
| "owner_refs (OwnerWakeJoin x) = 1 + of_bool x"
| "owner_refs (OwnerUnsetWaker x) = 1 + of_bool x"
| "owner_refs (OwnerDropWaker x) = 1 + of_bool x"
| "owner_refs (OwnerTerminal x) = 1 + of_bool x"
| "owner_refs (OwnerDealloc x) = of_bool x"
| "owner_refs OwnerDropTask = 1"
| "owner_refs OwnerDone = 0"

fun join_refs :: "join_pc \<Rightarrow> nat" where
  "join_refs JoinDealloc = 0"
| "join_refs JoinDone = 0"
| "join_refs pc = 1"

fun owner_life :: "owner_pc \<Rightarrow> lifecycle set" where
  "owner_life OwnerQueued = {Idle}"
| "owner_life OwnerRun = {Idle}"
| "owner_life OwnerPoll = {Running}"
| "owner_life OwnerToIdle = {}"
| "owner_life OwnerIntoTask = {Idle}"
| "owner_life OwnerShutdown = {Idle}"
| "owner_life OwnerDropUnowned = {Idle}"
| "owner_life (OwnerCancel x) = {Running}"
| "owner_life (OwnerComplete x) = {Running}"
| "owner_life (OwnerDealloc x) = (if x then {} else {Idle, Complete})"
| "owner_life OwnerDone = {Idle, Complete}"
| "owner_life pc = {Complete}"

text \<open>The handle is not dropped, may still take the output, or is past the drop.\<close>

fun interested :: "join_pc \<Rightarrow> bool" where
  "interested (JoinDropOutput x) = False"
| "interested JoinDropWaker = False"
| "interested JoinDropRef = False"
| "interested JoinDealloc = False"
| "interested JoinDone = False"
| "interested pc = True"

fun may_take :: "join_pc \<Rightarrow> bool" where
  "may_take JoinGot = False"
| "may_take JoinFast = False"
| "may_take JoinSlow = False"
| "may_take (JoinDropOutput x) = False"
| "may_take JoinDropWaker = False"
| "may_take JoinDropRef = False"
| "may_take JoinDealloc = False"
| "may_take JoinDone = False"
| "may_take pc = True"

text \<open>The handle was dropped and left the waker to the owner.\<close>

fun left_waker :: "join_pc \<Rightarrow> bool" where
  "left_waker (JoinDropOutput x) = (\<not> x)"
| "left_waker JoinDropRef = True"
| "left_waker JoinDone = True"
| "left_waker pc = False"

fun owner_wakes :: "owner_pc \<Rightarrow> bool" where
  "owner_wakes (OwnerWakeJoin x) = True"
| "owner_wakes (OwnerUnsetWaker x) = True"
| "owner_wakes pc = False"

text \<open>The program counter is at this operation, whatever its flag.\<close>

fun at_drop_waker :: "owner_pc \<Rightarrow> bool" where
  "at_drop_waker (OwnerDropWaker x) = True"
| "at_drop_waker pc = False"

fun at_drop_output :: "owner_pc \<Rightarrow> bool" where
  "at_drop_output (OwnerDropOutput x) = True"
| "at_drop_output pc = False"

fun at_complete :: "owner_pc \<Rightarrow> bool" where
  "at_complete (OwnerComplete x) = True"
| "at_complete pc = False"

fun at_cancel :: "owner_pc \<Rightarrow> bool" where
  "at_cancel (OwnerCancel x) = True"
| "at_cancel pc = False"

fun at_dealloc :: "owner_pc \<Rightarrow> bool" where
  "at_dealloc (OwnerDealloc x) = True"
| "at_dealloc pc = False"

fun joiner_drops_output :: "join_pc \<Rightarrow> bool" where
  "joiner_drops_output (JoinDropOutput x) = True"
| "joiner_drops_output pc = False"

definition life_of :: "snapshot \<Rightarrow> lifecycle" where
  "life_of w = (if bit w 1 then Complete else if bit w 0 then Running else Idle)"

lemma life_of_iff [simp]:
  "life_of w = Idle \<longleftrightarrow> \<not> bit w 0 \<and> \<not> bit w (Suc 0)" "life_of w = Running \<longleftrightarrow> bit w 0 \<and> \<not> bit w (Suc 0)"
  "life_of w = Complete \<longleftrightarrow> bit w (Suc 0)"
  by (simp_all add: life_of_def)

lemma life_of_unchanged [simp]:
  "life_of (set_bit 4 w) = life_of w" "life_of (unset_bit 4 w) = life_of w" "life_of (unset_bit 3 w) = life_of w"
  "life_of (w - 64) = life_of w" "life_of (w - 128) = life_of w"
  by (simp_all add: life_of_def task_word)

fun is_finished :: "stage \<Rightarrow> bool" where
  "is_finished (StageFinished r) = True"
| "is_finished st = False"

text \<open>What a result says of how often the function ran.\<close>

fun explains :: "nat \<Rightarrow> join_outcome \<Rightarrow> bool" where
  "explains n Output = (n = 1)"
| "explains n JoinCancelled = (n = 0)"
| "explains n JoinPanicked = True"

fun stage_explained :: "nat \<Rightarrow> stage \<Rightarrow> bool" where
  "stage_explained n (StageFinished r) = explains n r"
| "stage_explained n st = True"

section \<open>The invariant\<close>

text \<open>Each clause for itself, so that a step is checked clause by clause.\<close>

definition word_inv :: "cell \<Rightarrow> bool" where
  "word_inv c \<longleftrightarrow>
     refs (word c) = owner_refs (owner c) + join_refs (joiner c) \<and>
     life_of (word c) \<in> owner_life (owner c) \<and> state_wf (word c) \<and>
     (bit (word c) 3 \<longleftrightarrow> interested (joiner c)) \<and>
     (owner c = OwnerQueued \<or> owner c = OwnerRun \<longrightarrow> bit (word c) 2)"

definition waker_inv :: "cell \<Rightarrow> bool" where
  "waker_inv c \<longleftrightarrow>
     (owner_wakes (owner c) \<longrightarrow> bit (word c) 4 \<and> bit (word c) 1) \<and>
     (bit (word c) 4 \<longrightarrow> stored_waker c \<and> (interested (joiner c) \<or> bit (word c) 1)) \<and>
     (joiner c \<in> {JoinWillWake, JoinUnset} \<longrightarrow> stored_waker c \<and> (bit (word c) 4 \<or> bit (word c) 1)) \<and>
     (joiner c \<in> {JoinSetField, JoinSetBit, JoinClearField, JoinDropWaker, JoinDropOutput True} \<longrightarrow> \<not> bit (word c) 4) \<and>
     (joiner c = JoinSetBit \<longrightarrow> stored_waker c) \<and>
     (joiner c = JoinClearField \<longrightarrow> bit (word c) 1) \<and>
     (owner_wakes (owner c) \<and> \<not> interested (joiner c) \<longrightarrow> left_waker (joiner c)) \<and>
     (at_drop_waker (owner c) \<longrightarrow> left_waker (joiner c) \<and> \<not> bit (word c) 4)"

definition stage_inv :: "cell \<Rightarrow> bool" where
  "stage_inv c \<longleftrightarrow>
     (life_of (word c) = Idle \<or> owner c = OwnerPoll \<or> at_cancel (owner c) \<longrightarrow>
        cell_stage c = StageRunning \<and> func c \<and> runs c = 0) \<and>
     (at_complete (owner c) \<longrightarrow> is_finished (cell_stage c)) \<and>
     (bit (word c) 1 \<and> may_take (joiner c) \<longrightarrow> is_finished (cell_stage c)) \<and>
     (joiner c = JoinTake \<longrightarrow> bit (word c) 1) \<and>
     (joiner_drops_output (joiner c) \<longrightarrow> bit (word c) 1) \<and>
     (at_drop_output (owner c) \<longrightarrow> \<not> interested (joiner c) \<and> \<not> joiner_drops_output (joiner c)) \<and>
     stage_explained (runs c) (cell_stage c) \<and> list_all (explains (runs c)) (delivered c) \<and>
     (delivered c \<noteq> [] \<longrightarrow> bit (word c) 1) \<and>
     runs c \<le> 1 \<and> length (delivered c) \<le> of_bool (\<not> may_take (joiner c))"

definition memory_inv :: "cell \<Rightarrow> bool" where
  "memory_inv c \<longleftrightarrow>
     deallocs c = of_bool (owner c = OwnerDone \<and> joiner c = JoinDone) \<and>
     (at_dealloc (owner c) \<longrightarrow> joiner c = JoinDone) \<and>
     (joiner c = JoinDealloc \<longrightarrow> owner c = OwnerDone)"

definition cell_inv :: "cell \<Rightarrow> bool" where
  "cell_inv c \<longleftrightarrow> word_inv c \<and> waker_inv c \<and> stage_inv c \<and> memory_inv c"

lemma initial_view: "refs INITIAL_STATE = 3" "\<not> bit INITIAL_STATE 0" "\<not> bit INITIAL_STATE (Suc 0)"
  "bit INITIAL_STATE 2" "bit INITIAL_STATE 3" "\<not> bit INITIAL_STATE 4" "\<not> bit INITIAL_STATE 5"
  by (simp_all add: INITIAL_STATE_eq refs_def)

lemma cell_inv_new: "cell_inv new_task"
  by (simp add: cell_inv_def word_inv_def waker_inv_def stage_inv_def memory_inv_def new_task_def initial_view
      state_wf_def)


section \<open>Every step succeeds and keeps it\<close>

lemmas inv_defs = cell_inv_def word_inv_def waker_inv_def stage_inv_def memory_inv_def state_wf_def

lemma inv_alive: "cell_inv c \<Longrightarrow> owner c \<noteq> OwnerDone \<or> joiner c \<noteq> JoinDone \<Longrightarrow> deallocs c = 0"
  by (auto simp: cell_inv_def memory_inv_def)

lemmas owner_simps = owner_step_defs live_def store_word_def owner_at_def after_last_def release_def
  transition_simps assertion_def task_word
lemmas join_simps = join_step_defs live_def store_word_def joiner_at_def transition_simps assertion_def task_word

lemma owner_queued: "cell_inv c \<Longrightarrow> owner c = OwnerQueued \<Longrightarrow> succeeds cell_inv (owner_step ch c)"
  by (cases "joiner c"; simp add: owner_simps inv_defs  split: task_call.splits; auto)

lemma owner_run: "cell_inv c \<Longrightarrow> owner c = OwnerRun \<Longrightarrow> succeeds cell_inv (owner_step ch c)"
  by (cases "joiner c"; simp add: owner_simps inv_defs transition_to_running_def split: task_call.splits; auto)

lemma owner_poll: "cell_inv c \<Longrightarrow> owner c = OwnerPoll \<Longrightarrow> succeeds cell_inv (owner_step ch c)"
  by (cases "joiner c"; simp add: owner_simps inv_defs poll_future_def blocking_poll_def split: task_call.splits; auto)

lemma owner_into_task: "cell_inv c \<Longrightarrow> owner c = OwnerIntoTask \<Longrightarrow> succeeds cell_inv (owner_step ch c)"
  by (cases "joiner c"; simp add: owner_simps inv_defs ref_dec_def split: task_call.splits; auto)

lemma owner_shutdown: "cell_inv c \<Longrightarrow> owner c = OwnerShutdown \<Longrightarrow> succeeds cell_inv (owner_step ch c)"
  by (cases "joiner c"; simp add: owner_simps inv_defs transition_to_shutdown_def split: task_call.splits; auto)

lemma owner_drop_unowned: "cell_inv c \<Longrightarrow> owner c = OwnerDropUnowned \<Longrightarrow> succeeds cell_inv (owner_step ch c)"
  by (cases "joiner c"; simp add: owner_simps inv_defs ref_dec_twice_def split: task_call.splits; auto)

lemma owner_cancel: "cell_inv c \<Longrightarrow> owner c = OwnerCancel x \<Longrightarrow> succeeds cell_inv (owner_step ch c)"
  by (cases "joiner c"; simp add: owner_simps inv_defs cancel_task_def split: task_call.splits; auto)

lemma owner_complete: "cell_inv c \<Longrightarrow> owner c = OwnerComplete x \<Longrightarrow> succeeds cell_inv (owner_step ch c)"
  by (cases "joiner c"; simp add: owner_simps inv_defs transition_to_complete_def split: task_call.splits; auto)

lemma owner_drop_output: "cell_inv c \<Longrightarrow> owner c = OwnerDropOutput x \<Longrightarrow> succeeds cell_inv (owner_step ch c)"
  by (cases "joiner c"; cases x; simp add: owner_simps inv_defs drop_future_or_output_def split: task_call.splits; auto)

lemma owner_wake_join: "cell_inv c \<Longrightarrow> owner c = OwnerWakeJoin x \<Longrightarrow> succeeds cell_inv (owner_step ch c)"
  by (cases "joiner c"; simp add: owner_simps inv_defs  split: task_call.splits; auto)

lemma owner_unset_waker: "cell_inv c \<Longrightarrow> owner c = OwnerUnsetWaker x \<Longrightarrow> succeeds cell_inv (owner_step ch c)"
  by (cases "joiner c"; simp add: owner_simps inv_defs unset_waker_after_complete_def split: task_call.splits; auto)

lemma owner_drop_waker: "cell_inv c \<Longrightarrow> owner c = OwnerDropWaker x \<Longrightarrow> succeeds cell_inv (owner_step ch c)"
  by (cases "joiner c"; cases x; simp add: owner_simps inv_defs  split: task_call.splits; auto)

lemma owner_terminal: "cell_inv c \<Longrightarrow> owner c = OwnerTerminal x \<Longrightarrow> succeeds cell_inv (owner_step ch c)"
  by (cases "joiner c"; cases x; simp add: owner_simps inv_defs transition_to_terminal_def split: task_call.splits; auto)

lemma owner_dealloc: "cell_inv c \<Longrightarrow> owner c = OwnerDealloc x \<Longrightarrow> succeeds cell_inv (owner_step ch c)"
  by (cases "joiner c"; cases x; simp add: owner_simps inv_defs dealloc_def split: task_call.splits; auto)

lemma owner_drop_task: "cell_inv c \<Longrightarrow> owner c = OwnerDropTask \<Longrightarrow> succeeds cell_inv (owner_step ch c)"
  by (cases "joiner c"; simp add: owner_simps inv_defs ref_dec_def split: task_call.splits; auto)

lemma join_idle: "cell_inv c \<Longrightarrow> joiner c = JoinIdle \<Longrightarrow> succeeds cell_inv (join_step ch c)"
  by (cases "owner c"; simp add: join_simps inv_defs ; auto)

lemma join_load: "cell_inv c \<Longrightarrow> joiner c = JoinLoad \<Longrightarrow> succeeds cell_inv (join_step ch c)"
  by (cases "owner c"; simp add: join_simps inv_defs join_load_def; auto)

lemma join_will_wake: "cell_inv c \<Longrightarrow> joiner c = JoinWillWake \<Longrightarrow> succeeds cell_inv (join_step ch c)"
  by (cases "owner c"; simp add: join_simps inv_defs ; auto)

lemma join_unset: "cell_inv c \<Longrightarrow> joiner c = JoinUnset \<Longrightarrow> succeeds cell_inv (join_step ch c)"
  by (cases "owner c"; simp add: join_simps inv_defs unset_waker_def join_unset_def; auto)

lemma join_set_field: "cell_inv c \<Longrightarrow> joiner c = JoinSetField \<Longrightarrow> succeeds cell_inv (join_step ch c)"
  by (cases "owner c"; simp add: join_simps inv_defs ; auto)

lemma join_set_bit: "cell_inv c \<Longrightarrow> joiner c = JoinSetBit \<Longrightarrow> succeeds cell_inv (join_step ch c)"
  by (cases "owner c"; simp add: join_simps inv_defs set_join_waker_def join_set_def; auto)

lemma join_clear_field: "cell_inv c \<Longrightarrow> joiner c = JoinClearField \<Longrightarrow> succeeds cell_inv (join_step ch c)"
  by (cases "owner c"; simp add: join_simps inv_defs ; auto)

lemma join_take: "cell_inv c \<Longrightarrow> joiner c = JoinTake \<Longrightarrow> succeeds cell_inv (join_step ch c)"
  by (cases "owner c"; cases "cell_stage c"; simp add: join_simps inv_defs take_output_def; auto)

lemma join_got: "cell_inv c \<Longrightarrow> joiner c = JoinGot \<Longrightarrow> succeeds cell_inv (join_step ch c)"
  by (cases "owner c"; simp add: join_simps inv_defs ; auto)

lemma join_slow: "cell_inv c \<Longrightarrow> joiner c = JoinSlow \<Longrightarrow> succeeds cell_inv (join_step ch c)"
  by (cases "owner c"; simp add: join_simps inv_defs transition_to_join_handle_dropped_def; auto)

lemma join_drop_output: "cell_inv c \<Longrightarrow> joiner c = JoinDropOutput x \<Longrightarrow> succeeds cell_inv (join_step ch c)"
  by (cases "owner c"; simp add: join_simps inv_defs drop_future_or_output_def; auto)

lemma join_drop_waker: "cell_inv c \<Longrightarrow> joiner c = JoinDropWaker \<Longrightarrow> succeeds cell_inv (join_step ch c)"
  by (cases "owner c"; simp add: join_simps inv_defs ; auto)

lemma join_drop_ref: "cell_inv c \<Longrightarrow> joiner c = JoinDropRef \<Longrightarrow> succeeds cell_inv (join_step ch c)"
  by (cases "owner c"; simp add: join_simps inv_defs ref_dec_def; auto)

lemma join_dealloc: "cell_inv c \<Longrightarrow> joiner c = JoinDealloc \<Longrightarrow> succeeds cell_inv (join_step ch c)"
  by (cases "owner c"; simp add: join_simps inv_defs dealloc_def; auto)

text \<open>The fast drop of the handle only hits a task nothing has happened to.\<close>

lemma fast_word: "drop_join_handle_fast spurious w =
    (if w = INITIAL_STATE \<and> \<not> spurious then (True, 132) else (False, w))"
  by (simp add: drop_join_handle_fast_def INITIAL_STATE_eq REF_ONE_eq JOIN_INTEREST_def)

lemma fast_view: "refs 132 = 2" "life_of 132 = Idle" "\<not> bit (132 :: snapshot) 3" "\<not> bit (132 :: snapshot) 4"
  "bit (132 :: snapshot) 2" "\<not> bit (132 :: snapshot) (Suc 0)" "\<not> bit (132 :: snapshot) 0"
  by (simp_all add: refs_def)

lemma fast_inv:
  assumes "cell_inv c" and "joiner c = JoinFast" and "word c = INITIAL_STATE"
  shows "cell_inv (joiner_at JoinDone (c\<lparr>word := 132\<rparr>))"
  using assms by (cases "owner c"; simp add: joiner_at_def inv_defs fast_view initial_view; auto)

lemma slow_inv: "cell_inv c \<Longrightarrow> joiner c = JoinFast \<Longrightarrow> cell_inv (joiner_at JoinSlow c)"
  by (cases "owner c"; simp add: joiner_at_def inv_defs; auto)

lemma join_fast: "cell_inv c \<Longrightarrow> joiner c = JoinFast \<Longrightarrow> succeeds cell_inv (join_step ch c)"
  using fast_inv [of c] slow_inv [of c] inv_alive [of c]
  by (auto simp: join_step_defs live_def fast_word)

section \<open>All reachable cells\<close>

lemma owner_step_inv: "cell_inv c \<Longrightarrow> owner c \<noteq> OwnerDone \<Longrightarrow> succeeds cell_inv (owner_step ch c)"
proof (cases "owner c")
  case OwnerToIdle
  moreover assume "cell_inv c"
  ultimately show ?thesis by (simp add: cell_inv_def word_inv_def)
qed (auto intro: owner_queued owner_run owner_poll owner_into_task owner_shutdown owner_drop_unowned owner_cancel owner_complete
      owner_drop_output owner_wake_join owner_unset_waker owner_drop_waker owner_terminal owner_dealloc owner_drop_task)

lemma join_step_inv: "cell_inv c \<Longrightarrow> joiner c \<noteq> JoinDone \<Longrightarrow> succeeds cell_inv (join_step ch c)"
  by (cases "joiner c") (auto intro: join_idle join_load join_will_wake join_unset join_set_field join_set_bit join_clear_field
      join_take join_got join_fast join_slow join_drop_output join_drop_waker join_drop_ref join_dealloc)

lemma cell_step_inv: "cell_step c c' \<Longrightarrow> cell_inv c \<Longrightarrow> cell_inv c'"
proof (induction rule: cell_step.induct)
  case (by_owner c ch c')
  then show ?case using owner_step_inv [of c ch] by simp
next
  case (by_joiner c ch c')
  then show ?case using join_step_inv [of c ch] by simp
qed

lemma reachable_inv: "reachable_cell c \<Longrightarrow> cell_inv c"
  by (induction rule: reachable_cell.induct) (auto intro: cell_inv_new cell_step_inv)

end
