(* ===== verification/Task_Cell_Contract.thy ===== *)
theory Task_Cell_Contract imports Task_Cell_Correct begin

text \<open>
  What the task code promises for every interleaving of its two threads: no assertion fails and no
  memory is used after its release, the stage and the waker are never in two hands, every task is
  brought to its end and released once, and what is joined is what happened to the function.
\<close>

section \<open>Progress\<close>

text \<open>Operations the owner has at most before it, and the handle once it is being dropped.\<close>

fun owner_rank :: "owner_pc \<Rightarrow> nat" where
  "owner_rank OwnerQueued = 12"
| "owner_rank OwnerRun = 11"
| "owner_rank OwnerPoll = 10"
| "owner_rank OwnerToIdle = 10"
| "owner_rank OwnerIntoTask = 11"
| "owner_rank OwnerShutdown = 10"
| "owner_rank OwnerDropUnowned = 11"
| "owner_rank (OwnerCancel x) = 9"
| "owner_rank (OwnerComplete x) = 8"
| "owner_rank (OwnerWakeJoin x) = 7"
| "owner_rank (OwnerUnsetWaker x) = 6"
| "owner_rank (OwnerDropOutput x) = 5"
| "owner_rank (OwnerDropWaker x) = 5"
| "owner_rank (OwnerTerminal x) = 4"
| "owner_rank (OwnerDealloc x) = (if x then 3 else 1)"
| "owner_rank OwnerDropTask = 2"
| "owner_rank OwnerDone = 0"

fun join_rank :: "join_pc \<Rightarrow> nat" where
  "join_rank JoinLoad = 14"
| "join_rank JoinWillWake = 13"
| "join_rank JoinUnset = 12"
| "join_rank JoinSetField = 11"
| "join_rank JoinSetBit = 10"
| "join_rank JoinClearField = 9"
| "join_rank JoinTake = 8"
| "join_rank JoinIdle = 7"
| "join_rank JoinGot = 7"
| "join_rank JoinFast = 6"
| "join_rank JoinSlow = 5"
| "join_rank (JoinDropOutput x) = 4"
| "join_rank JoinDropWaker = 3"
| "join_rank JoinDropRef = 2"
| "join_rank JoinDealloc = 1"
| "join_rank JoinDone = 0"

lemma store_word_at:
  assumes "store_word r k c = Inr c'" and "\<And>a w. r = Inr (a, w) \<Longrightarrow> P (k a (c\<lparr>word := w\<rparr>))"
  shows "P c'"
  using assms by (auto simp: store_word_def rmap_eq_Inr)

lemma poll_future_ready: "\<exists>c'. poll_future ch c = (Ready, c')"
  by (simp add: poll_future_def blocking_poll_def)

lemma live_Inr: "live c r = Inr x \<longleftrightarrow> deallocs c = 0 \<and> r = Inr x"
  by (simp add: live_def)

lemma owner_rank_less:
  assumes "owner c \<noteq> OwnerDone" and "owner_step ch c = Inr c'"
  shows "owner_rank (owner c') < owner_rank (owner c)"
proof (cases "owner c")
  case OwnerPoll
  obtain d where "poll_future ch c = (Ready, d)" using poll_future_ready by blast
  then show ?thesis using assms OwnerPoll by (auto simp: owner_step_defs live_Inr owner_at_def)
next
  case OwnerRun
  then have "store_word (transition_to_running (word c)) (\<lambda>r. owner_at (case r of
      RunSuccess \<Rightarrow> OwnerPoll | RunCancelled \<Rightarrow> OwnerCancel True | RunFailed \<Rightarrow> OwnerDropTask
    | RunDealloc \<Rightarrow> OwnerDealloc True)) c = Inr c'"
    using assms(2) by (simp add: owner_step_defs live_Inr)
  then show ?thesis by (rule store_word_at) (simp add: OwnerRun owner_at_def split: TransitionToRunning.split)
next
  case OwnerToIdle
  then obtain r w where "transition_to_idle (word c) = Inr (r, w)"
    using assms(2) by (auto simp: owner_step_defs live_Inr rbind_eq_Inr)
  then show ?thesis using assms(2) OwnerToIdle
    by (cases r) (auto simp: owner_step_defs live_Inr owner_at_def)
qed (use assms in \<open>auto simp: owner_step_defs live_Inr store_word_def owner_at_def after_last_def
      rmap_eq_Inr cancel_task_def drop_future_or_output_def dealloc_def split: task_call.splits\<close>)

lemma join_rank_less:
  assumes "joiner c \<noteq> JoinDone" and "drops_handle ch" and "join_step ch c = Inr c'"
  shows "join_rank (joiner c') < join_rank (joiner c)"
proof (cases "joiner c")
  case JoinUnset
  then obtain r w where "unset_waker (word c) = Inr (r, w)"
    using assms(3) by (auto simp: join_step_defs live_Inr rbind_eq_Inr)
  then show ?thesis using assms(3) JoinUnset
    by (cases r) (auto simp: join_step_defs live_Inr joiner_at_def join_unset_def assertion_def split: if_splits)
next
  case JoinSetBit
  then obtain r w where "set_join_waker (word c) = Inr (r, w)"
    using assms(3) by (auto simp: join_step_defs live_Inr rbind_eq_Inr)
  then show ?thesis using assms(3) JoinSetBit
    by (cases r) (auto simp: join_step_defs live_Inr joiner_at_def join_set_def assertion_def split: if_splits)
qed (use assms in \<open>auto simp: join_step_defs live_Inr store_word_def joiner_at_def join_load_def
      rmap_eq_Inr assertion_def take_output_def drop_future_or_output_def dealloc_def
      split: if_splits prod.splits stage.splits\<close>)

interpretation owner_thread: safe_thread owner_step "\<lambda>c. owner c = OwnerDone" reachable_cell "\<lambda>ch. True" "\<lambda>c. owner_rank (owner c)"
proof unfold_locales
  fix c ch assume "reachable_cell c" and "owner c \<noteq> OwnerDone"
  then show "succeeds reachable_cell (owner_step ch c)"
    using owner_step_inv [OF reachable_inv] by (fastforce simp: succeeds_Inr intro: reachable_cell.move cell_step.by_owner)
qed (simp_all add: owner_rank_less)

interpretation join_thread: safe_thread join_step "\<lambda>c. joiner c = JoinDone" reachable_cell drops_handle "\<lambda>c. join_rank (joiner c)"
proof unfold_locales
  fix c ch assume "reachable_cell c" and "joiner c \<noteq> JoinDone"
  then show "succeeds reachable_cell (join_step ch c)"
    using join_step_inv [OF reachable_inv] by (fastforce simp: succeeds_Inr intro: reachable_cell.move cell_step.by_joiner)
next
  show "\<exists>ch. drops_handle ch" by (rule exI [of _ "undefined\<lparr>drops_handle := True\<rparr>"]) simp
qed (simp_all add: join_rank_less)

lemma join_keeps_owner: "join_step ch c = Inr c' \<Longrightarrow> owner c' = owner c"
  by (cases "joiner c") (auto simp: join_step_defs live_Inr store_word_def joiner_at_def rmap_eq_Inr rbind_eq_Inr
      take_output_def drop_future_or_output_def dealloc_def split: if_splits prod.splits stage.splits)

lemma run_join_owner: "run_thread join_step finished chs c = Inr d \<Longrightarrow> owner d = owner c"
  by (induction chs arbitrary: c) (auto simp: rbind_eq_Inr join_keeps_owner split: if_splits)

section \<open>Who touches what\<close>

text \<open>The next operation of a thread reads or writes the stage or the waker.\<close>

fun owner_uses_stage :: "owner_pc \<Rightarrow> bool" where
  "owner_uses_stage OwnerPoll = True"
| "owner_uses_stage (OwnerCancel x) = True"
| "owner_uses_stage (OwnerDropOutput x) = True"
| "owner_uses_stage pc = False"

fun join_uses_stage :: "join_pc \<Rightarrow> bool" where
  "join_uses_stage JoinTake = True"
| "join_uses_stage (JoinDropOutput x) = True"
| "join_uses_stage pc = False"

fun owner_reads_waker :: "owner_pc \<Rightarrow> bool" where
  "owner_reads_waker (OwnerWakeJoin x) = True"
| "owner_reads_waker pc = False"

definition owner_writes_waker :: "owner_pc \<Rightarrow> bool" where
  "owner_writes_waker pc \<longleftrightarrow> at_drop_waker pc"

definition join_reads_waker :: "join_pc \<Rightarrow> bool" where
  "join_reads_waker pc \<longleftrightarrow> pc = JoinWillWake"

definition join_writes_waker :: "join_pc \<Rightarrow> bool" where
  "join_writes_waker pc \<longleftrightarrow> pc = JoinSetField \<or> pc = JoinClearField \<or> pc = JoinDropWaker"

lemma inv_exclusive:
  assumes "cell_inv c"
  shows "\<not> (owner_uses_stage (owner c) \<and> join_uses_stage (joiner c))"
    and "\<not> (owner_writes_waker (owner c) \<and> (join_reads_waker (joiner c) \<or> join_writes_waker (joiner c)))"
    and "\<not> (owner_reads_waker (owner c) \<and> join_writes_waker (joiner c))"
  using assms
  by (cases "owner c"; cases "joiner c"; simp add: inv_defs owner_writes_waker_def join_reads_waker_def join_writes_waker_def)+

section \<open>Properties\<close>

text \<open>Nothing panics; the task is run, and the handle dropped or polled.\<close>

definition drop_choice :: choice where
  "drop_choice = \<lparr>call = CallRun, func_panics = False, drop_panics = False, wake_panics = False, same_waker = False, spurious_failure = False,
     drops_handle = True\<rparr>"

definition poll_choice :: choice where
  "poll_choice = drop_choice\<lparr>drops_handle := False\<rparr>"


text \<open>C16 In every interleaving of running, shutting down or dropping a task with polling and dropping its
  join handle, no thread fails: no assertion on the state word is violated, no reference count
  underflows, nothing is used after its release, no waker is missing and no output is taken twice.
  The memory is released once, exactly when both threads are done, and the function runs at most once.\<close>

theorem task_cell_safe:
  assumes "reachable_cell c"
  shows "(owner c \<noteq> OwnerDone \<longrightarrow> is_ok (owner_step ch c)) \<and> (joiner c \<noteq> JoinDone \<longrightarrow> is_ok (join_step ch c)) \<and>
    deallocs c = (if owner c = OwnerDone \<and> joiner c = JoinDone then 1 else 0) \<and> runs c \<le> 1 \<and>
    refs (word c) = owner_refs (owner c) + join_refs (joiner c)"
proof -
  note i = reachable_inv [OF assms]
  have "owner c \<noteq> OwnerDone \<longrightarrow> is_ok (owner_step ch c)" "joiner c \<noteq> JoinDone \<longrightarrow> is_ok (join_step ch c)"
    using owner_step_inv [OF i, of ch] join_step_inv [OF i, of ch] by (auto simp: succeeds_Inr)
  then show ?thesis using i by (simp add: cell_inv_def memory_inv_def stage_inv_def word_inv_def)
qed

theorem task_cell_safe_witness:
  "\<exists>c. owner_step drop_choice new_task = Inr c \<and> owner c = OwnerRun \<and> is_ok (owner_step drop_choice c) \<and> refs (word c) = 3"
proof -
  let ?c = "owner_at OwnerRun new_task"
  have s: "owner_step drop_choice new_task = Inr ?c"
    by (simp add: owner_step_defs live_def new_task_def drop_choice_def)
  have o: "owner ?c = OwnerRun" "joiner ?c = JoinIdle" by (simp_all add: owner_at_def new_task_def)
  have "cell_step new_task ?c" using s by (rule by_owner [rotated]) (simp add: new_task_def)
  from reachable_cell.move [OF reachable_cell.start this]
  show ?thesis using task_cell_safe [of ?c drop_choice] s o by simp
qed

text \<open>The stage is never accessed by both threads at once, and the waker is never written by one while
  the other reads or writes it: the state word gives each field one owner at a time.\<close>

theorem task_cell_exclusive:
  assumes "reachable_cell c"
  shows "\<not> (owner_uses_stage (owner c) \<and> join_uses_stage (joiner c)) \<and>
    \<not> (owner_writes_waker (owner c) \<and> (join_reads_waker (joiner c) \<or> join_writes_waker (joiner c))) \<and>
    \<not> (owner_reads_waker (owner c) \<and> join_writes_waker (joiner c))"
  using inv_exclusive [OF reachable_inv [OF assms]] by blast

theorem task_cell_exclusive_witness:
  "\<not> (owner_uses_stage (owner new_task) \<and> join_uses_stage (joiner new_task))"
  using task_cell_exclusive [OF reachable_cell.start] by blast

text \<open>C24 From wherever the two threads are, the owner is done after at most twelve of its steps, whatever
  the handle did, and then the handle, once it is being dropped, after at most fourteen; the
  memory is then released, once, with no reference left.\<close>

theorem task_cell_finishes:
  assumes "reachable_cell c" and "12 \<le> length chs" and "14 \<le> length dhs" and "\<And>ch. ch \<in> set dhs \<Longrightarrow> drops_handle ch"
  shows "\<exists>d e. run_thread owner_step (\<lambda>c. owner c = OwnerDone) chs c = Inr d \<and>
    run_thread join_step (\<lambda>c. joiner c = JoinDone) dhs d = Inr e \<and>
    owner d = OwnerDone \<and> joiner e = JoinDone \<and> deallocs e = 1 \<and> refs (word e) = 0"
proof -
  have "owner_rank pc \<le> 12" for pc by (cases pc) simp_all
  then have "owner_rank (owner c) \<le> length chs" using assms(2) le_trans by blast
  then obtain d where d: "run_thread owner_step (\<lambda>c. owner c = OwnerDone) chs c = Inr d" "reachable_cell d" "owner d = OwnerDone"
    using owner_thread.run_finishes [OF assms(1), of chs] by auto
  have "join_rank pc \<le> 14" for pc by (cases pc) simp_all
  then have "join_rank (joiner d) \<le> length dhs" using assms(3) le_trans by blast
  then obtain e where e: "run_thread join_step (\<lambda>c. joiner c = JoinDone) dhs d = Inr e" "reachable_cell e" "joiner e = JoinDone"
    using join_thread.run_finishes [OF d(2), of dhs] assms(4) by auto
  have "owner e = OwnerDone" using run_join_owner [OF e(1)] d(3) by simp
  then have "deallocs e = 1" "refs (word e) = 0"
    using reachable_inv [OF e(2)] e(3) by (simp_all add: cell_inv_def memory_inv_def word_inv_def)
  with d e show ?thesis by blast
qed

theorem task_cell_finishes_witness:
  "\<exists>d e. run_thread owner_step (\<lambda>c. owner c = OwnerDone) (replicate 12 drop_choice) new_task = Inr d \<and>
    run_thread join_step (\<lambda>c. joiner c = JoinDone) (replicate 14 drop_choice) d = Inr e \<and> deallocs e = 1"
  using task_cell_finishes [OF reachable_cell.start, of "replicate 12 drop_choice" "replicate 14 drop_choice"]
  by (auto simp: drop_choice_def)

text \<open>C25 The handle delivers at most one result, only of a completed task, and the result tells what
  happened: an output means that the function ran, a cancellation that it never did.\<close>

theorem task_result_explained:
  assumes "reachable_cell c"
  shows "length (delivered c) \<le> 1 \<and> (delivered c \<noteq> [] \<longrightarrow> is_complete (word c)) \<and>
    (Output \<in> set (delivered c) \<longrightarrow> runs c = 1) \<and> (JoinCancelled \<in> set (delivered c) \<longrightarrow> runs c = 0)"
proof -
  have i: "length (delivered c) \<le> of_bool (\<not> may_take (joiner c))" "list_all (explains (runs c)) (delivered c)"
    "delivered c \<noteq> [] \<longrightarrow> bit (word c) 1"
    using reachable_inv [OF assms] by (simp_all add: cell_inv_def stage_inv_def)
  have "of_bool b \<le> (1 :: nat)" for b by simp
  with i(1) have "length (delivered c) \<le> 1" using le_trans by blast
  moreover have "explains (runs c) r" if "r \<in> set (delivered c)" for r using i(2) that by (simp add: list_all_iff)
  ultimately show ?thesis using i(3) by (metis explains.simps(1,2) getters(2))
qed

text \<open>The task is run, then the handle polls it.\<close>

lemmas cell_eval = owner_step_defs join_step_defs live_def store_word_def owner_at_def joiner_at_def after_last_def release_def
  transition_to_running_def atomically_def transition_to_complete_def transition_to_terminal_def ref_dec_def poll_future_def
  blocking_poll_def is_join_interested_def is_join_waker_set_def is_complete_def is_idle_def is_notified_def is_running_def
  is_cancelled_def take_output_def join_load_def assertion_def drop_choice_def poll_choice_def new_task_def INITIAL_STATE_eq
  flag_masks Let_def REF_COUNT_MASK_eq REF_COUNT_SHIFT_eq REF_ONE_eq ref_count_def set_running_def unset_notified_def

lemma replicate_numeral: "replicate (numeral k) a = a # replicate (pred_numeral k) a"
  by (simp add: numeral_eq_Suc)

definition run_cell :: cell where
  "run_cell = new_task\<lparr>word := 74, cell_stage := StageFinished Output, func := False, owner := OwnerDone, runs := 1\<rparr>"

definition joined_cell :: cell where
  "joined_cell = run_cell\<lparr>cell_stage := StageConsumed, joiner := JoinGot, delivered := [Output]\<rparr>"

lemma joined_reachable: "reachable_cell joined_cell"
proof -
  have "run_thread owner_step (\<lambda>c. owner c = OwnerDone) (replicate 12 drop_choice) new_task = Inr run_cell"
    by (simp add: replicate_numeral cell_eval run_cell_def)
  then have r: "reachable_cell run_cell" using owner_thread.run_safe reachable_cell.start by blast
  have "run_thread join_step (\<lambda>c. joiner c = JoinDone) (replicate 3 poll_choice) run_cell = Inr joined_cell"
    by (simp add: replicate_numeral cell_eval run_cell_def joined_cell_def)
  then show ?thesis using join_thread.run_safe [OF r] by blast
qed

theorem task_result_witness:
  "delivered joined_cell = [Output] \<and> runs joined_cell = 1"
proof -
  have "delivered joined_cell = [Output]" by (simp add: joined_cell_def)
  then show ?thesis using task_result_explained [OF joined_reachable] by simp
qed

text \<open>C26 The word transitions implement the transitions of the record of lifecycle, flags and reference
  count, and fail exactly where the record ones are undefined.\<close>

theorem task_word_refines:
  assumes "state_wf s"
  shows "map_option (map_prod id view) (result_of (transition_to_running s)) = spec_running (view s) \<and>
    map_option (map_prod id view) (result_of (transition_to_idle s)) = spec_idle (view s) \<and>
    map_option (map_prod view view) (result_of (transition_to_complete s)) = map_option (\<lambda>v. (v, v)) (spec_complete (view s)) \<and>
    map_option (map_prod id view) (result_of (transition_to_notified_by_val s)) = spec_notify_by_val (view s) \<and>
    map_option (map_prod id view) (result_of (transition_to_notified_by_ref s)) = spec_notify_by_ref (view s) \<and>
    map_option (map_prod id view) (result_of (transition_to_notified_and_cancel s)) = spec_cancel (view s) \<and>
    map_option (map_prod id view) (result_of (transition_to_shutdown s)) = Some (spec_shutdown (view s)) \<and>
    map_option (map_prod id view) (result_of (transition_to_join_handle_dropped s)) = spec_drop_handle (view s) \<and>
    map_option (map_prod id view) (result_of (ref_dec s)) = spec_release 1 (view s) \<and>
    map_option (map_prod id view) (result_of (ref_dec_twice s)) = spec_release 2 (view s)"
  using view_running view_idle [OF assms] view_complete view_notify_by_val [OF assms] view_notify_by_ref view_cancel
    view_shutdown view_drop_handle view_ref_dec by blast

theorem task_word_refines_witness:
  "map_option (map_prod id view) (result_of (transition_to_running INITIAL_STATE)) =
     Some (RunSuccess, (view INITIAL_STATE)\<lparr>life := Running, notified_flag := False\<rparr>)"
proof -
  have "state_wf INITIAL_STATE" by (simp add: state_wf_def initial_view)
  from task_word_refines [OF this] show ?thesis by (simp add: spec_running_def initial_view)
qed

text \<open>Counting never leaves the upper bits of the word: a reference more or less changes no flag, the
  count aborts the process instead of running over, and no count below zero is stored.\<close>

theorem task_count_bounds:
  "(ref_inc s = Inr t \<longrightarrow> refs s < 2 ^ 57 \<and> refs t = Suc (refs s) \<and> (\<forall>n < 6. bit t n = bit s n)) \<and>
   (2 ^ 57 \<le> refs s \<longrightarrow> \<not> is_ok (ref_inc s)) \<and>
   (ref_dec s = Inr (last', t) \<longrightarrow> 0 < refs s \<and> refs t = refs s - 1 \<and> (last' \<longleftrightarrow> refs t = 0) \<and> (\<forall>n < 6. bit t n = bit s n)) \<and>
   (ref_dec_twice s = Inr (last', t) \<longrightarrow> 2 \<le> refs s \<and> refs t = refs s - 2 \<and> (last' \<longleftrightarrow> refs t = 0) \<and> (\<forall>n < 6. bit t n = bit s n))"
proof -
  have "isize_max < s \<longleftrightarrow> \<not> refs s < 2 ^ 57" using isize_max_refs [of s] by (simp add: not_le [symmetric])
  then show ?thesis
    by (intro conjI impI; clarsimp simp: ref_inc_def ref_dec_def ref_dec_twice_def assertion_def task_word split: if_splits; linarith?)
qed

theorem task_count_bounds_witness: "refs (INITIAL_STATE + REF_ONE) = 4"
proof -
  have "ref_inc INITIAL_STATE = Inr (INITIAL_STATE + REF_ONE)"
    by (simp add: ref_inc_def INITIAL_STATE_eq isize_max_def)
  then show ?thesis using task_count_bounds [of INITIAL_STATE "INITIAL_STATE + REF_ONE"] initial_view(1) by simp
qed

text \<open>Under any interference the compare-and-exchange loop reports what the closure says of a word it
  read, stores only over the very word the closure was applied to, and alone is one atomic step.\<close>

theorem fetch_update_linearizes:
  "(fetch_update_action f actuals w = Some (Inr (out, Some new)) \<longrightarrow>
      (\<exists>replaced \<in> set actuals. f replaced = Inr (out, Some new))) \<and>
   (fetch_update_action f actuals w = Some r \<longrightarrow> (\<exists>seen \<in> set (w # actuals). f seen = r)) \<and>
   map_option (rmap (\<lambda>(out, new). (out, case new of Some n \<Rightarrow> n | None \<Rightarrow> w))) (fetch_update_action f [w] w) =
     Some (atomically f w)"
  by (intro conjI impI fetch_update_action_alone) (erule fetch_update_action_store, erule fetch_update_action_seen)

theorem fetch_update_witness:
  "\<exists>r. fetch_update_action (\<lambda>s. Inr ((), Some (set_notified s))) [1] 1 = Some r \<and> r = Inr ((), Some (set_notified 1))"
proof -
  let ?f = "\<lambda>s. Inr ((), Some (set_notified s)) :: (unit \<times> snapshot option) fs_result"
  obtain r where r: "fetch_update_action ?f [1] 1 = Some r" by (simp add: fetch_update_action.simps)
  then have "\<exists>seen \<in> set [1, 1]. ?f seen = r"
    using fetch_update_linearizes [of ?f "[1]" 1 "()" "set_notified 1" r] by blast
  with r show ?thesis by auto
qed

end
