(* ===== verification/Pool.thy ===== *)
theory Pool imports Machine "HOL-Library.Multiset" begin

text \<open>
  The pool of worker threads (\<^verbatim>\<open>crates/dbt-runtime/src/pool.rs\<close>). Everything a thread does while it
  holds the mutex is one step; between two steps it runs a task, waits on the condition variable or
  waits for the thread that exited before it. Waking up without cause is part of the model, as the
  code expects. The metrics are counters that wrap on a decrement at zero; counting up is without
  bound, since no process has \<open>2 ^ 64\<close> threads or tasks.
\<close>

section \<open>State\<close>

record pool_task =
  task_id :: nat
  mandatory :: bool

text \<open>
  Where a worker is between two steps. \<open>Draining\<close> keeps \<^verbatim>\<open>is_counted_idle\<close>, and \<open>Exiting\<close> the handle it
  joins before it ends.
\<close>

datatype worker = Starting | RunningTask pool_task | Waiting | Draining pool_task bool | Exiting "nat option" | Exited

text \<open>
  The fields of \<^verbatim>\<open>Shared\<close>, the cap and the metrics of \<^verbatim>\<open>Inner\<close>, and the workers by their number. The last
  fields record what the pool has done: the tasks accepted, started, run, shut down without being run
  and refused, the order in which threads left their loop, and whether the queue was left without a thread.
\<close>

record pool =
  queue :: "pool_task list"
  num_notify :: nat
  shutdown :: bool
  shutdown_tx :: bool
  last_exiting_thread :: "nat option"
  worker_threads :: "nat list"
  worker_thread_index :: nat
  thread_cap :: nat
  num_threads :: nat
  num_idle_threads :: nat
  queue_depth :: nat
  workers :: "worker list"
  accepted :: "pool_task list"
  started :: "pool_task list"
  executed :: "pool_task list"
  shut_down :: "pool_task list"
  refused :: "pool_task list"
  exits :: "nat list"
  stranded :: bool

definition metric_dec :: "nat \<Rightarrow> nat" where
  "metric_dec n = (if n = 0 then 2 ^ 64 - 1 else n - 1)"

definition new_pool :: "nat \<Rightarrow> pool" where
  "new_pool cap = \<lparr>queue = [], num_notify = 0, shutdown = False, shutdown_tx = True, last_exiting_thread = None,
     worker_threads = [], worker_thread_index = 0, thread_cap = cap, num_threads = 0, num_idle_threads = 0,
     queue_depth = 0, workers = [], accepted = [], started = [], executed = [], shut_down = [], refused = [],
     exits = [], stranded = False\<rparr>"

section \<open>Spawning\<close>

datatype os_result = ThreadOk | WouldBlock | OtherError

datatype SpawnError = ShuttingDown | NoThreads os_result

definition is_temporary_os_thread_error :: "os_result \<Rightarrow> bool" where
  "is_temporary_os_thread_error e \<longleftrightarrow> e = WouldBlock"

text \<open>\<^verbatim>\<open>spawn_task\<close>; \<open>os\<close> is what the operating system answers to \<^verbatim>\<open>spawn_thread\<close>, if it is asked.\<close>

definition spawn_task :: "os_result \<Rightarrow> pool_task \<Rightarrow> pool \<Rightarrow> ((SpawnError + unit) \<times> pool) fs_result" where
  "spawn_task os task p =
     (if shutdown p then Inr (Inl ShuttingDown, p\<lparr>refused := refused p @ [task]\<rparr>)
      else
        let p = p\<lparr>queue := queue p @ [task], accepted := accepted p @ [task], queue_depth := Suc (queue_depth p)\<rparr>
        in if num_idle_threads p = 0 then
             (if thread_cap p \<le> num_threads p then Inr (Inr (), p)
              else if \<not> shutdown_tx p then Inl (Panic ''assertion failed: shared.shutdown_tx.is_some()'')
              else if os = ThreadOk then
                Inr (Inr (), p\<lparr>num_threads := Suc (num_threads p), worker_thread_index := Suc (worker_thread_index p),
                  worker_threads := worker_threads p @ [worker_thread_index p], workers := workers p @ [Starting], stranded := False\<rparr>)
              else if is_temporary_os_thread_error os \<and> 0 < num_threads p then Inr (Inr (), p)
              else Inr (Inl (NoThreads os), p\<lparr>stranded := stranded p \<or> num_threads p = 0\<rparr>))
           else Inr (Inr (), p\<lparr>num_idle_threads := metric_dec (num_idle_threads p), num_notify := Suc (num_notify p)\<rparr>))"

text \<open>
  \<^verbatim>\<open>Spawner::spawn_blocking\<close> and \<^verbatim>\<open>Spawner::spawn_mandatory_blocking\<close>: the task's number stands for the
  \<^verbatim>\<open>JoinHandle\<close>. The second answers \<open>None\<close> on any error.
\<close>

definition spawn_blocking :: "os_result \<Rightarrow> nat \<Rightarrow> pool \<Rightarrow> (nat \<times> pool) fs_result" where
  "spawn_blocking os h p =
     rbind (spawn_task os \<lparr>task_id = h, mandatory = False\<rparr> p) (\<lambda>(spawned, p).
       case spawned of
         Inr u \<Rightarrow> Inr (h, p)
       | Inl ShuttingDown \<Rightarrow> Inr (h, p)
       | Inl (NoThreads e) \<Rightarrow> Inl (Panic ''OS can't spawn worker thread''))"

definition spawn_mandatory_blocking :: "os_result \<Rightarrow> nat \<Rightarrow> pool \<Rightarrow> (nat option \<times> pool) fs_result" where
  "spawn_mandatory_blocking os h p =
     rbind (spawn_task os \<lparr>task_id = h, mandatory = True\<rparr> p) (\<lambda>(spawned, p).
       case spawned of Inr u \<Rightarrow> Inr (Some h, p) | Inl e \<Rightarrow> Inr (None, p))"

definition set_max_parallelism :: "nat \<Rightarrow> pool \<Rightarrow> pool" where
  "set_max_parallelism val p = p\<lparr>thread_cap := val\<rparr>"

text \<open>\<^verbatim>\<open>shutdown\<close> up to the point where it waits for the workers; a second call does nothing.\<close>

definition pool_shutdown :: "pool \<Rightarrow> pool" where
  "pool_shutdown p =
     (if shutdown p then p
      else p\<lparr>shutdown := True, shutdown_tx := False, last_exiting_thread := None, worker_threads := []\<rparr>)"

text \<open>\<^verbatim>\<open>shutdown_or_run_if_mandatory\<close>: whether a task taken during the shutdown is run.\<close>

definition runs_in_shutdown :: "pool_task \<Rightarrow> bool" where
  "runs_in_shutdown t = mandatory t"

section \<open>A worker\<close>

definition worker_at :: "nat \<Rightarrow> worker \<Rightarrow> pool \<Rightarrow> pool" where
  "worker_at i w p = p\<lparr>workers := (workers p)[i := w]\<rparr>"

definition thread_exit :: "nat \<Rightarrow> bool \<Rightarrow> nat option \<Rightarrow> pool \<Rightarrow> pool fs_result" where
  "thread_exit i counted join_on p =
     (let p = worker_at i (Exiting join_on) (p\<lparr>num_threads := metric_dec (num_threads p), exits := exits p @ [i]\<rparr>)
      in if counted then
           (if num_idle_threads p = 0 then Inl (Panic ''`num_idle_threads` underflowed on thread exit'')
            else Inr (p\<lparr>num_idle_threads := metric_dec (num_idle_threads p)\<rparr>))
         else Inr p)"

definition drain :: "nat \<Rightarrow> bool \<Rightarrow> pool \<Rightarrow> pool fs_result" where
  "drain i counted p =
     (case queue p of
        [] \<Rightarrow> thread_exit i counted None p
      | t # q \<Rightarrow> Inr (worker_at i (Draining t counted) (p\<lparr>queue := q, queue_depth := metric_dec (queue_depth p),
          started := started p @ [t], executed := (if runs_in_shutdown t then executed p @ [t] else executed p),
          shut_down := (if runs_in_shutdown t then shut_down p else shut_down p @ [t])\<rparr>)))"

definition enter_idle :: "nat \<Rightarrow> pool \<Rightarrow> pool fs_result" where
  "enter_idle i p =
     (let p = p\<lparr>num_idle_threads := Suc (num_idle_threads p)\<rparr>
      in if shutdown p then drain i True p else Inr (worker_at i Waiting p))"

definition busy :: "nat \<Rightarrow> pool \<Rightarrow> pool fs_result" where
  "busy i p =
     (case queue p of
        [] \<Rightarrow> enter_idle i p
      | t # q \<Rightarrow> Inr (worker_at i (RunningTask t) (p\<lparr>queue := q, queue_depth := metric_dec (queue_depth p),
          started := started p @ [t], executed := executed p @ [t]\<rparr>)))"

definition wake_up :: "nat \<Rightarrow> bool \<Rightarrow> pool \<Rightarrow> pool fs_result" where
  "wake_up i timed_out p =
     (if num_notify p \<noteq> 0 then
        let p = p\<lparr>num_notify := num_notify p - 1\<rparr>
        in if shutdown p then drain i False p else busy i p
      else if \<not> shutdown p \<and> timed_out then
        thread_exit i True (last_exiting_thread p)
          (p\<lparr>worker_threads := remove1 i (worker_threads p),
             last_exiting_thread := (if i \<in> set (worker_threads p) then Some i else None)\<rparr>)
      else if shutdown p then drain i True p
      else Inr p)"

text \<open>A worker that joins another one goes on when that one has ended.\<close>

definition ready :: "nat \<Rightarrow> pool \<Rightarrow> bool" where
  "ready i p \<longleftrightarrow> i < length (workers p) \<and>
     (case workers p ! i of Exited \<Rightarrow> False | Exiting (Some k) \<Rightarrow> workers p ! k = Exited | _ \<Rightarrow> True)"

definition worker_step :: "nat \<Rightarrow> bool \<Rightarrow> pool \<Rightarrow> pool fs_result" where
  "worker_step i timed_out p =
     (case workers p ! i of
        Starting \<Rightarrow> busy i p
      | RunningTask t \<Rightarrow> busy i p
      | Waiting \<Rightarrow> wake_up i timed_out p
      | Draining t counted \<Rightarrow> drain i counted p
      | Exiting join_on \<Rightarrow> Inr (worker_at i Exited p)
      | Exited \<Rightarrow> Inr p)"

section \<open>Interleaving\<close>

inductive pool_step :: "pool \<Rightarrow> pool \<Rightarrow> bool" where
  spawning: "spawn_task os task p = Inr (r, p') \<Longrightarrow> pool_step p p'"
| capping: "0 < val \<Longrightarrow> pool_step p (set_max_parallelism val p)"
| closing: "pool_step p (pool_shutdown p)"
| working: "ready i p \<Longrightarrow> worker_step i timed_out p = Inr p' \<Longrightarrow> pool_step p p'"

inductive reachable_pool :: "pool \<Rightarrow> bool" where
  start: "0 < cap \<Longrightarrow> reachable_pool (new_pool cap)"
| move: "reachable_pool p \<Longrightarrow> pool_step p p' \<Longrightarrow> reachable_pool p'"

inductive_cases pool_stepE: "pool_step p p'"

text \<open>The same steps, given one by one.\<close>

datatype pool_move = Spawn os_result pool_task | SetCap nat | Close | Work nat bool

fun run_moves :: "pool_move list \<Rightarrow> pool \<Rightarrow> pool fs_result" where
  "run_moves [] p = Inr p"
| "run_moves (Spawn os task # ms) p = rbind (spawn_task os task p) (\<lambda>(r, p). run_moves ms p)"
| "run_moves (SetCap val # ms) p = run_moves ms (if 0 < val then set_max_parallelism val p else p)"
| "run_moves (Close # ms) p = run_moves ms (pool_shutdown p)"
| "run_moves (Work i timed_out # ms) p =
     (if ready i p then rbind (worker_step i timed_out p) (run_moves ms) else run_moves ms p)"

lemma run_moves_steps: "run_moves ms p = Inr q \<Longrightarrow> pool_step\<^sup>*\<^sup>* p q"
proof (induction ms p rule: run_moves.induct)
  case (2 os task ms p)
  then obtain r p' where "spawn_task os task p = Inr (r, p')" "run_moves ms p' = Inr q"
    by (auto simp: rbind_eq_Inr)
  then show ?case using "2.IH" pool_step.spawning converse_rtranclp_into_rtranclp by metis
next
  case (3 val ms p)
  then show ?case using pool_step.capping [of val p] converse_rtranclp_into_rtranclp [of pool_step p]
    by (cases "0 < val") auto
next
  case (4 ms p)
  then show ?case using pool_step.closing [of p] converse_rtranclp_into_rtranclp [of pool_step p] by simp
next
  case (5 i timed_out ms p)
  show ?case
  proof (cases "ready i p")
    case True
    then obtain p' where p': "worker_step i timed_out p = Inr p'" "run_moves ms p' = Inr q"
      using "5.prems" by (auto simp: rbind_eq_Inr)
    then show ?thesis using "5.IH"(1) [OF True p'] pool_step.working [OF True p'(1)] by (metis converse_rtranclp_into_rtranclp)
  qed (use "5.prems" "5.IH"(2) in simp)
qed simp

lemma run_moves_reachable: "run_moves ms p = Inr q \<Longrightarrow> reachable_pool p \<Longrightarrow> reachable_pool q"
proof -
  assume "run_moves ms p = Inr q" "reachable_pool p"
  from run_moves_steps [OF this(1)] this(2) show ?thesis
    by (induction rule: rtranclp_induct) (auto intro: reachable_pool.move)
qed

end
