(* ===== verification/Pool_Correct.thy ===== *)
theory Pool_Correct imports Pool begin

text \<open>
  The invariant of the pool: every counter is the number of workers it stands for, a queued task has
  somebody who will look at the queue, and tasks are started in the order they came in.
\<close>

section \<open>Counting workers\<close>

definition tally :: "('a \<Rightarrow> bool) \<Rightarrow> 'a list \<Rightarrow> nat" where
  "tally P ws = length (filter P ws)"

lemma tally_simps [simp]: "tally P [] = 0" "tally P (ws @ [w]) = tally P ws + of_bool (P w)"
  by (simp_all add: tally_def)

lemma tally_update: "i < length ws \<Longrightarrow> tally P (ws[i := w]) + of_bool (P (ws ! i)) = tally P ws + of_bool (P w)"
proof (induction ws arbitrary: i)
  case (Cons v ws)
  then show ?case by (cases i) (auto simp: tally_def)
qed simp

lemma tally_pos: "i < length ws \<Longrightarrow> P (ws ! i) \<Longrightarrow> 0 < tally P ws"
  using nth_mem [of i ws] by (auto simp: tally_def filter_empty_conv)

lemma tally_pos_iff: "0 < tally P ws \<longleftrightarrow> (\<exists>i < length ws. P (ws ! i))"
proof
  assume "0 < tally P ws"
  then show "\<exists>i < length ws. P (ws ! i)" by (auto simp: tally_def filter_empty_conv in_set_conv_nth)
qed (use tally_pos in blast)

text \<open>The kinds of worker the counters count.\<close>

fun is_live :: "worker \<Rightarrow> bool" where
  "is_live (Exiting k) = False"
| "is_live Exited = False"
| "is_live w = True"

fun is_counted :: "worker \<Rightarrow> bool" where
  "is_counted Waiting = True"
| "is_counted (Draining t counted) = counted"
| "is_counted w = False"

fun is_draining :: "worker \<Rightarrow> bool" where
  "is_draining (Draining t counted) = True"
| "is_draining w = False"

text \<open>A worker that will look at the queue again without being notified.\<close>

fun is_busy :: "worker \<Rightarrow> bool" where
  "is_busy Starting = True"
| "is_busy (RunningTask t) = True"
| "is_busy (Draining t counted) = True"
| "is_busy w = False"

section \<open>The invariant\<close>

definition counters_inv :: "pool \<Rightarrow> bool" where
  "counters_inv p \<longleftrightarrow>
     num_threads p = tally is_live (workers p) \<and>
     num_idle_threads p + num_notify p = tally is_counted (workers p) \<and>
     num_notify p \<le> tally (\<lambda>w. w = Waiting) (workers p) \<and>
     (\<not> shutdown p \<longrightarrow> tally is_draining (workers p) = 0) \<and>
     queue_depth p = length (queue p) \<and>
     worker_thread_index p = length (workers p) \<and>
     shutdown_tx p = (\<not> shutdown p) \<and> 0 < thread_cap p"

definition queue_inv :: "pool \<Rightarrow> bool" where
  "queue_inv p \<longleftrightarrow>
     accepted p = started p @ queue p \<and>
     (queue p \<noteq> [] \<and> \<not> stranded p \<longrightarrow>
        0 < tally is_busy (workers p) \<or> 0 < num_notify p \<or> shutdown p \<and> 0 < tally (\<lambda>w. w = Waiting) (workers p))"

definition pool_inv :: "pool \<Rightarrow> bool" where
  "pool_inv p \<longleftrightarrow> counters_inv p \<and> queue_inv p"

lemma pool_inv_new: "0 < cap \<Longrightarrow> pool_inv (new_pool cap)"
  by (simp add: pool_inv_def counters_inv_def queue_inv_def new_pool_def)

lemmas pool_inv_defs = pool_inv_def counters_inv_def queue_inv_def

section \<open>Steps of a worker\<close>

lemma tally_split:
  "tally is_counted ws = tally (\<lambda>w. w = Waiting) ws + tally (\<lambda>w. is_draining w \<and> is_counted w) ws"
  "tally is_live ws = tally (\<lambda>w. w = Waiting) ws + tally is_busy ws"
proof -
  show "tally is_counted ws = tally (\<lambda>w. w = Waiting) ws + tally (\<lambda>w. is_draining w \<and> is_counted w) ws"
  proof (induction ws)
    case (Cons w ws)
    then show ?case by (cases w) (auto simp: tally_def)
  qed simp
  show "tally is_live ws = tally (\<lambda>w. w = Waiting) ws + tally is_busy ws"
  proof (induction ws)
    case (Cons w ws)
    then show ?case by (cases w) (auto simp: tally_def)
  qed simp
qed

text \<open>Replacing one worker, for every count the invariant has.\<close>

lemma tally_updates:
  assumes "i < length ws"
  shows "tally is_live (ws[i := w]) + of_bool (is_live (ws ! i)) = tally is_live ws + of_bool (is_live w)"
    "tally is_counted (ws[i := w]) + of_bool (is_counted (ws ! i)) = tally is_counted ws + of_bool (is_counted w)"
    "tally is_draining (ws[i := w]) + of_bool (is_draining (ws ! i)) = tally is_draining ws + of_bool (is_draining w)"
    "tally is_busy (ws[i := w]) + of_bool (is_busy (ws ! i)) = tally is_busy ws + of_bool (is_busy w)"
    "tally (\<lambda>w. w = Waiting) (ws[i := w]) + of_bool (ws ! i = Waiting) = tally (\<lambda>w. w = Waiting) ws + of_bool (w = Waiting)"
  by (rule tally_update [OF assms])+

lemmas tally_waiting = tally_pos [of _ _ "\<lambda>w. w = Waiting"]
lemmas tally_counted_drain = tally_pos [of _ _ "\<lambda>w. is_draining w \<and> is_counted w"]
lemmas step_defs = worker_step_def busy_def enter_idle_def drain_def thread_exit_def wake_up_def worker_at_def Let_def

text \<open>A busy worker takes the next task, goes to wait, or exits in a shutdown.\<close>

lemma busy_inv:
  assumes "pool_inv p" and i: "i < length (workers p)" and "workers p ! i = Starting \<or> (\<exists>t. workers p ! i = RunningTask t)"
  shows "succeeds pool_inv (busy i p)"
proof (cases "queue p")
  case (Cons t q)
  then show ?thesis using assms tally_updates [OF i, of "RunningTask t"]
    by (auto simp: step_defs pool_inv_defs metric_dec_def)
next
  case Nil
  then show ?thesis using assms tally_updates [OF i, of Waiting] tally_updates [OF i, of "Exiting None"]
    by (auto simp: step_defs pool_inv_defs metric_dec_def)
qed

lemma drain_inv:
  assumes "pool_inv p" and i: "i < length (workers p)" and w: "workers p ! i = Draining t counted"
  shows "succeeds pool_inv (drain i counted p)"
proof -
  have s: "shutdown p" using assms(1) tally_pos [OF i, of is_draining] w by (auto simp: pool_inv_defs)
  have c: "counted \<longrightarrow> 0 < num_idle_threads p"
    using assms(1) tally_counted_drain [OF i] w tally_split(1) [of "workers p"] by (auto simp: pool_inv_defs)
  show ?thesis
  proof (cases "queue p")
    case (Cons u q)
    then show ?thesis using assms s tally_updates [OF i, of "Draining u counted"]
      by (auto simp: step_defs pool_inv_defs metric_dec_def)
  next
    case Nil
    then show ?thesis using assms c s tally_updates [OF i, of "Exiting None"]
      by (auto simp: step_defs pool_inv_defs metric_dec_def)
  qed
qed

lemma wake_inv:
  assumes "pool_inv p" and i: "i < length (workers p)" and w: "workers p ! i = Waiting"
  shows "succeeds pool_inv (wake_up i timed_out p)"
proof -
  have c: "0 < tally is_counted (workers p)" using tally_pos [OF i, of is_counted] w by simp
  show ?thesis
  proof (cases "queue p")
    case (Cons u q)
    then show ?thesis using assms c tally_updates [OF i, of "Draining u True"] tally_updates [OF i, of "Draining u False"]
        tally_updates [OF i, of "RunningTask u"] tally_updates [OF i, of "Exiting (last_exiting_thread p)"]
      by (auto simp: step_defs pool_inv_defs metric_dec_def)
  next
    case Nil
    then show ?thesis using assms c tally_updates [OF i, of "Exiting None"]
        tally_updates [OF i, of Waiting] tally_updates [OF i, of "Exiting (last_exiting_thread p)"]
      by (auto simp: step_defs pool_inv_defs metric_dec_def)
  qed
qed

lemma worker_step_inv:
  assumes "pool_inv p" and "ready i p"
  shows "succeeds pool_inv (worker_step i timed_out p)"
proof (cases "workers p ! i")
  case (Exiting k)
  then show ?thesis using assms tally_updates [of i "workers p" Exited]
    by (auto simp: step_defs pool_inv_defs ready_def)
qed (use assms in \<open>auto simp: worker_step_def ready_def intro: busy_inv drain_inv wake_inv\<close>)

section \<open>Steps from outside\<close>

text \<open>With every waiting worker notified, a pool at its cap has a worker that comes back to the queue.\<close>

lemma somebody_awake:
  assumes "counters_inv p" and "num_idle_threads p = 0" and "0 < num_threads p"
  shows "0 < tally is_busy (workers p) \<or> 0 < num_notify p"
  using assms tally_split [of "workers p"] by (auto simp: counters_inv_def)

lemma spawn_inv:
  assumes "pool_inv p"
  shows "succeeds (\<lambda>(r, p'). pool_inv p') (spawn_task os task p)"
proof (cases "shutdown p")
  case True
  then show ?thesis using assms by (auto simp: spawn_task_def pool_inv_defs)
next
  case False
  have awake: "0 < tally is_busy (workers p) \<or> 0 < num_notify p" if "num_idle_threads p = 0" "0 < num_threads p"
    using somebody_awake [of p] assms that by (simp add: pool_inv_def)
  have waiting: "tally is_counted (workers p) = tally (\<lambda>w. w = Waiting) (workers p)"
  proof -
    have "tally (\<lambda>w. is_draining w \<and> is_counted w) (workers p) \<le> tally is_draining (workers p)"
      by (auto simp: tally_def length_filter_conv_card intro: card_mono)
    then show ?thesis using tally_split(1) [of "workers p"] assms False by (simp add: pool_inv_defs)
  qed
  show ?thesis using assms False awake waiting
    by (auto simp: spawn_task_def pool_inv_defs Let_def metric_dec_def is_temporary_os_thread_error_def)
qed

lemma close_inv: "pool_inv p \<Longrightarrow> pool_inv (pool_shutdown p)"
proof (cases "shutdown p")
  case False
  moreover assume "pool_inv p"
  ultimately show ?thesis by (auto simp: pool_shutdown_def pool_inv_defs)
qed (simp add: pool_shutdown_def)

lemma cap_inv: "pool_inv p \<Longrightarrow> 0 < val \<Longrightarrow> pool_inv (set_max_parallelism val p)"
  by (simp add: set_max_parallelism_def pool_inv_defs)

lemma pool_step_inv: "pool_step p p' \<Longrightarrow> pool_inv p \<Longrightarrow> pool_inv p'"
proof (induction rule: pool_step.induct)
  case (spawning os task p r p')
  then show ?case using spawn_inv [of p os task] by simp
next
  case (working i p timed_out p')
  then show ?case using worker_step_inv [of p i timed_out] by simp
qed (simp_all add: close_inv cap_inv)

lemma reachable_pool_inv: "reachable_pool p \<Longrightarrow> pool_inv p"
  by (induction rule: reachable_pool.induct) (auto intro: pool_inv_new pool_step_inv)

section \<open>What happens to a task\<close>

definition outcome_inv :: "pool \<Rightarrow> bool" where
  "outcome_inv p \<longleftrightarrow>
     mset (started p) = mset (executed p) + mset (shut_down p) \<and> list_all (\<lambda>t. \<not> mandatory t) (shut_down p) \<and>
     (shut_down p \<noteq> [] \<or> refused p \<noteq> [] \<longrightarrow> shutdown p)"

text \<open>Only a worker that exits a shutdown loop, or leaves it in one, drains.\<close>

lemma drain_outcome: "outcome_inv p \<Longrightarrow> shutdown p \<Longrightarrow> drain i counted p = Inr p' \<Longrightarrow> outcome_inv p'"
  by (auto simp: drain_def thread_exit_def worker_at_def outcome_inv_def runs_in_shutdown_def Let_def split: list.splits if_splits)

lemma exit_outcome: "outcome_inv p \<Longrightarrow> thread_exit i counted k p = Inr p' \<Longrightarrow> outcome_inv p'"
  by (auto simp: thread_exit_def worker_at_def outcome_inv_def Let_def split: if_splits)

lemma busy_outcome: "outcome_inv p \<Longrightarrow> busy i p = Inr p' \<Longrightarrow> outcome_inv p'"
  using drain_outcome [of "p\<lparr>num_idle_threads := Suc (num_idle_threads p)\<rparr>" i True p']
  by (auto simp: busy_def enter_idle_def worker_at_def outcome_inv_def Let_def split: list.splits if_splits)

lemma wake_outcome: "outcome_inv p \<Longrightarrow> wake_up i timed_out p = Inr p' \<Longrightarrow> outcome_inv p'"
  using drain_outcome [of "p\<lparr>num_notify := num_notify p - 1\<rparr>" i False p'] drain_outcome [of p i True p']
    busy_outcome [of "p\<lparr>num_notify := num_notify p - 1\<rparr>" i p']
    exit_outcome [of "p\<lparr>worker_threads := remove1 i (worker_threads p),
      last_exiting_thread := (if i \<in> set (worker_threads p) then Some i else None)\<rparr>" i True "last_exiting_thread p" p']
  by (simp add: wake_up_def Let_def outcome_inv_def split: if_splits)

lemma worker_outcome:
  assumes "outcome_inv p" and "pool_inv p" and "ready i p" and "worker_step i timed_out p = Inr p'"
  shows "outcome_inv p'"
proof (cases "workers p ! i")
  case (Draining t counted)
  then have "shutdown p" using assms(2,3) tally_pos [of i "workers p" is_draining] by (auto simp: pool_inv_defs ready_def)
  then show ?thesis using assms Draining drain_outcome by (simp add: worker_step_def)
next
  case Starting
  then show ?thesis using busy_outcome [OF assms(1)] assms(4) by (simp add: worker_step_def)
next
  case (RunningTask t)
  then show ?thesis using busy_outcome [OF assms(1)] assms(4) by (simp add: worker_step_def)
next
  case Waiting
  then show ?thesis using wake_outcome [OF assms(1)] assms(4) by (simp add: worker_step_def)
qed (use assms in \<open>auto simp: worker_step_def worker_at_def outcome_inv_def\<close>)

lemma reachable_outcome: "reachable_pool p \<Longrightarrow> outcome_inv p"
proof (induction rule: reachable_pool.induct)
  case (move p p')
  from \<open>pool_step p p'\<close> show ?case
  proof (cases rule: pool_step.cases)
    case (working i timed_out)
    then show ?thesis using worker_outcome move reachable_pool_inv by blast
  qed (use move.IH in \<open>auto simp: spawn_task_def outcome_inv_def set_max_parallelism_def pool_shutdown_def Let_def
      split: if_splits\<close>)
qed (simp add: outcome_inv_def new_pool_def)

section \<open>Exits\<close>

text \<open>A thread only waits for one that left its loop before it.\<close>

definition precedes :: "'a \<Rightarrow> 'a \<Rightarrow> 'a list \<Rightarrow> bool" where
  "precedes k i xs \<longleftrightarrow> (\<exists>m n. m < n \<and> n < length xs \<and> xs ! m = k \<and> xs ! n = i)"

lemma precedes_append: "precedes k i xs \<Longrightarrow> precedes k i (xs @ ys)"
  unfolding precedes_def by (metis length_append nth_append order.strict_trans trans_less_add1)

lemma precedes_last: "k \<in> set xs \<Longrightarrow> precedes k i (xs @ [i])"
  unfolding precedes_def in_set_conv_nth
  by (metis length_append_singleton lessI nth_append nth_append_length)

definition exit_inv :: "pool \<Rightarrow> bool" where
  "exit_inv p \<longleftrightarrow> distinct (exits p) \<and>
     (\<forall>k. k \<in> set (exits p) \<longleftrightarrow> k < length (workers p) \<and> \<not> is_live (workers p ! k)) \<and>
     (\<forall>k. last_exiting_thread p = Some k \<longrightarrow> k \<in> set (exits p)) \<and>
     (\<forall>i k. i < length (workers p) \<longrightarrow> workers p ! i = Exiting (Some k) \<longrightarrow> precedes k i (exits p))"

lemma exit_invI:
  assumes "distinct (exits p)"
    and "\<And>k. k \<in> set (exits p) \<longleftrightarrow> k < length (workers p) \<and> \<not> is_live (workers p ! k)"
    and "\<And>k. last_exiting_thread p = Some k \<Longrightarrow> k \<in> set (exits p)"
    and "\<And>i k. i < length (workers p) \<Longrightarrow> workers p ! i = Exiting (Some k) \<Longrightarrow> precedes k i (exits p)"
  shows "exit_inv p"
  using assms unfolding exit_inv_def by blast

lemma exit_invD:
  assumes "exit_inv p"
  shows "distinct (exits p)"
    and "k \<in> set (exits p) \<longleftrightarrow> k < length (workers p) \<and> \<not> is_live (workers p ! k)"
    and "last_exiting_thread p = Some k \<Longrightarrow> k \<in> set (exits p)"
    and "i < length (workers p) \<Longrightarrow> workers p ! i = Exiting (Some k) \<Longrightarrow> precedes k i (exits p)"
  using assms unfolding exit_inv_def by blast+

lemma exit_keep:
  assumes p: "exit_inv p" and i: "i < length (workers p)" "is_live (workers p ! i)" and w: "is_live w"
    and q: "workers q = (workers p)[i := w]" "exits q = exits p" "last_exiting_thread q = last_exiting_thread p"
  shows "exit_inv q"
proof (rule exit_invI)
  fix k
  show "k \<in> set (exits q) \<longleftrightarrow> k < length (workers q) \<and> \<not> is_live (workers q ! k)"
    using exit_invD(2) [OF p, of k] i w by (cases "k = i") (simp_all add: q)
next
  fix m k assume "m < length (workers q)" "workers q ! m = Exiting (Some k)"
  then show "precedes k m (exits q)" using exit_invD(4) [OF p, of m k] i w by (cases "m = i") (auto simp: q)
qed (use exit_invD(1,3) [OF p] in \<open>simp_all add: q\<close>)

lemma exit_leave:
  assumes p: "exit_inv p" and i: "i < length (workers p)" "is_live (workers p ! i)"
    and q: "workers q = (workers p)[i := Exiting j]" "exits q = exits p @ [i]"
    and j: "j = None \<or> j = last_exiting_thread p" and l: "last_exiting_thread q \<in> {last_exiting_thread p, Some i, None}"
  shows "exit_inv q"
proof (rule exit_invI)
  show "distinct (exits q)" using exit_invD(1) [OF p] exit_invD(2) [OF p, of i] i by (simp add: q)
  fix k
  show "k \<in> set (exits q) \<longleftrightarrow> k < length (workers q) \<and> \<not> is_live (workers q ! k)"
    using exit_invD(2) [OF p, of k] i by (cases "k = i") (simp_all add: q)
  show "last_exiting_thread q = Some k \<Longrightarrow> k \<in> set (exits q)" using exit_invD(3) [OF p, of k] l by (auto simp: q)
next
  fix m k assume m: "m < length (workers q)" "workers q ! m = Exiting (Some k)"
  show "precedes k m (exits q)"
  proof (cases "m = i")
    case True
    then have "k \<in> set (exits p)" using m i j exit_invD(3) [OF p, of k] by (simp add: q)
    then show ?thesis using True precedes_last by (simp add: q)
  next
    case False
    then show ?thesis using m exit_invD(4) [OF p, of m k] precedes_append by (simp add: q)
  qed
qed

lemma exit_end:
  assumes p: "exit_inv p" and i: "i < length (workers p)" "workers p ! i = Exiting j"
  shows "exit_inv (worker_at i Exited p)"
proof (rule exit_invI)
  fix k
  show "k \<in> set (exits (worker_at i Exited p)) \<longleftrightarrow>
      k < length (workers (worker_at i Exited p)) \<and> \<not> is_live (workers (worker_at i Exited p) ! k)"
    using exit_invD(2) [OF p, of k] i by (cases "k = i") (simp_all add: worker_at_def)
next
  fix m k
  assume "m < length (workers (worker_at i Exited p))" "workers (worker_at i Exited p) ! m = Exiting (Some k)"
  then show "precedes k m (exits (worker_at i Exited p))"
    using exit_invD(4) [OF p, of m k] i by (cases "m = i") (simp_all add: worker_at_def)
qed (use exit_invD(1,3) [OF p] in \<open>simp_all add: worker_at_def\<close>)

definition keeps_working :: "nat \<Rightarrow> pool \<Rightarrow> pool \<Rightarrow> bool" where
  "keeps_working i p q \<longleftrightarrow> exits q = exits p \<and> last_exiting_thread q = last_exiting_thread p \<and>
     (\<exists>w. is_live w \<and> workers q = (workers p)[i := w])"

definition leaves_loop :: "nat \<Rightarrow> pool \<Rightarrow> pool \<Rightarrow> bool" where
  "leaves_loop i p q \<longleftrightarrow> exits q = exits p @ [i] \<and> last_exiting_thread q \<in> {last_exiting_thread p, Some i, None} \<and>
     (\<exists>j. (j = None \<or> j = last_exiting_thread p) \<and> workers q = (workers p)[i := Exiting j])"

lemma thread_exit_leaves:
  "thread_exit i counted j p = Inr q \<Longrightarrow> exits q = exits p @ [i] \<and> last_exiting_thread q = last_exiting_thread p \<and>
     workers q = (workers p)[i := Exiting j]"
  by (auto simp: thread_exit_def worker_at_def Let_def split: if_splits)

lemma keeps_workingI:
  "exits q = exits p \<Longrightarrow> last_exiting_thread q = last_exiting_thread p \<Longrightarrow> workers q = (workers p)[i := w] \<Longrightarrow> is_live w \<Longrightarrow>
   keeps_working i p q"
  by (auto simp: keeps_working_def)

lemma leaves_loopI:
  "thread_exit i counted None r = Inr q \<Longrightarrow> exits r = exits p \<Longrightarrow> last_exiting_thread r = last_exiting_thread p \<Longrightarrow>
   workers r = workers p \<Longrightarrow> leaves_loop i p q"
  by (drule thread_exit_leaves) (auto simp: leaves_loop_def intro!: exI [of _ None])

lemma drain_shape:
  assumes "drain i counted r = Inr q" and "exits r = exits p" "last_exiting_thread r = last_exiting_thread p" "workers r = workers p"
  shows "keeps_working i p q \<or> leaves_loop i p q"
proof (cases "queue r")
  case Nil
  then show ?thesis using assms leaves_loopI [of i counted r q p] by (simp add: drain_def)
next
  case (Cons t ts)
  then have "exits q = exits p" "last_exiting_thread q = last_exiting_thread p" "workers q = (workers p)[i := Draining t counted]"
    using assms by (auto simp: drain_def worker_at_def)
  then show ?thesis using keeps_workingI by simp
qed

lemma busy_shape:
  assumes "busy i r = Inr q" and "exits r = exits p" "last_exiting_thread r = last_exiting_thread p" "workers r = workers p"
  shows "keeps_working i p q \<or> leaves_loop i p q"
proof (cases "queue r")
  case Nil
  show ?thesis
  proof (cases "shutdown r")
    case True
    then have "drain i True (r\<lparr>num_idle_threads := Suc (num_idle_threads r)\<rparr>) = Inr q"
      using assms(1) Nil by (simp add: busy_def enter_idle_def)
    then show ?thesis by (rule drain_shape) (simp_all add: assms)
  next
    case False
    then have "exits q = exits p" "last_exiting_thread q = last_exiting_thread p" "workers q = (workers p)[i := Waiting]"
      using assms Nil by (auto simp: busy_def enter_idle_def worker_at_def)
    then show ?thesis using keeps_workingI by simp
  qed
next
  case (Cons t ts)
  then have "exits q = exits p" "last_exiting_thread q = last_exiting_thread p" "workers q = (workers p)[i := RunningTask t]"
    using assms by (auto simp: busy_def worker_at_def)
  then show ?thesis using keeps_workingI by simp
qed

lemma wake_shape:
  assumes w: "wake_up i timed_out p = Inr q" and i: "workers p ! i = Waiting"
  shows "keeps_working i p q \<or> leaves_loop i p q"
proof (cases "num_notify p = 0")
  case False
  let ?r = "p\<lparr>num_notify := num_notify p - 1\<rparr>"
  have "drain i False ?r = Inr q \<or> busy i ?r = Inr q"
    using w False by (simp add: wake_up_def Let_def split: if_splits)
  then show ?thesis using drain_shape [of i False ?r q p] busy_shape [of i ?r q p] by auto
next
  case True
  consider "shutdown p" | "\<not> shutdown p" "timed_out" | "q = p" using w True by (auto simp: wake_up_def split: if_splits)
  then show ?thesis
  proof cases
    case 1
    then have "drain i True p = Inr q" using w True by (simp add: wake_up_def)
    then show ?thesis by (rule drain_shape) simp_all
  next
    case 2
    then have "thread_exit i True (last_exiting_thread p) (p\<lparr>worker_threads := remove1 i (worker_threads p),
        last_exiting_thread := (if i \<in> set (worker_threads p) then Some i else None)\<rparr>) = Inr q"
      using w True by (simp add: wake_up_def)
    from thread_exit_leaves [OF this] have "leaves_loop i p q" unfolding leaves_loop_def by auto
    then show ?thesis by simp
  next
    case 3
    have "(workers p)[i := Waiting] = workers p" using i by (metis list_update_id)
    then show ?thesis using 3 keeps_workingI [of q p i Waiting] by simp
  qed
qed

lemma worker_exit_inv:
  assumes "exit_inv p" and "ready i p" and "worker_step i timed_out p = Inr q"
  shows "exit_inv q"
proof -
  have i: "i < length (workers p)" using assms(2) by (simp add: ready_def)
  show ?thesis
  proof (cases "is_live (workers p ! i)")
    case True
    then have "keeps_working i p q \<or> leaves_loop i p q"
      using assms(3) busy_shape [of i p q p] drain_shape [of i _ p q p] wake_shape [of i timed_out p q]
      by (cases "workers p ! i") (simp_all add: worker_step_def)
    then show ?thesis
    proof
      assume "keeps_working i p q"
      then show ?thesis using exit_keep [OF assms(1) i True] by (auto simp: keeps_working_def)
    next
      assume "leaves_loop i p q"
      then show ?thesis using exit_leave [OF assms(1) i True] unfolding leaves_loop_def by blast
    qed
  next
    case False
    then show ?thesis using assms exit_end [OF assms(1) i]
      by (cases "workers p ! i") (auto simp: worker_step_def ready_def)
  qed
qed

lemma exit_spawn:
  assumes p: "exit_inv p" and q: "workers q = workers p @ [Starting]" "exits q = exits p" "last_exiting_thread q = last_exiting_thread p"
  shows "exit_inv q"
proof (rule exit_invI)
  fix k
  show "k \<in> set (exits q) \<longleftrightarrow> k < length (workers q) \<and> \<not> is_live (workers q ! k)"
    using exit_invD(2) [OF p, of k] by (cases "k = length (workers p)") (auto simp: q nth_append)
next
  fix m k assume "m < length (workers q)" "workers q ! m = Exiting (Some k)"
  then show "precedes k m (exits q)"
    using exit_invD(4) [OF p, of m k] by (cases "m = length (workers p)") (auto simp: q nth_append)
qed (use exit_invD(1,3) [OF p] in \<open>simp_all add: q\<close>)

lemma exit_same:
  assumes p: "exit_inv p" and q: "workers q = workers p" "exits q = exits p"
    and l: "last_exiting_thread q = last_exiting_thread p \<or> last_exiting_thread q = None"
  shows "exit_inv q"
proof (rule exit_invI)
  fix k
  show "k \<in> set (exits q) \<longleftrightarrow> k < length (workers q) \<and> \<not> is_live (workers q ! k)"
    using exit_invD(2) [OF p, of k] by (simp add: q)
  show "last_exiting_thread q = Some k \<Longrightarrow> k \<in> set (exits q)" using exit_invD(3) [OF p, of k] l by (auto simp: q)
qed (use exit_invD(1,4) [OF p] in \<open>simp_all add: q\<close>)

lemma reachable_exit: "reachable_pool p \<Longrightarrow> exit_inv p"
proof (induction rule: reachable_pool.induct)
  case (move p p')
  from \<open>pool_step p p'\<close> show ?case
  proof (cases rule: pool_step.cases)
    case (working i timed_out)
    then show ?thesis using worker_exit_inv move.IH by blast
  next
    case (spawning os task r)
    then have "workers p' = workers p \<or> workers p' = workers p @ [Starting]"
      "exits p' = exits p" "last_exiting_thread p' = last_exiting_thread p"
      by (auto simp: spawn_task_def Let_def split: if_splits)
    then show ?thesis using exit_same [OF move.IH] exit_spawn [OF move.IH] by blast
  next
    case closing
    then show ?thesis using exit_same [OF move.IH, of p'] by (simp add: pool_shutdown_def split: if_splits)
  next
    case (capping val)
    then show ?thesis using exit_same [OF move.IH, of p'] by (simp add: set_max_parallelism_def)
  qed
qed (simp add: exit_inv_def new_pool_def)

text \<open>So some worker can move as long as one has not ended.\<close>

lemma exits_ended:
  assumes p: "exit_inv p" and none: "\<And>i. \<not> ready i p"
  shows "n < length (exits p) \<Longrightarrow> workers p ! (exits p ! n) = Exited"
proof (induction n rule: less_induct)
  case (less n)
  let ?i = "exits p ! n"
  have i: "?i < length (workers p)" "\<not> is_live (workers p ! ?i)"
    using exit_invD(2) [OF p, of ?i] less.prems by auto
  show ?case
  proof (cases "workers p ! ?i")
    case (Exiting j)
    have "\<not> ready ?i p" by (rule none)
    then obtain k where k: "j = Some k" "workers p ! k \<noteq> Exited" using Exiting i by (cases j) (auto simp: ready_def)
    then have "precedes k ?i (exits p)" using exit_invD(4) [OF p] i Exiting by simp
    then obtain m m' where m: "m < m'" "m' < length (exits p)" "exits p ! m = k" "exits p ! m' = ?i"
      unfolding precedes_def by blast
    then have "m' = n" using exit_invD(1) [OF p] less.prems by (simp add: nth_eq_iff_index_eq)
    then show ?thesis using less.IH [of m] m less.prems k(2) by simp
  qed (use i in auto)
qed

lemma ready_exists:
  assumes p: "exit_inv p" and "i < length (workers p)" and "workers p ! i \<noteq> Exited"
  shows "\<exists>k. ready k p"
proof (rule ccontr)
  assume "\<nexists>k. ready k p"
  then have none: "\<not> ready k p" for k by blast
  then have "\<not> is_live (workers p ! i)" using assms(2) none [of i] by (cases "workers p ! i") (auto simp: ready_def)
  then have "i \<in> set (exits p)" using exit_invD(2) [OF p, of i] assms(2) by simp
  then obtain n where "n < length (exits p)" "exits p ! n = i" by (auto simp: in_set_conv_nth)
  then show False using exits_ended [OF p none, of n] assms(3) by simp
qed

end
