(* ===== verification/Pool_Contract.thy ===== *)
theory Pool_Contract imports Pool_Correct begin

text \<open>
  What the pool promises: exact counters, no lost task, the order of tasks, the guarantee for mandatory
  tasks, and a shutdown that ends.
\<close>

section \<open>The shutdown as a thread\<close>

definition is_exiting :: "worker \<Rightarrow> bool" where
  "is_exiting w \<longleftrightarrow> \<not> is_live w \<and> w \<noteq> Exited"

definition pool_work :: "pool \<Rightarrow> nat" where
  "pool_work p = 2 * tally is_live (workers p) + tally is_exiting (workers p) + length (queue p)"

definition all_exited :: "pool \<Rightarrow> bool" where
  "all_exited p \<longleftrightarrow> list_all (\<lambda>w. w = Exited) (workers p)"

text \<open>One turn of the operating system: of the workers that can go on, one takes a step.\<close>

definition ready_workers :: "pool \<Rightarrow> nat list" where
  "ready_workers p = filter (\<lambda>i. ready i p) [0..<length (workers p)]"

definition pool_turn :: "nat \<times> bool \<Rightarrow> pool \<Rightarrow> pool fs_result" where
  "pool_turn c p =
     (if ready_workers p = [] then Inl (Panic ''deadlock'')
      else worker_step (ready_workers p ! (fst c mod length (ready_workers p))) (snd c) p)"

definition closing_pool :: "pool \<Rightarrow> bool" where
  "closing_pool p \<longleftrightarrow> shutdown p \<and> pool_inv p \<and> exit_inv p \<and> outcome_inv p"

lemma reachable_closing: "reachable_pool p \<Longrightarrow> shutdown p \<Longrightarrow> closing_pool p"
  by (simp add: closing_pool_def reachable_pool_inv reachable_exit reachable_outcome)

lemma ready_workers_nth:
  assumes "ready_workers p \<noteq> []"
  shows "ready (ready_workers p ! (n mod length (ready_workers p))) p"
proof -
  have "ready_workers p ! (n mod length (ready_workers p)) \<in> set (ready_workers p)"
    by (rule nth_mem) (use assms in simp)
  then show ?thesis by (simp add: ready_workers_def)
qed

lemma some_ready_worker:
  assumes "exit_inv p" and "\<not> all_exited p"
  shows "ready_workers p \<noteq> []"
proof -
  obtain i where "i < length (workers p)" "workers p ! i \<noteq> Exited"
    using assms(2) by (auto simp: all_exited_def list_all_length)
  then obtain k where "ready k p" using ready_exists [OF assms(1)] by blast
  then show ?thesis by (auto simp: ready_workers_def filter_empty_conv ready_def)
qed

text \<open>A step of a ready worker in a shutdown takes a task or brings the worker closer to its end.\<close>

lemma tally_exiting:
  "i < length ws \<Longrightarrow> tally is_exiting (ws[i := w]) + of_bool (is_exiting (ws ! i)) = tally is_exiting ws + of_bool (is_exiting w)"
  by (rule tally_update)

lemma work_update:
  assumes "i < length (workers p)" and "is_live (workers p ! i)" and "workers q = (workers p)[i := w]"
    and "if is_live w then length (queue q) < length (queue p) else length (queue q) \<le> length (queue p)"
  shows "pool_work q < pool_work p"
  using assms tally_updates(1) [OF assms(1), of w] tally_exiting [OF assms(1), of w]
  by (auto simp: pool_work_def is_exiting_def split: if_splits)

lemma drain_work:
  assumes "drain i counted r = Inr q" and "i < length (workers p)" and "is_live (workers p ! i)"
    and "workers r = workers p" "queue r = queue p" "shutdown r"
  shows "pool_work q < pool_work p \<and> shutdown q"
proof (cases "queue r")
  case Nil
  then have "workers q = (workers p)[i := Exiting None]" "queue q = queue p" "shutdown q"
    using assms(1,4,5,6) by (auto simp: drain_def thread_exit_def worker_at_def Let_def split: if_splits)
  then show ?thesis using work_update [OF assms(2,3), of q "Exiting None"] by simp
next
  case (Cons t ts)
  then have "workers q = (workers p)[i := Draining t counted]" "length (queue q) < length (queue p)" "shutdown q"
    using assms(1,4,5,6) by (auto simp: drain_def worker_at_def)
  then show ?thesis using work_update [OF assms(2,3), of q "Draining t counted"] by simp
qed

lemma busy_work:
  assumes "busy i r = Inr q" and "i < length (workers p)" and "is_live (workers p ! i)"
    and "workers r = workers p" "queue r = queue p" "shutdown r"
  shows "pool_work q < pool_work p \<and> shutdown q"
proof (cases "queue r")
  case Nil
  then have "drain i True (r\<lparr>num_idle_threads := Suc (num_idle_threads r)\<rparr>) = Inr q"
    using assms(1,6) by (simp add: busy_def enter_idle_def)
  then show ?thesis using drain_work [OF _ assms(2,3)] assms by simp
next
  case (Cons t ts)
  then have "workers q = (workers p)[i := RunningTask t]" "length (queue q) < length (queue p)" "shutdown q"
    using assms(1,4,5,6) by (auto simp: busy_def worker_at_def)
  then show ?thesis using work_update [OF assms(2,3), of q "RunningTask t"] by simp
qed

lemma worker_work:
  assumes "shutdown p" and "ready i p" and "worker_step i timed_out p = Inr q"
  shows "pool_work q < pool_work p \<and> shutdown q"
proof -
  have i: "i < length (workers p)" using assms(2) by (simp add: ready_def)
  show ?thesis
  proof (cases "workers p ! i")
    case Waiting
    then have w: "wake_up i timed_out p = Inr q" using assms(3) by (simp add: worker_step_def)
    then have "drain i False (p\<lparr>num_notify := num_notify p - 1\<rparr>) = Inr q \<or> drain i True p = Inr q"
      using assms(1) by (simp add: wake_up_def Let_def split: if_splits)
    then show ?thesis using drain_work [OF _ i] Waiting assms(1) by auto
  next
    case (Exiting j)
    then have q: "q = worker_at i Exited p" using assms(3) by (simp add: worker_step_def)
    then show ?thesis using assms(1) tally_updates(1) [OF i, of Exited] tally_exiting [OF i, of Exited] Exiting
      by (simp add: pool_work_def worker_at_def is_exiting_def)
  next
    case Exited
    then show ?thesis using assms(2) by (simp add: ready_def)
  qed (use assms i drain_work [OF _ i, of _ p] busy_work [OF _ i, of p] in \<open>auto simp: worker_step_def\<close>)
qed

interpretation pool_drain: safe_thread pool_turn all_exited closing_pool "\<lambda>c. True" pool_work
proof unfold_locales
  fix p :: pool and c :: "nat \<times> bool" assume p: "closing_pool p" "\<not> all_exited p"
  let ?i = "ready_workers p ! (fst c mod length (ready_workers p))"
  have some: "ready_workers p \<noteq> []" using some_ready_worker p by (simp add: closing_pool_def)
  have r: "ready ?i p" by (rule ready_workers_nth [OF some])
  obtain q where q: "worker_step ?i (snd c) p = Inr q" "pool_inv q"
    using worker_step_inv [OF _ r] p by (auto simp: closing_pool_def succeeds_Inr)
  have "closing_pool q"
    using worker_work [OF _ r q(1)] worker_exit_inv [OF _ r q(1)] worker_outcome [OF _ _ r q(1)] q(2) p
    by (simp add: closing_pool_def)
  then show "succeeds closing_pool (pool_turn c p)" using q some by (simp add: pool_turn_def)
next
  fix p q :: pool and c :: "nat \<times> bool" assume p: "closing_pool p" "\<not> all_exited p" "pool_turn c p = Inr q"
  have some: "ready_workers p \<noteq> []" using some_ready_worker p by (simp add: closing_pool_def)
  show "pool_work q < pool_work p"
    using worker_work [OF _ ready_workers_nth [OF some]] p some by (simp add: pool_turn_def closing_pool_def)
qed simp

section \<open>Tasks along a run\<close>

text \<open>Once accepted with a thread to come for it, a task stays in line whatever the pool does.\<close>

definition served :: "nat \<Rightarrow> pool \<Rightarrow> bool" where
  "served n p \<longleftrightarrow> n \<le> length (started p) \<or> \<not> stranded p"

lemma no_threads_no_queue:
  assumes "pool_inv p" and "num_threads p = 0" and "\<not> stranded p"
  shows "queue p = []"
  using assms tally_split(2) [of "workers p"] by (auto simp: pool_inv_defs)

lemma no_threads_no_idle:
  assumes "pool_inv p" and "num_threads p = 0"
  shows "num_idle_threads p = 0"
proof -
  have "tally is_counted ws \<le> tally is_live ws" for ws
  proof (induction ws)
    case (Cons w ws)
    then show ?case by (cases w) (auto simp: tally_def)
  qed simp
  from this [of "workers p"] show ?thesis using assms by (simp add: pool_inv_defs)
qed

definition extends :: "pool \<Rightarrow> pool \<Rightarrow> bool" where
  "extends p q \<longleftrightarrow> (\<exists>ts. accepted q = accepted p @ ts) \<and> length (started p) \<le> length (started q)"

lemma thread_exit_extends: "thread_exit i counted j r = Inr q \<Longrightarrow> accepted q = accepted r \<and> started q = started r \<and> stranded q = stranded r"
  by (auto simp: thread_exit_def worker_at_def Let_def split: if_splits)

lemma drain_extends:
  "drain i counted r = Inr q \<Longrightarrow> accepted q = accepted r \<and> length (started r) \<le> length (started q) \<and> stranded q = stranded r"
  by (auto simp: drain_def worker_at_def dest: thread_exit_extends split: list.splits)

lemma busy_extends:
  "busy i r = Inr q \<Longrightarrow> accepted q = accepted r \<and> length (started r) \<le> length (started q) \<and> stranded q = stranded r"
  by (auto simp: busy_def enter_idle_def worker_at_def Let_def dest: drain_extends split: list.splits if_splits)

lemma worker_extends:
  assumes "worker_step i timed_out p = Inr q"
  shows "accepted q = accepted p \<and> length (started p) \<le> length (started q) \<and> stranded q = stranded p"
proof (cases "workers p ! i")
  case Waiting
  then have "wake_up i timed_out p = Inr q" using assms by (simp add: worker_step_def)
  then show ?thesis
    by (auto simp: wake_up_def Let_def dest: drain_extends busy_extends thread_exit_extends split: if_splits)
qed (use assms in \<open>auto simp: worker_step_def worker_at_def dest: drain_extends busy_extends\<close>)

lemma step_extends:
  assumes "pool_step p q"
  shows "extends p q \<and> (stranded q \<longrightarrow> stranded p \<or> num_threads p = 0)"
  using assms
proof (cases rule: pool_step.cases)
  case (working i timed_out)
  then show ?thesis using worker_extends [of i timed_out p q] by (simp add: extends_def)
next
  case (spawning os task r)
  then show ?thesis by (auto simp: spawn_task_def extends_def Let_def split: if_splits)
qed (auto simp: extends_def set_max_parallelism_def pool_shutdown_def)

lemma step_served:
  assumes "pool_step p q" and "pool_inv p" and "served n p" and "n \<le> length (accepted p)"
  shows "served n q \<and> n \<le> length (accepted q)"
proof -
  have e: "extends p q" "stranded q \<longrightarrow> stranded p \<or> num_threads p = 0" using step_extends [OF assms(1)] by simp_all
  have "length (started p) = length (accepted p)" if "num_threads p = 0" "\<not> stranded p"
    using no_threads_no_queue [OF assms(2) that] assms(2) by (simp add: pool_inv_defs)
  then show ?thesis using assms(3,4) e by (auto simp: served_def extends_def)
qed

lemma run_served:
  assumes "pool_step\<^sup>*\<^sup>* p q" and "reachable_pool p" and "served n p" and "n \<le> length (accepted p)"
  shows "reachable_pool q \<and> served n q \<and> n \<le> length (accepted q) \<and> (\<exists>ts. accepted q = accepted p @ ts)"
  using assms
proof (induction rule: rtranclp_induct)
  case (step q q')
  then have q: "reachable_pool q" "served n q" "n \<le> length (accepted q)" "\<exists>ts. accepted q = accepted p @ ts" by auto
  show ?case using step_served [OF step.hyps(2) reachable_pool_inv [OF q(1)] q(2,3)] step_extends [OF step.hyps(2)]
      reachable_pool.move [OF q(1) step.hyps(2)] q(4) by (auto simp: extends_def)
qed simp

lemma exited_tallies:
  assumes "all_exited p"
  shows "tally is_live (workers p) = 0" "tally is_counted (workers p) = 0" "tally (\<lambda>w. w = Waiting) (workers p) = 0"
    "tally is_busy (workers p) = 0"
  using assms by (auto simp: tally_def all_exited_def list_all_iff filter_empty_conv)

lemma exited_started:
  assumes "pool_inv p" and "all_exited p" and "served n p" and "n \<le> length (accepted p)"
  shows "take n (accepted p) = take n (started p)"
proof (cases "n \<le> length (started p)")
  case True
  then show ?thesis using assms(1) by (simp add: pool_inv_defs)
next
  case False
  then have "queue p = []" using no_threads_no_queue [OF assms(1)] assms exited_tallies [OF assms(2)]
    by (simp add: served_def pool_inv_defs)
  then show ?thesis using assms(1) by (simp add: pool_inv_defs)
qed

text \<open>A queue is only stranded while there is no thread.\<close>

lemma reachable_stranded: "reachable_pool p \<Longrightarrow> stranded p \<Longrightarrow> num_threads p = 0"
proof (induction rule: reachable_pool.induct)
  case (move p p')
  from \<open>pool_step p p'\<close> show ?case
  proof (cases rule: pool_step.cases)
    case (working i timed_out)
    have p: "num_threads p = 0" using worker_extends [OF working(2)] move.IH move.prems by simp
    then have "\<not> is_live (workers p ! i)"
      using reachable_pool_inv [OF move.hyps(1)] working(1) tally_pos [of i "workers p" is_live]
      by (auto simp: pool_inv_defs ready_def)
    then show ?thesis using working p by (cases "workers p ! i") (auto simp: worker_step_def worker_at_def)
  qed (use move in \<open>auto simp: spawn_task_def set_max_parallelism_def pool_shutdown_def Let_def split: if_splits\<close>)
qed (simp add: new_pool_def)

lemma spawn_mandatory_Some:
  assumes "spawn_mandatory_blocking os h p = Inr (Some h', p')"
  shows "h' = h \<and> spawn_task os \<lparr>task_id = h, mandatory = True\<rparr> p = Inr (Inr (), p')"
proof (cases "spawn_task os \<lparr>task_id = h, mandatory = True\<rparr> p")
  case (Inr a)
  obtain r p1 where a: "a = (r, p1)" by (cases a)
  show ?thesis using assms Inr a by (cases r) (simp_all add: spawn_mandatory_blocking_def)
qed (use assms in \<open>simp add: spawn_mandatory_blocking_def\<close>)

lemma accepted_runs:
  assumes "reachable_pool p" and spawn: "spawn_task os t p = Inr (r, p')" "accepted p' = accepted p @ [t]"
    and "served (length (accepted p')) p'" and "pool_step\<^sup>*\<^sup>* p' q" and "all_exited q"
  shows "mandatory t \<longrightarrow> t \<in> set (executed q)"
proof -
  let ?n = "length (accepted p')"
  have r: "reachable_pool p'" by (rule reachable_pool.move [OF assms(1) pool_step.spawning [OF spawn(1)]])
  obtain ts where q: "reachable_pool q" "served ?n q" "?n \<le> length (accepted q)" "accepted q = accepted p' @ ts"
    using run_served [OF assms(5) r assms(4)] by auto
  have "take ?n (started q) = accepted p'"
    using exited_started [OF reachable_pool_inv [OF q(1)] assms(6) q(2,3)] q(4) by simp
  then have "t \<in> set (started q)" using spawn(2) by (metis in_set_takeD in_set_conv_decomp)
  then have "t \<in># mset (executed q) + mset (shut_down q)" using reachable_outcome [OF q(1)]
    by (metis outcome_inv_def set_mset_mset)
  then show ?thesis using reachable_outcome [OF q(1)] by (auto simp: outcome_inv_def list_all_iff)
qed

section \<open>Properties\<close>

text \<open>C21 In every state the pool reaches, the thread counter is the number of workers that have not left
their loop, the idle counter and the pending notifications add up to the workers counted as idle, no
notification is without a waiting worker to receive it, and the depth is the length of the queue. So no
step panics: the assertion on the idle counter and the one on the shutdown sender hold. A spawn does
not raise the number of threads above the cap.\<close>

theorem pool_counters_exact:
  assumes "reachable_pool p"
  shows "num_threads p = tally is_live (workers p) \<and> num_idle_threads p + num_notify p = tally is_counted (workers p) \<and>
    num_notify p \<le> tally (\<lambda>w. w = Waiting) (workers p) \<and> queue_depth p = length (queue p) \<and>
    (\<forall>i timed_out. ready i p \<longrightarrow> (\<exists>q. worker_step i timed_out p = Inr q)) \<and>
    (\<forall>os task. \<exists>r q. spawn_task os task p = Inr (r, q) \<and> num_threads q \<le> max (num_threads p) (thread_cap p))"
proof -
  have inv: "pool_inv p" by (rule reachable_pool_inv [OF assms])
  have "\<exists>q. worker_step i timed_out p = Inr q" if "ready i p" for i timed_out
    using worker_step_inv [OF inv that] by (auto simp: succeeds_Inr)
  moreover have "\<exists>r q. spawn_task os task p = Inr (r, q) \<and> num_threads q \<le> max (num_threads p) (thread_cap p)" for os task
    using inv by (simp add: spawn_task_def Let_def pool_inv_defs)
  ultimately show ?thesis using inv by (simp add: pool_inv_defs)
qed

text \<open>A pool of two threads: one task runs, a second waits behind it since no thread could be created.\<close>

definition example_moves :: "pool_move list" where
  "example_moves = [Spawn ThreadOk \<lparr>task_id = 7, mandatory = True\<rparr>, Work 0 False, Spawn WouldBlock \<lparr>task_id = 8, mandatory = False\<rparr>]"

definition example_pool :: pool where
  "example_pool = projr (run_moves example_moves (new_pool 2))"

lemmas pool_eval = spawn_mandatory_blocking_def spawn_task_def new_pool_def worker_step_def
  busy_def enter_idle_def drain_def thread_exit_def worker_at_def metric_dec_def runs_in_shutdown_def pool_shutdown_def
  is_temporary_os_thread_error_def ready_def

lemma example_pool_run: "run_moves example_moves (new_pool 2) = Inr example_pool"
  by (simp add: example_pool_def example_moves_def pool_eval)

lemma example_pool_state:
  "workers example_pool = [RunningTask \<lparr>task_id = 7, mandatory = True\<rparr>]" "queue example_pool = [\<lparr>task_id = 8, mandatory = False\<rparr>]"
  "\<not> stranded example_pool" "\<not> shutdown example_pool" "num_idle_threads example_pool = 0" "num_threads example_pool = 1"
  "thread_cap example_pool = 2"
  by (simp_all add: example_pool_def example_moves_def pool_eval)

lemma example_reachable: "reachable_pool example_pool"
  by (rule run_moves_reachable [OF example_pool_run]) (simp add: reachable_pool.start)

theorem pool_counters_witness: "num_threads example_pool = 1 \<and> queue_depth example_pool = 1"
  using pool_counters_exact [OF example_reachable] by (simp add: example_pool_state tally_def)

text \<open>A queued task is never forgotten: unless the operating system left the pool without a thread, there
is a worker that can go on and whose next step, whether it timed out or not, takes the task at the head
of the queue.\<close>

theorem pool_no_lost_task:
  assumes "reachable_pool p" and "queue p \<noteq> []" and "\<not> stranded p"
  shows "\<exists>i. ready i p \<and> (\<forall>timed_out. \<exists>q. worker_step i timed_out p = Inr q \<and>
    started q = started p @ [hd (queue p)] \<and> queue q = tl (queue p))"
proof -
  have inv: "pool_inv p" by (rule reachable_pool_inv [OF assms(1)])
  obtain t ts where q: "queue p = t # ts" using assms(2) by (cases "queue p") auto
  consider i where "i < length (workers p)" "is_busy (workers p ! i)"
    | i where "i < length (workers p)" "workers p ! i = Waiting" "num_notify p \<noteq> 0 \<or> shutdown p"
    using inv assms(2,3) tally_pos_iff [of is_busy "workers p"] tally_pos_iff [of "\<lambda>w. w = Waiting" "workers p"]
    by (auto simp: pool_inv_defs)
  then show ?thesis
  proof cases
    case (1 i)
    then show ?thesis using q
      by (intro exI [of _ i], cases "workers p ! i") (simp_all add: ready_def worker_step_def busy_def drain_def worker_at_def)
  next
    case (2 i)
    then show ?thesis using q
      by (intro exI [of _ i])
        (auto simp: ready_def worker_step_def wake_up_def busy_def drain_def worker_at_def Let_def)
  qed
qed

theorem pool_no_lost_witness:
  "\<exists>i. ready i example_pool \<and> (\<exists>q. worker_step i False example_pool = Inr q \<and> map task_id (started q) = [7, 8])"
proof -
  have "started example_pool = [\<lparr>task_id = 7, mandatory = True\<rparr>]"
    by (simp add: example_pool_def example_moves_def pool_eval)
  then show ?thesis using pool_no_lost_task [OF example_reachable] by (fastforce simp: example_pool_state)
qed

text \<open>C22 The tasks accepted are the tasks started, in that order, followed by the queue; every started task is
either run or shut down, exactly once; only a task that is not mandatory is shut down, and only once the
pool is shutting down.\<close>

theorem pool_task_outcomes:
  assumes "reachable_pool p"
  shows "accepted p = started p @ queue p \<and> mset (started p) = mset (executed p) + mset (shut_down p) \<and>
    (\<forall>t. t \<in> set (shut_down p) \<longrightarrow> \<not> mandatory t \<and> shutdown p) \<and> (refused p \<noteq> [] \<longrightarrow> shutdown p)"
  using reachable_pool_inv [OF assms] reachable_outcome [OF assms]
  by (auto simp: pool_inv_defs outcome_inv_def list_all_iff)

text \<open>The second task comes when the worker waits, and the pool is closed before it wakes up.\<close>

definition drained_moves :: "pool_move list" where
  "drained_moves =
     [Spawn ThreadOk \<lparr>task_id = 7, mandatory = True\<rparr>, Work 0 False, Work 0 False,
      Spawn ThreadOk \<lparr>task_id = 8, mandatory = False\<rparr>, Close, Work 0 False, Work 0 False, Work 0 False]"

definition drained_pool :: pool where
  "drained_pool = projr (run_moves drained_moves (new_pool 2))"

lemma drained_run: "run_moves drained_moves (new_pool 2) = Inr drained_pool"
  by (simp add: drained_pool_def drained_moves_def wake_up_def pool_eval)

lemma drained_reachable: "reachable_pool drained_pool"
  by (rule run_moves_reachable [OF drained_run]) (simp add: reachable_pool.start)

theorem pool_outcomes_witness:
  "map task_id (executed drained_pool) = [7] \<and> map task_id (shut_down drained_pool) = [8] \<and>
   mset (started drained_pool) = mset (executed drained_pool) + mset (shut_down drained_pool)"
  using pool_task_outcomes [OF drained_reachable]
  by (simp add: drained_pool_def drained_moves_def wake_up_def pool_eval)

text \<open>C18 A task that \<^verbatim>\<open>spawn_mandatory_blocking\<close> returned a handle for is run, whatever the pool does
afterwards: once no worker is left, after a shutdown or by time-outs, it has been executed.\<close>

theorem mandatory_task_runs:
  assumes "reachable_pool p" and "spawn_mandatory_blocking os h p = Inr (Some h', p')" and "pool_step\<^sup>*\<^sup>* p' q"
    and "all_exited q"
  shows "h' = h \<and> \<lparr>task_id = h, mandatory = True\<rparr> \<in> set (executed q)"
proof -
  let ?t = "\<lparr>task_id = h, mandatory = True\<rparr>"
  let ?n = "length (accepted p')"
  have s: "h' = h" "spawn_task os ?t p = Inr (Inr (), p')" using spawn_mandatory_Some [OF assms(2)] by simp_all
  have a: "accepted p' = accepted p @ [?t]" using s(2) by (auto simp: spawn_task_def Let_def split: if_splits)
  have "num_threads p = 0 \<Longrightarrow> \<not> stranded p'"
    using s(2) reachable_pool_inv [OF assms(1)] no_threads_no_idle [of p]
    by (auto simp: spawn_task_def Let_def pool_inv_defs is_temporary_os_thread_error_def split: if_splits)
  moreover have "0 < num_threads p \<Longrightarrow> \<not> stranded p" using reachable_stranded [OF assms(1)] by auto
  moreover have "stranded p' \<Longrightarrow> stranded p" using s(2) by (auto simp: spawn_task_def Let_def split: if_splits)
  ultimately have "served (length (accepted p')) p'" by (auto simp: served_def)
  then show ?thesis using accepted_runs [OF assms(1) s(2) a _ assms(3,4)] s(1) by simp
qed

theorem mandatory_task_runs_witness:
  "\<lparr>task_id = 7, mandatory = True\<rparr> \<in> set (executed (projr (run_moves
     [Work 0 False, Work 0 False, Close, Work 0 False, Work 0 False] (projr (run_moves [Spawn ThreadOk \<lparr>task_id = 7, mandatory = True\<rparr>] (new_pool 2))))))"
proof -
  let ?p' = "projr (run_moves [Spawn ThreadOk \<lparr>task_id = 7, mandatory = True\<rparr>] (new_pool 2))"
  let ?ms = "[Work 0 False, Work 0 False, Close, Work 0 False, Work 0 False]"
  have "reachable_pool (new_pool 2)" by (rule reachable_pool.start) simp
  moreover have "spawn_mandatory_blocking ThreadOk 7 (new_pool 2) = Inr (Some 7, ?p')" by (simp add: pool_eval)
  moreover have "run_moves ?ms ?p' = Inr (projr (run_moves ?ms ?p'))" by (simp add: wake_up_def pool_eval)
  moreover have "all_exited (projr (run_moves ?ms ?p'))" by (simp add: wake_up_def pool_eval all_exited_def)
  ultimately show ?thesis using mandatory_task_runs run_moves_steps by blast
qed

text \<open>C17 A shutdown ends: whichever of the workers that can go on is given a turn, after as many turns as
twice the running workers, the exiting ones and the queued tasks together, none panics or blocks for
ever, every worker has ended, the counters are back at zero, and the queue is empty unless it was left
without a thread. No new task gets in.\<close>

theorem pool_shutdown_finishes:
  assumes "reachable_pool p" and "pool_work (pool_shutdown p) \<le> length turns"
  shows "\<exists>q. run_thread pool_turn all_exited turns (pool_shutdown p) = Inr q \<and> all_exited q \<and> shutdown q \<and>
    num_threads q = 0 \<and> num_idle_threads q = 0 \<and> num_notify q = 0 \<and> (queue q = [] \<or> stranded q) \<and>
    mset (started q) = mset (executed q) + mset (shut_down q)"
proof -
  have "closing_pool (pool_shutdown p)"
    by (rule reachable_closing [OF reachable_pool.move [OF assms(1) pool_step.closing]]) (simp add: pool_shutdown_def)
  then obtain q where q: "run_thread pool_turn all_exited turns (pool_shutdown p) = Inr q" "closing_pool q" "all_exited q"
    using pool_drain.run_finishes [OF _ _ assms(2)] by blast
  then have "queue q = [] \<or> stranded q"
    using exited_tallies [OF q(3)] by (auto simp: closing_pool_def pool_inv_defs)
  then show ?thesis using q exited_tallies [OF q(3)] by (auto simp: closing_pool_def pool_inv_defs outcome_inv_def)
qed

theorem pool_shutdown_witness:
  "\<exists>q. run_thread pool_turn all_exited (replicate 3 (0, False)) (pool_shutdown example_pool) = Inr q \<and> queue q = [] \<and>
     num_threads q = 0"
proof -
  have "pool_work (pool_shutdown example_pool) \<le> length (replicate 3 (0 :: nat, False))"
    by (simp add: pool_shutdown_def pool_work_def example_pool_state tally_def is_exiting_def)
  note result = pool_shutdown_finishes [OF example_reachable this]
  have "run_thread pool_turn all_exited (replicate 3 (0, False)) (pool_shutdown example_pool) = Inr q \<Longrightarrow> \<not> stranded q" for q
    by (auto simp: numeral_3_eq_3 pool_turn_def all_exited_def ready_workers_def example_pool_def example_moves_def pool_eval)
  then show ?thesis using result by blast
qed

text \<open>C23 When the operating system fails to create a thread for any reason but a temporary one while other
threads are running, \<^verbatim>\<open>spawn_mandatory_blocking\<close> answers \<open>None\<close> although the task stays in the queue and
is run by one of those threads.\<close>

theorem refused_mandatory_task_runs:
  assumes "reachable_pool p" and "\<not> shutdown p" and "num_idle_threads p = 0"
    and "0 < num_threads p" and "num_threads p < thread_cap p"
  shows "\<exists>p'. spawn_mandatory_blocking OtherError h p = Inr (None, p') \<and> last (queue p') = \<lparr>task_id = h, mandatory = True\<rparr> \<and>
    (\<forall>q. pool_step\<^sup>*\<^sup>* p' q \<and> all_exited q \<longrightarrow> \<lparr>task_id = h, mandatory = True\<rparr> \<in> set (executed q))"
proof -
  let ?t = "\<lparr>task_id = h, mandatory = True\<rparr>"
  obtain p' where s: "spawn_task OtherError ?t p = Inr (Inl (NoThreads OtherError), p')" "queue p' = queue p @ [?t]"
      "accepted p' = accepted p @ [?t]" "stranded p' = stranded p"
    using assms reachable_pool_inv [OF assms(1)] by (simp add: spawn_task_def Let_def is_temporary_os_thread_error_def pool_inv_defs)
  have "served (length (accepted p')) p'" using reachable_stranded [OF assms(1)] assms(4) s(4) by (auto simp: served_def)
  then have "?t \<in> set (executed q)" if "pool_step\<^sup>*\<^sup>* p' q" "all_exited q" for q
    using accepted_runs [OF assms(1) s(1,3) _ that] by simp
  then show ?thesis using s by (simp add: spawn_mandatory_blocking_def)
qed

theorem refused_mandatory_witness:
  "\<exists>p'. spawn_mandatory_blocking OtherError 9 example_pool = Inr (None, p') \<and> task_id (last (queue p')) = 9"
  using refused_mandatory_task_runs [OF example_reachable, of 9] by (auto simp: example_pool_state)

end
