(* ===== verification/Visitor.thy ===== *)
theory Visitor imports Dag_Reach Nodes begin

text \<open>
  The visitor of a task graph (\<^verbatim>\<open>crates/dbt-tasks-sa/src/visitor.rs\<close>): it starts the tasks whose
  predecessors are done, skips those that a failure or a reused model makes pointless, and gives each
  running task a slot. A \<^verbatim>\<open>Vec\<close> is a list; what \<^verbatim>\<open>petgraph\<close> answers, the result of each task, the order in
  which running tasks complete, the order of hash sets, the tracing spans and the cancellation token are
  the fields of \<open>visit_env\<close>. A task runs at most once, so its result is a function of its index; a task that
  never returns is outside the model, as it is outside the loop's contract.
\<close>

section \<open>Tasks\<close>

datatype TP = TPRender | TPAnalyze | TPRun | TPCompare | TPShow

datatype NodeStatus = Succeeded | SucceededWithWarning | Errored | TestWarned | TestPassed | SkippedUpstreamFailed
  | ReusedNoChanges string | ReusedStillFresh string nat nat | ReusedStillFreshNoChanges string
  | ReusedCloned "nat option" | StaticallyCheckedDataTest | NoOp

datatype SkipReason = FailedUpstream string | FailedPhase | Reused

text \<open>A node of a task: its id, and whether it is a model configured with \<^verbatim>\<open>on_error: continue\<close>.\<close>

record task_node =
  node_uid :: string
  continues :: bool

text \<open>
  A task holds the receiver of a channel when it waits for the result of another phase of its work node: the
  phase whose task has the sender.
\<close>

record task =
  work_node_id :: string
  task_type :: string
  task_resource :: NodeType
  dbt_nodes :: "task_node list"
  task_phase :: "TP option"
  result_receiver :: "TP option"

record task_graph =
  weights :: "task list"
  task_edges :: "(nat \<times> nat) list"

definition node_weight :: "task_graph \<Rightarrow> nat \<Rightarrow> task option" where
  "node_weight g i = (if i < length (weights g) then Some (weights g ! i) else None)"

text \<open>Indexing of a \<^verbatim>\<open>Vec\<close>.\<close>

definition vec_at :: "'a list \<Rightarrow> nat \<Rightarrow> 'a fs_result" where
  "vec_at xs i = (if i < length xs then Inr (xs ! i) else Inl (Panic ''index out of bounds''))"

section \<open>Slots\<close>

record WorkerSlotPool =
  next_id :: int
  free :: "int list"

definition new_slots :: WorkerSlotPool where
  "new_slots = \<lparr>next_id = 2, free = [1]\<rparr>"

definition acquire_slot :: "WorkerSlotPool \<Rightarrow> int \<times> WorkerSlotPool" where
  "acquire_slot p =
     (if free p = [] then (next_id p, p\<lparr>next_id := next_id p + 1\<rparr>)
      else let i = Min (set (free p)) in (i, p\<lparr>free := remove1 i (free p)\<rparr>))"

definition release_slot :: "int \<Rightarrow> WorkerSlotPool \<Rightarrow> WorkerSlotPool" where
  "release_slot i p = p\<lparr>free := i # free p\<rparr>"

section \<open>Skipping\<close>

type_synonym skip_set = "nat \<Rightarrow> SkipReason option"

definition mark_skip :: "nat \<Rightarrow> SkipReason \<Rightarrow> skip_set \<Rightarrow> skip_set" where
  "mark_skip i r s = (case s i of None \<Rightarrow> s(i := Some r) | Some _ \<Rightarrow> s)"

text \<open>The locals of \<^verbatim>\<open>propagate_failure\<close>.\<close>

record failure_walk =
  fw_skip :: skip_set
  fw_stack :: "nat list"
  seen_tasks :: "nat list"
  seen_work :: "string list"
  seen_dbt :: "string list"
  skipped_dbt :: "task_node list"

fun skip_dbt_nodes :: "task_node list \<Rightarrow> failure_walk \<Rightarrow> failure_walk" where
  "skip_dbt_nodes [] w = w"
| "skip_dbt_nodes (n # ns) w =
     skip_dbt_nodes ns
       (if node_uid n \<in> set (seen_dbt w) then w
        else w\<lparr>seen_dbt := node_uid n # seen_dbt w, skipped_dbt := skipped_dbt w @ [n]\<rparr>)"

definition fail_dependent :: "task_graph \<Rightarrow> string \<Rightarrow> nat \<Rightarrow> failure_walk \<Rightarrow> failure_walk fs_result" where
  "fail_dependent g failed d w =
     (case node_weight g d of
        None \<Rightarrow> Inl (Panic ''task should exist.'')
      | Some t \<Rightarrow>
          if task_type t = ''barrier'' then Inr w
          else
            let reason = (if failed = work_node_id t then FailedPhase else FailedUpstream failed);
                w = w\<lparr>fw_skip := mark_skip d reason (fw_skip w)\<rparr>;
                w = (if work_node_id t \<in> set (seen_work w) then w
                     else skip_dbt_nodes (dbt_nodes t) (w\<lparr>seen_work := work_node_id t # seen_work w\<rparr>))
            in Inr (if d \<in> set (seen_tasks w) then w
                    else w\<lparr>seen_tasks := d # seen_tasks w, fw_stack := fw_stack w @ [d]\<rparr>))"

fun fail_dependents :: "task_graph \<Rightarrow> string \<Rightarrow> nat list \<Rightarrow> failure_walk \<Rightarrow> failure_walk fs_result" where
  "fail_dependents g failed [] w = Inr w"
| "fail_dependents g failed (d # ds) w = rbind (fail_dependent g failed d w) (fail_dependents g failed ds)"

text \<open>Tasks not yet seen, plus the stack: what the walks below have left to do.\<close>

definition walk_left :: "task_graph \<Rightarrow> nat list \<Rightarrow> nat list \<Rightarrow> nat" where
  "walk_left g seen stack = card ({..< length (weights g)} - set seen) + length stack"

lemma walk_left_push:
  "d < length (weights g) \<Longrightarrow> d \<notin> set seen \<Longrightarrow> walk_left g (d # seen) (stack @ [d]) = walk_left g seen stack"
proof -
  assume d: "d < length (weights g)" "d \<notin> set seen"
  have "{..< length (weights g)} - set (d # seen) = ({..< length (weights g)} - set seen) - {d}" by auto
  then have "card ({..< length (weights g)} - set seen) = Suc (card ({..< length (weights g)} - set (d # seen)))"
    using d card_Suc_Diff1 [of "{..< length (weights g)} - set seen" d] by simp
  then show ?thesis by (simp add: walk_left_def)
qed

lemma walk_left_pop: "vec_pop stack = Some (c, rest) \<Longrightarrow> walk_left g seen rest < walk_left g seen stack"
  using vec_pop_length [of stack c rest] by (simp add: walk_left_def)

lemma skip_dbt_nodes_walk [simp]:
  "fw_skip (skip_dbt_nodes ns w) = fw_skip w" "fw_stack (skip_dbt_nodes ns w) = fw_stack w"
  "seen_tasks (skip_dbt_nodes ns w) = seen_tasks w" "seen_work (skip_dbt_nodes ns w) = seen_work w"
  by (induction ns arbitrary: w) simp_all

lemma fail_dependent_left:
  "fail_dependent g failed d w = Inr w' \<Longrightarrow>
   walk_left g (seen_tasks w') (fw_stack w') = walk_left g (seen_tasks w) (fw_stack w)"
  by (auto simp: fail_dependent_def node_weight_def Let_def walk_left_push split: option.splits if_splits)

lemma fail_dependents_left:
  "fail_dependents g failed ds w = Inr w' \<Longrightarrow>
   walk_left g (seen_tasks w') (fw_stack w') = walk_left g (seen_tasks w) (fw_stack w)"
  by (induction ds arbitrary: w) (auto simp: rbind_eq_Inr dest: fail_dependent_left)

function fail_walk :: "task_graph \<Rightarrow> string \<Rightarrow> nat list list \<Rightarrow> failure_walk \<Rightarrow> failure_walk fs_result" where
  "fail_walk g failed dependents w =
     (case vec_pop (fw_stack w) of
        None \<Rightarrow> Inr w
      | Some (c, rest) \<Rightarrow>
          rbind (rbind (vec_at dependents c) (\<lambda>ds. fail_dependents g failed ds (w\<lparr>fw_stack := rest\<rparr>)))
            (fail_walk g failed dependents))"
  by pat_completeness auto
termination
  by (relation "measure (\<lambda>(g, failed, dependents, w). walk_left g (seen_tasks w) (fw_stack w))")
    (auto simp: rbind_eq_Inr dest!: fail_dependents_left walk_left_pop)

declare fail_walk.simps [simp del]

definition propagate_failure ::
    "task_graph \<Rightarrow> nat list list \<Rightarrow> nat \<Rightarrow> skip_set \<Rightarrow> (task_node list \<times> skip_set) fs_result" where
  "propagate_failure g dependents i s =
     (case node_weight g i of
        None \<Rightarrow> Inl (Panic ''node do not exist'')
      | Some t \<Rightarrow>
          rmap (\<lambda>w. (skipped_dbt w, fw_skip w))
            (fail_walk g (work_node_id t) dependents
               \<lparr>fw_skip = s, fw_stack = [i], seen_tasks = [i], seen_work = [work_node_id t],
                seen_dbt = map node_uid (dbt_nodes t), skipped_dbt = []\<rparr>))"

text \<open>\<^verbatim>\<open>propagate_reuse_to_downstream_tests\<close>: skip map, seen tasks and stack of its inner loop.\<close>

type_synonym reuse_state = "skip_set \<times> nat list \<times> nat list"

definition reuse_dependent :: "task_graph \<Rightarrow> string \<Rightarrow> nat list \<Rightarrow> nat \<Rightarrow> reuse_state \<Rightarrow> reuse_state" where
  "reuse_dependent g test_id task_dependents d w =
     (case w of (s, seen, stack) \<Rightarrow>
        case node_weight g d of
          None \<Rightarrow> w
        | Some t \<Rightarrow>
            if work_node_id t \<noteq> test_id then w
            else if d \<in> set task_dependents then w
            else (mark_skip d Reused s, if d \<in> set seen then (seen, stack) else (d # seen, stack @ [d])))"

lemma reuse_dependent_left:
  "reuse_dependent g test_id tds d (s, seen, stack) = (s', seen', stack') \<Longrightarrow> walk_left g seen' stack' = walk_left g seen stack"
  by (auto simp: reuse_dependent_def node_weight_def walk_left_push split: option.splits if_splits)

lemma reuse_dependents_left:
  "fold (reuse_dependent g test_id tds) ds (s, seen, stack) = (s', seen', stack') \<Longrightarrow>
   walk_left g seen' stack' = walk_left g seen stack"
proof (induction ds arbitrary: s seen stack)
  case (Cons d ds)
  obtain s1 seen1 stack1 where "reuse_dependent g test_id tds d (s, seen, stack) = (s1, seen1, stack1)" by (metis prod_cases3)
  then show ?case using Cons.IH [of s1 seen1 stack1] Cons.prems reuse_dependent_left by simp
qed simp

function reuse_walk ::
    "task_graph \<Rightarrow> string \<Rightarrow> nat list \<Rightarrow> nat list list \<Rightarrow> skip_set \<Rightarrow> nat list \<Rightarrow> nat list \<Rightarrow> skip_set fs_result" where
  "reuse_walk g test_id tds dependents s seen stack =
     (case vec_pop stack of
        None \<Rightarrow> Inr s
      | Some (c, rest) \<Rightarrow>
          rbind (vec_at dependents c) (\<lambda>ds.
            case fold (reuse_dependent g test_id tds) ds (s, seen, rest) of
              (s, seen, stack) \<Rightarrow> reuse_walk g test_id tds dependents s seen stack))"
  by pat_completeness auto
termination
  by (relation "measure (\<lambda>(g, test_id, tds, dependents, s, seen, stack). walk_left g seen stack)")
    (auto dest!: reuse_dependents_left reuse_dependents_left [OF sym] simp: walk_left_pop split: prod.splits)

declare reuse_walk.simps [simp del]

fun propagate_reuse ::
    "task_graph \<Rightarrow> nat list list \<Rightarrow> nat list \<Rightarrow> nat list \<Rightarrow> task_node list \<Rightarrow> skip_set \<Rightarrow> (task_node list \<times> skip_set) fs_result" where
  "propagate_reuse g dependents tds [] reused s = Inr (reused, s)"
| "propagate_reuse g dependents tds (d # ds) reused s =
     (case node_weight g d of
        None \<Rightarrow> propagate_reuse g dependents tds ds reused s
      | Some t \<Rightarrow>
          if task_type t = ''barrier'' \<or> task_resource t \<noteq> TestNode then propagate_reuse g dependents tds ds reused s
          else rbind (reuse_walk g (work_node_id t) tds dependents (mark_skip d Reused s) [d] [d])
            (propagate_reuse g dependents tds ds (reused @ dbt_nodes t)))"

definition propagate_reuse_to_downstream_tests ::
    "task_graph \<Rightarrow> nat list list \<Rightarrow> nat \<Rightarrow> skip_set \<Rightarrow> (task_node list \<times> skip_set) fs_result" where
  "propagate_reuse_to_downstream_tests g dependents i s =
     rbind (vec_at dependents i) (\<lambda>tds. propagate_reuse g dependents tds tds [] s)"

definition model_should_continue_on_error :: "task_graph \<Rightarrow> nat \<Rightarrow> bool" where
  "model_should_continue_on_error g i =
     (case node_weight g i of
        None \<Rightarrow> False
      | Some t \<Rightarrow> task_resource t = Model \<and> task_phase t \<noteq> Some TPAnalyze \<and> list_ex continues (dbt_nodes t))"

definition is_failure :: "NodeStatus fs_result \<Rightarrow> bool" where
  "is_failure r = (case r of Inl _ \<Rightarrow> True | Inr st \<Rightarrow> st = Errored)"

fun is_reused :: "NodeStatus \<Rightarrow> bool" where
  "is_reused (ReusedNoChanges m) = True"
| "is_reused (ReusedStillFresh m a b) = True"
| "is_reused (ReusedStillFreshNoChanges m) = True"
| "is_reused (ReusedCloned n) = True"
| "is_reused st = False"

text \<open>The nodes a failure skips, the nodes a reuse skips, and the skip map after them.\<close>

definition handle_task_result ::
    "task_graph \<Rightarrow> nat list list \<Rightarrow> bool \<Rightarrow> bool \<Rightarrow> nat \<Rightarrow> NodeStatus fs_result \<Rightarrow> skip_set \<Rightarrow>
     (task_node list \<times> task_node list \<times> skip_set) fs_result" where
  "handle_task_result g dependents fail_fast_flag reuse_downstream_tests i r s =
     (if is_failure r \<and> \<not> fail_fast_flag \<and> model_should_continue_on_error g i then Inr ([], [], s)
      else if is_failure r then rmap (\<lambda>(failed, s). (failed, [], s)) (propagate_failure g dependents i s)
      else
        (case r of
           Inr st \<Rightarrow>
             if is_reused st then
               (if reuse_downstream_tests
                then rmap (\<lambda>(reused, s). ([], reused, s)) (propagate_reuse_to_downstream_tests g dependents i s)
                else Inr ([], [], s))
             else if st = SkippedUpstreamFailed
             then Inl (Panic ''internal error: entered unreachable code: this should be handled somewhere else'')
             else Inr ([], [], s)
         | Inl _ \<Rightarrow> Inr ([], [], s)))"

section \<open>The graph and the worklist\<close>

datatype VisitStrategy = Sequential | Parallel

text \<open>
  An edge of the graph raises the count of its target and adds the target to the set of its source; a set
  is kept in the order of insertion here, and put in the order of the hash table below. The end points of
  an edge are nodes of the graph, which \<^verbatim>\<open>petgraph\<close> checks when the edge is added.
\<close>

definition count_edge :: "nat \<times> nat \<Rightarrow> int list \<times> nat list list \<Rightarrow> int list \<times> nat list list" where
  "count_edge e dd = (case e of (a, b) \<Rightarrow> case dd of (deg, dep) \<Rightarrow>
     (deg[b := deg ! b + 1], dep[a := (if b \<in> set (dep ! a) then dep ! a else dep ! a @ [b])]))"

definition get_indegree_and_dependents :: "task_graph \<Rightarrow> int list \<times> nat list list" where
  "get_indegree_and_dependents g =
     fold count_edge (task_edges g) (replicate (length (weights g)) 0, replicate (length (weights g)) [])"

record visit_env =
  toposort :: "task_graph \<Rightarrow> nat + nat list"
  externals :: "task_graph \<Rightarrow> nat list"
  hash_order :: "nat list \<Rightarrow> nat list"
  span_error :: "nat \<Rightarrow> failure option"
  outcome :: "nat \<Rightarrow> NodeStatus fs_result"
  arrival :: "nat \<Rightarrow> nat"
  token :: "nat \<Rightarrow> bool"
  fail_fast_flag :: bool
  run_cache_service_requested :: bool
  enable_data_tests :: "bool option"

definition should_reuse_downstream_tests :: "visit_env \<Rightarrow> bool" where
  "should_reuse_downstream_tests E \<longleftrightarrow> \<not> (run_cache_service_requested E \<and> enable_data_tests E = Some True)"

definition dependents_of :: "visit_env \<Rightarrow> task_graph \<Rightarrow> nat list list" where
  "dependents_of E g = map (hash_order E) (snd (get_indegree_and_dependents g))"

definition please_report :: string where
  "please_report = CHR 0x0A # ''Please report a bug at: https://github.com/dbt-labs/dbt-fusion/issues''"

definition task_graph_cycle_error :: "task_graph \<Rightarrow> nat \<Rightarrow> failure" where
  "task_graph_cycle_error g c =
     Err Unexpected (''Internal error: task graph has cycles. Node participating in the cycle: '' @
       (case node_weight g c of Some t \<Rightarrow> (case dbt_nodes t of n # _ \<Rightarrow> node_uid n | [] \<Rightarrow> ''unknown'') | None \<Rightarrow> ''unknown'') @
       ''.'' @ please_report)"

definition new_pending_nodes :: "visit_env \<Rightarrow> VisitStrategy \<Rightarrow> task_graph \<Rightarrow> nat list fs_result" where
  "new_pending_nodes E strategy g =
     (case toposort E g of
        Inl c \<Rightarrow> Inl (task_graph_cycle_error g c)
      | Inr order \<Rightarrow> Inr (if strategy = Parallel then externals E g else rev order))"

definition get_incomplete_tasks :: "VisitStrategy \<Rightarrow> task_graph \<Rightarrow> int list \<Rightarrow> (string \<times> string) list" where
  "get_incomplete_tasks strategy g deg =
     (if strategy \<noteq> Parallel then []
      else List.map_filter (\<lambda>(i, d). if d > 0
             then map_option (\<lambda>t. (work_node_id t, task_type t)) (node_weight g i) else None) (enumerate 0 deg))"

definition try_pop_pending_node :: "VisitStrategy \<Rightarrow> 'w list \<Rightarrow> nat list \<Rightarrow> (nat \<times> nat list) option" where
  "try_pop_pending_node strategy waiting pending =
     (if strategy \<noteq> Parallel \<and> waiting \<noteq> [] then None else vec_pop pending)"

fun release_each :: "nat list \<Rightarrow> int list \<times> nat list \<Rightarrow> (int list \<times> nat list) fs_result" where
  "release_each [] dp = Inr dp"
| "release_each (d # ds) (deg, pending) =
     rbind (vec_at deg d) (\<lambda>n.
       release_each ds (deg[d := n - 1], if n - 1 = 0 then pending @ [d] else pending))"

definition release_dependents ::
    "VisitStrategy \<Rightarrow> nat \<Rightarrow> nat list list \<Rightarrow> int list \<times> nat list \<Rightarrow> (int list \<times> nat list) fs_result" where
  "release_dependents strategy i dependents dp =
     (if strategy = Parallel then rbind (vec_at dependents i) (\<lambda>ds. release_each ds dp) else Inr dp)"

section \<open>The loop\<close>

text \<open>What the visitor has done with a task; \<open>visit_log\<close> records it in order.\<close>

datatype visit_event = TaskStarted nat int | TaskFinished nat "NodeStatus fs_result" | TaskSkipped nat SkipReason

text \<open>
  The locals of \<^verbatim>\<open>visit\<close> and what it changes of its context: the entries it puts in \<^verbatim>\<open>run_stats\<close> for skipped
  nodes, and whether it triggered fail-fast. \<open>waiting\<close> has a running task with its slot; \<open>asked\<close> and
  \<open>received\<close> count the questions to the token and the completions.
\<close>

record visit_state =
  pending :: "nat list"
  waiting :: "(nat \<times> int) list"
  skips :: skip_set
  indegree :: "int list"
  slots :: WorkerSlotPool
  asked :: nat
  received :: nat
  run_stats :: "string \<Rightarrow> (NodeStatus \<times> string) option"
  fail_fast_triggered :: bool
  visit_log :: "visit_event list"

type_synonym visit_result = "unit fs_result \<times> visit_state"

definition skip_stat :: "SkipReason \<Rightarrow> NodeStatus \<times> string" where
  "skip_stat r = (case r of
       Reused \<Rightarrow> (ReusedNoChanges ''Model reused'', ''Skipped due to model reuse'')
     | _ \<Rightarrow> (SkippedUpstreamFailed, ''Skipped due to upstream failure''))"

definition record_skipped_stats :: "task_node list \<Rightarrow> SkipReason \<Rightarrow> visit_state \<Rightarrow> visit_state" where
  "record_skipped_stats ns r s =
     s\<lparr>run_stats := fold (\<lambda>n st. st(node_uid n := Some (skip_stat r))) ns (run_stats s)\<rparr>"

definition release_task :: "VisitStrategy \<Rightarrow> nat list list \<Rightarrow> nat \<Rightarrow> visit_state \<Rightarrow> visit_state fs_result" where
  "release_task strategy dependents i s =
     rmap (\<lambda>(deg, pend). s\<lparr>indegree := deg, pending := pend\<rparr>)
       (release_dependents strategy i dependents (indegree s, pending s))"

text \<open>One turn of the inner loop, for a task taken from \<open>pending\<close> that is skipped or started.\<close>

definition skip_task :: "VisitStrategy \<Rightarrow> nat list list \<Rightarrow> nat \<Rightarrow> SkipReason \<Rightarrow> visit_state \<Rightarrow> visit_state fs_result" where
  "skip_task strategy dependents i r s =
     rmap (\<lambda>s. s\<lparr>visit_log := visit_log s @ [TaskSkipped i r]\<rparr>) (release_task strategy dependents i s)"

definition start_task :: "nat \<Rightarrow> visit_state \<Rightarrow> visit_state" where
  "start_task i s =
     (case acquire_slot (slots s) of (slot, pool) \<Rightarrow>
        s\<lparr>slots := pool, waiting := waiting s @ [(i, slot)], visit_log := visit_log s @ [TaskStarted i slot]\<rparr>)"

definition take_pending ::
    "visit_env \<Rightarrow> task_graph \<Rightarrow> VisitStrategy \<Rightarrow> nat list list \<Rightarrow> nat \<Rightarrow> visit_state \<Rightarrow> visit_state fs_result" where
  "take_pending E g strategy dependents i s =
     (case node_weight g i of
        None \<Rightarrow> Inl (Err Unexpected (''Node NodeIndex('' @ show_nat i @ '') not found in schedule''))
      | Some t \<Rightarrow>
          (case span_error E i of
             Some e \<Rightarrow> Inl e
           | None \<Rightarrow>
               (case skips s i of
                  Some r \<Rightarrow> skip_task strategy dependents i r s
                | None \<Rightarrow> Inr (start_task i s))))"

text \<open>Tasks that may still enter \<open>pending\<close>, those in it and those running.\<close>

definition positive :: "int list \<Rightarrow> nat" where
  "positive deg = length (filter (\<lambda>d. 0 < d) deg)"

definition visit_left :: "visit_state \<Rightarrow> nat" where
  "visit_left s = 2 * positive (indegree s) + 2 * length (pending s) + length (waiting s)"

lemma positive_update: "i < length deg \<Longrightarrow> positive (deg[i := d]) + of_bool (0 < deg ! i) = positive deg + of_bool (0 < d)"
proof (induction deg arbitrary: i)
  case (Cons e deg)
  then show ?case by (cases i) (auto simp: positive_def)
qed simp

lemma release_each_left:
  "release_each ds (deg, pend) = Inr (deg', pend') \<Longrightarrow> positive deg' + length pend' \<le> positive deg + length pend"
proof (induction ds arbitrary: deg pend)
  case (Cons d ds)
  from Cons.prems have d: "d < length deg"
    and r: "release_each ds (deg[d := deg ! d - 1], if deg ! d - 1 = 0 then pend @ [d] else pend) = Inr (deg', pend')"
    by (auto simp: vec_at_def split: if_splits)
  show ?case using Cons.IH [OF r] positive_update [OF d, of "deg ! d - 1"]
    by (cases "0 < deg ! d"; cases "1 < deg ! d"; simp split: if_splits)
qed simp

lemma release_task_left:
  assumes "release_task strategy dependents i s = Inr s'"
  shows "positive (indegree s') + length (pending s') \<le> positive (indegree s) + length (pending s) \<and> waiting s' = waiting s"
  using assms by (auto simp: release_task_def release_dependents_def rbind_eq_Inr rmap_eq_Inr dest: release_each_left split: if_splits)

lemma take_pending_left:
  assumes "take_pending E g strategy dependents i (s\<lparr>pending := rest\<rparr>) = Inr s'" and "vec_pop (pending s) = Some (i, rest)"
  shows "visit_left s' < visit_left s"
proof -
  have l: "Suc (length rest) = length (pending s)" using assms(2) by (auto simp: vec_pop_def split: if_splits)
  show ?thesis
  proof (cases "skips s i")
    case None
    then show ?thesis using assms(1) l
      by (auto simp: take_pending_def start_task_def visit_left_def split: option.splits prod.splits)
  next
    case (Some r)
    then obtain s1 where s1: "release_task strategy dependents i (s\<lparr>pending := rest\<rparr>) = Inr s1"
        "s' = s1\<lparr>visit_log := visit_log s1 @ [TaskSkipped i r]\<rparr>"
      using assms(1) by (auto simp: take_pending_def skip_task_def rmap_eq_Inr split: option.splits)
    then show ?thesis using release_task_left [OF s1(1)] l by (simp add: visit_left_def)
  qed
qed

function fill_waiting ::
    "visit_env \<Rightarrow> task_graph \<Rightarrow> VisitStrategy \<Rightarrow> nat list list \<Rightarrow> visit_state \<Rightarrow> visit_result" where
  "fill_waiting E g strategy dependents s =
     (case try_pop_pending_node strategy (waiting s) (pending s) of
        None \<Rightarrow> (Inr (), s)
      | Some (i, rest) \<Rightarrow>
          (case take_pending E g strategy dependents i (s\<lparr>pending := rest\<rparr>) of
             Inl e \<Rightarrow> (Inl e, s\<lparr>pending := rest\<rparr>)
           | Inr s' \<Rightarrow> fill_waiting E g strategy dependents s'))"
  by pat_completeness auto
termination
  by (relation "measure (\<lambda>(E, g, strategy, dependents, s). visit_left s)")
    (auto simp: try_pop_pending_node_def dest: take_pending_left split: if_splits)

declare fill_waiting.simps [simp del]

text \<open>A completion arrives: \<open>k\<close> is the position of the task among the running ones.\<close>

definition finish_task ::
    "visit_env \<Rightarrow> task_graph \<Rightarrow> VisitStrategy \<Rightarrow> nat list list \<Rightarrow> nat \<Rightarrow> visit_state \<Rightarrow> visit_state fs_result" where
  "finish_task E g strategy dependents k s =
     (case waiting s ! k of (i, slot) \<Rightarrow>
        let s = s\<lparr>slots := release_slot slot (slots s), waiting := take k (waiting s) @ drop (Suc k) (waiting s),
              received := Suc (received s), visit_log := visit_log s @ [TaskFinished i (outcome E i)]\<rparr>
        in rbind (handle_task_result g dependents (fail_fast_flag E) (should_reuse_downstream_tests E) i (outcome E i) (skips s))
             (\<lambda>(failed, reused, sk).
               let s = record_skipped_stats reused Reused (record_skipped_stats failed FailedPhase (s\<lparr>skips := sk\<rparr>));
                   s = s\<lparr>fail_fast_triggered := fail_fast_triggered s \<or> is_failure (outcome E i)\<rparr>
               in release_task strategy dependents i s))"

lemma finish_task_left:
  assumes "finish_task E g strategy dependents k s = Inr s'" and "k < length (waiting s)"
  shows "visit_left s' < visit_left s"
proof -
  obtain s1 i where s1: "release_task strategy dependents i s1 = Inr s'" "indegree s1 = indegree s" "pending s1 = pending s"
      "waiting s1 = take k (waiting s) @ drop (Suc k) (waiting s)"
    using assms(1) by (auto simp: finish_task_def Let_def rbind_eq_Inr record_skipped_stats_def split: prod.splits)
  have "length (waiting s) = Suc (length (waiting s1))" using assms(2) s1(4) by simp
  then show ?thesis using release_task_left [OF s1(1)] s1(2,3) by (simp add: visit_left_def)
qed

definition ask_token :: "visit_env \<Rightarrow> visit_state \<Rightarrow> visit_result" where
  "ask_token E s =
     (if token E (asked s) then Inl (Err OperationCanceled ''Operation cancelled'') else Inr (), s\<lparr>asked := Suc (asked s)\<rparr>)"

text \<open>The next completion: the token is asked again, then one of the running tasks completes.\<close>

definition receive_task :: "visit_env \<Rightarrow> task_graph \<Rightarrow> VisitStrategy \<Rightarrow> nat list list \<Rightarrow> visit_state \<Rightarrow> visit_result" where
  "receive_task E g strategy dependents s =
     (if waiting s = [] then (Inr (), s)
      else (case ask_token E s of
         (Inl e, s) \<Rightarrow> (Inl e, s)
       | (Inr _, s) \<Rightarrow>
           (case finish_task E g strategy dependents (arrival E (received s) mod length (waiting s)) s of
              Inl e \<Rightarrow> (Inl e, s)
            | Inr s \<Rightarrow> (Inr (), s))))"

lemma fill_waiting_left: "fill_waiting E g strategy dependents s = (r, s') \<Longrightarrow> visit_left s' \<le> visit_left s"
proof (induction E g strategy dependents s arbitrary: r s' rule: fill_waiting.induct)
  case (1 E g strategy dependents s)
  show ?case
  proof (cases "try_pop_pending_node strategy (waiting s) (pending s)")
    case None
    then show ?thesis using "1.prems" by (simp add: fill_waiting.simps)
  next
    case (Some p)
    obtain i rest where p: "p = (i, rest)" by (cases p)
    have v: "vec_pop (pending s) = Some (i, rest)" using Some p by (auto simp: try_pop_pending_node_def split: if_splits)
    show ?thesis
    proof (cases "take_pending E g strategy dependents i (s\<lparr>pending := rest\<rparr>)")
      case (Inl e)
      have "fill_waiting E g strategy dependents s = (Inl e, s\<lparr>pending := rest\<rparr>)"
        by (subst fill_waiting.simps) (simp add: Some p Inl)
      then show ?thesis using "1.prems" vec_pop_length [OF v] by (auto simp: visit_left_def)
    next
      case (Inr s1)
      have "fill_waiting E g strategy dependents s = fill_waiting E g strategy dependents s1"
        by (subst fill_waiting.simps) (simp add: Some p Inr)
      then have "fill_waiting E g strategy dependents s1 = (r, s')" using "1.prems" by simp
      from "1.IH" [OF Some p [symmetric] Inr this] show ?thesis using take_pending_left [OF Inr v] by simp
    qed
  qed
qed

lemma fill_waiting_done:
  "fill_waiting E g strategy dependents s = (Inr u, s') \<Longrightarrow> try_pop_pending_node strategy (waiting s') (pending s') = None"
proof (induction E g strategy dependents s arbitrary: s' rule: fill_waiting.induct)
  case (1 E g strategy dependents s)
  show ?case
  proof (cases "try_pop_pending_node strategy (waiting s) (pending s)")
    case None
    then show ?thesis using "1.prems" by (simp add: fill_waiting.simps)
  next
    case (Some p)
    obtain i rest where p: "p = (i, rest)" by (cases p)
    obtain s1 where s1: "take_pending E g strategy dependents i (s\<lparr>pending := rest\<rparr>) = Inr s1"
        "fill_waiting E g strategy dependents s1 = (Inr u, s')"
      using "1.prems" by (subst (asm) fill_waiting.simps) (auto simp: Some p split: sum.splits)
    show ?thesis using "1.IH" [OF Some p [symmetric] s1] .
  qed
qed

lemma receive_task_left:
  assumes "receive_task E g strategy dependents s = (Inr u, s')" and "waiting s \<noteq> []"
  shows "visit_left s' < visit_left s"
proof -
  let ?s = "s\<lparr>asked := Suc (asked s)\<rparr>"
  have "finish_task E g strategy dependents (arrival E (received s) mod length (waiting s)) ?s = Inr s'"
    using assms by (auto simp: receive_task_def ask_token_def split: if_splits sum.splits)
  from finish_task_left [OF this] assms(2) show ?thesis by (simp add: visit_left_def)
qed

lemma visit_turn_left:
  assumes "ask_token E s = (Inr u, s1)" and "fill_waiting E g strategy dependents s1 = (Inr v, s2)"
    and "receive_task E g strategy dependents s2 = (Inr w, s3)" and "pending s3 \<noteq> [] \<or> waiting s3 \<noteq> []"
  shows "visit_left s3 < visit_left s"
proof -
  have s1: "visit_left s1 = visit_left s" using assms(1) by (auto simp: ask_token_def visit_left_def split: if_splits)
  have s2: "visit_left s2 \<le> visit_left s1" by (rule fill_waiting_left [OF assms(2)])
  have "waiting s2 \<noteq> []"
  proof
    assume w: "waiting s2 = []"
    then have "pending s2 = []"
      using fill_waiting_done [OF assms(2)] by (auto simp: try_pop_pending_node_def vec_pop_def split: if_splits)
    then show False using assms(3,4) w by (auto simp: receive_task_def)
  qed
  then show ?thesis using receive_task_left [OF assms(3)] s1 s2 by simp
qed

function visit_loop :: "visit_env \<Rightarrow> task_graph \<Rightarrow> VisitStrategy \<Rightarrow> nat list list \<Rightarrow> visit_state \<Rightarrow> visit_result" where
  "visit_loop E g strategy dependents s =
     (case ask_token E s of
        (Inl e, s) \<Rightarrow> (Inl e, s)
      | (Inr _, s) \<Rightarrow>
          (case fill_waiting E g strategy dependents s of
             (Inl e, s) \<Rightarrow> (Inl e, s)
           | (Inr _, s) \<Rightarrow>
               (case receive_task E g strategy dependents s of
                  (Inl e, s') \<Rightarrow> (Inl e, s')
                | (Inr _, s') \<Rightarrow>
                    if pending s' = [] \<and> waiting s' = [] then (Inr (), s')
                    else visit_loop E g strategy dependents s')))"
  by pat_completeness auto
termination
proof (relation "measure (\<lambda>(E, g, strategy, dependents, s). visit_left s)", goal_cases)
  case 2
  then show ?case by (auto dest!: sym [of "(_, _)"] intro: visit_turn_left)
qed simp

declare visit_loop.simps [simp del]

definition visit_start :: "visit_env \<Rightarrow> task_graph \<Rightarrow> nat list \<Rightarrow> visit_state" where
  "visit_start E g first =
     \<lparr>pending = first, waiting = [], skips = (\<lambda>_. None), indegree = fst (get_indegree_and_dependents g), slots = new_slots,
      asked = 0, received = 0, run_stats = (\<lambda>_. None), fail_fast_triggered = False, visit_log = []\<rparr>"

definition visit :: "visit_env \<Rightarrow> VisitStrategy \<Rightarrow> task_graph \<Rightarrow> visit_result" where
  "visit E strategy g =
     (case new_pending_nodes E strategy g of
        Inl e \<Rightarrow> (Inl e, visit_start E g [])
      | Inr first \<Rightarrow>
          (case visit_loop E g strategy (dependents_of E g) (visit_start E g first) of
             (Inl e, s) \<Rightarrow> (Inl e, s)
           | (Inr _, s) \<Rightarrow>
               let incomplete = get_incomplete_tasks strategy g (indegree s) in
               if incomplete \<noteq> []
               then (Inl (Err Unexpected (''Internal error: '' @ show_nat (length incomplete) @ '' tasks were not processed.'' @ please_report)), s)
               else (Inr (), s)))"

definition visit_sequential :: "visit_env \<Rightarrow> task_graph \<Rightarrow> visit_result" where
  "visit_sequential E = visit E Sequential"

definition visit_parallel :: "visit_env \<Rightarrow> task_graph \<Rightarrow> visit_result" where
  "visit_parallel E = visit E Parallel"

end
