(* ===== verification/Visitor_Walks.thy ===== *)
theory Visitor_Walks imports Visitor begin

text \<open>
  What the visitor derives from the graph, and what its two walks mark: the tasks behind a failed one, up
  to the barrier, and the phases of the tests behind a reused one.
\<close>

section \<open>Counts and dependents\<close>

definition edge_rel :: "task_graph \<Rightarrow> (nat \<times> nat) set" where
  "edge_rel g = set (task_edges g)"

definition preds :: "task_graph \<Rightarrow> nat \<Rightarrow> nat set" where
  "preds g i = {a. (a, i) \<in> edge_rel g}"

definition graph_ok :: "task_graph \<Rightarrow> bool" where
  "graph_ok g \<longleftrightarrow> edge_rel g \<subseteq> {..< length (weights g)} \<times> {..< length (weights g)}"

definition hash_ok :: "visit_env \<Rightarrow> bool" where
  "hash_ok E \<longleftrightarrow> (\<forall>xs. set (hash_order E xs) = set xs \<and> (distinct xs \<longrightarrow> distinct (hash_order E xs)))"

definition in_edges :: "nat \<Rightarrow> (nat \<times> nat) list \<Rightarrow> nat" where
  "in_edges i es = length (filter (\<lambda>e. snd e = i) es)"

lemma count_task_edges:
  assumes "set es \<subseteq> {..< n} \<times> {..< n}" and "length deg = n" "length dep = n" "\<forall>a < n. distinct (dep ! a)"
    and "fold count_edge es (deg, dep) = (deg', dep')"
  shows "length deg' = n \<and> length dep' = n \<and> (\<forall>i < n. deg' ! i = deg ! i + int (in_edges i es)) \<and>
    (\<forall>a < n. distinct (dep' ! a) \<and> set (dep' ! a) = set (dep ! a) \<union> {b. (a, b) \<in> set es})"
  using assms
proof (induction es arbitrary: deg dep)
  case (Cons e es)
  obtain a b where e: "e = (a, b)" "a < n" "b < n" using Cons.prems(1) by (cases e) auto
  let ?deg = "deg[b := deg ! b + 1]" and ?dep = "dep[a := (if b \<in> set (dep ! a) then dep ! a else dep ! a @ [b])]"
  have d: "\<forall>x < n. distinct (?dep ! x)" using Cons.prems(3,4) e by (auto simp: nth_list_update)
  have "length deg' = n \<and> length dep' = n \<and> (\<forall>i < n. deg' ! i = ?deg ! i + int (in_edges i es)) \<and>
    (\<forall>x < n. distinct (dep' ! x) \<and> set (dep' ! x) = set (?dep ! x) \<union> {b. (x, b) \<in> set es})"
    by (rule Cons.IH) (use Cons.prems d e in \<open>auto simp: count_edge_def\<close>)
  moreover have "?deg ! i + int (in_edges i es) = deg ! i + int (in_edges i (e # es))" if "i < n" for i
    using Cons.prems(2) e that by (auto simp: in_edges_def nth_list_update)
  moreover have "set (?dep ! x) \<union> {b. (x, b) \<in> set es} = set (dep ! x) \<union> {b. (x, b) \<in> set (e # es)}" if "x < n" for x
    using Cons.prems(3) e that by (auto simp: nth_list_update)
  ultimately show ?case by auto
qed (auto simp: in_edges_def)

lemma counted:
  assumes "graph_ok g" and "get_indegree_and_dependents g = (deg, dep)"
  shows "length deg = length (weights g)" "length dep = length (weights g)"
    and "i < length (weights g) \<Longrightarrow> deg ! i = int (in_edges i (task_edges g))"
    and "a < length (weights g) \<Longrightarrow> distinct (dep ! a) \<and> set (dep ! a) = {b. (a, b) \<in> edge_rel g}"
  using count_task_edges [of "task_edges g" "length (weights g)" "replicate (length (weights g)) 0"
      "replicate (length (weights g)) []" deg dep] assms
  by (auto simp: graph_ok_def edge_rel_def get_indegree_and_dependents_def)

lemma dependents_ok:
  assumes "graph_ok g" and "hash_ok E"
  shows "length (dependents_of E g) = length (weights g)"
    and "a < length (weights g) \<Longrightarrow> distinct (dependents_of E g ! a) \<and> set (dependents_of E g ! a) = {b. (a, b) \<in> edge_rel g}"
proof -
  obtain deg dep where d: "get_indegree_and_dependents g = (deg, dep)" by (cases "get_indegree_and_dependents g")
  show "length (dependents_of E g) = length (weights g)" using counted(2) [OF assms(1) d] by (simp add: dependents_of_def d)
  assume "a < length (weights g)"
  then show "distinct (dependents_of E g ! a) \<and> set (dependents_of E g ! a) = {b. (a, b) \<in> edge_rel g}"
    using counted(2,4) [OF assms(1) d] assms(2) by (simp add: dependents_of_def d hash_ok_def)
qed

text \<open>With no edge twice, the count of a task is the number of its predecessors.\<close>

lemma in_edges_card: "distinct es \<Longrightarrow> in_edges i es = card {a. (a, i) \<in> set es}"
proof -
  assume "distinct es"
  then have "distinct (filter (\<lambda>e. snd e = i) es)" by simp
  from distinct_card [OF this] have "in_edges i es = card (set (filter (\<lambda>e. snd e = i) es))" by (simp add: in_edges_def)
  also have "set (filter (\<lambda>e. snd e = i) es) = (\<lambda>a. (a, i)) ` {a. (a, i) \<in> set es}" by auto
  also have "card \<dots> = card {a. (a, i) \<in> set es}" by (intro card_image) (auto simp: inj_on_def)
  finally show ?thesis .
qed

section \<open>Behind a failed task\<close>

definition is_barrier :: "task_graph \<Rightarrow> nat \<Rightarrow> bool" where
  "is_barrier g i \<longleftrightarrow> task_type (weights g ! i) = ''barrier''"

definition feeds :: "task_graph \<Rightarrow> (nat \<times> nat) set" where
  "feeds g = {(a, b). (a, b) \<in> edge_rel g \<and> \<not> is_barrier g b}"

definition blocked :: "task_graph \<Rightarrow> nat \<Rightarrow> nat set" where
  "blocked g i = (feeds g)\<^sup>+ `` {i}"

definition work_of :: "task_graph \<Rightarrow> nat \<Rightarrow> string" where
  "work_of g i = work_node_id (weights g ! i)"

definition failure_reason :: "task_graph \<Rightarrow> nat \<Rightarrow> nat \<Rightarrow> SkipReason" where
  "failure_reason g i b = (if work_of g i = work_of g b then FailedPhase else FailedUpstream (work_of g i))"

text \<open>A map after marking the members of a set.\<close>

definition marked :: "(nat \<Rightarrow> SkipReason) \<Rightarrow> nat set \<Rightarrow> skip_set \<Rightarrow> skip_set" where
  "marked r B s = (\<lambda>b. if s b = None \<and> b \<in> B then Some (r b) else s b)"

lemma marked_empty [simp]: "marked r {} s = s"
  by (simp add: marked_def)

lemma mark_skip_marked: "mark_skip b (r b) (marked r B s) = marked r (insert b B) s"
  by (auto simp: mark_skip_def marked_def fun_eq_iff split: option.splits)

definition fed :: "task_graph \<Rightarrow> nat list list \<Rightarrow> nat \<Rightarrow> nat list" where
  "fed g dependents a = filter (\<lambda>b. \<not> is_barrier g b) (dependents ! a)"

lemma fail_dependents_marks:
  assumes "set ds \<subseteq> {..< length (weights g)}" and "fw_skip w = marked (failure_reason g i) B s"
  shows "\<exists>w'. fail_dependents g (work_of g i) ds w = Inr w' \<and>
    fw_skip w' = marked (failure_reason g i) (B \<union> {d \<in> set ds. \<not> is_barrier g d}) s \<and>
    (\<exists>new. set new = {d \<in> set ds. \<not> is_barrier g d} - set (seen_tasks w) \<and>
       set (seen_tasks w') = set (seen_tasks w) \<union> set new \<and> fw_stack w' = fw_stack w @ new)"
  using assms
proof (induction ds arbitrary: w B)
  case Nil
  then show ?case by auto
next
  case (Cons d ds)
  have d: "node_weight g d = Some (weights g ! d)" using Cons.prems(1) by (simp add: node_weight_def)
  show ?case
  proof (cases "is_barrier g d")
    case True
    then have "fail_dependent g (work_of g i) d w = Inr w" using d by (simp add: fail_dependent_def is_barrier_def)
    moreover have "{x \<in> set (d # ds). \<not> is_barrier g x} = {x \<in> set ds. \<not> is_barrier g x}" using True by auto
    ultimately show ?thesis using Cons.IH [of w B] Cons.prems by simp
  next
    case False
    obtain w1 where w1: "fail_dependent g (work_of g i) d w = Inr w1"
        "fw_skip w1 = mark_skip d (failure_reason g i d) (fw_skip w)"
        "seen_tasks w1 = (if d \<in> set (seen_tasks w) then seen_tasks w else d # seen_tasks w)"
        "fw_stack w1 = (if d \<in> set (seen_tasks w) then fw_stack w else fw_stack w @ [d])"
      using d False by (auto simp: fail_dependent_def is_barrier_def failure_reason_def work_of_def Let_def)
    have m: "fw_skip w1 = marked (failure_reason g i) (insert d B) s"
      using w1(2) Cons.prems(2) mark_skip_marked [of d "failure_reason g i"] by simp
    obtain w' new where w': "fail_dependents g (work_of g i) ds w1 = Inr w'"
        "fw_skip w' = marked (failure_reason g i) (insert d B \<union> {d \<in> set ds. \<not> is_barrier g d}) s"
        "set new = {d \<in> set ds. \<not> is_barrier g d} - set (seen_tasks w1)"
        "set (seen_tasks w') = set (seen_tasks w1) \<union> set new" "fw_stack w' = fw_stack w1 @ new"
      using Cons.IH [of w1 "insert d B"] Cons.prems(1) m by auto
    let ?new = "if d \<in> set (seen_tasks w) then new else d # new"
    have "insert d B \<union> {d \<in> set ds. \<not> is_barrier g d} = B \<union> {x \<in> set (d # ds). \<not> is_barrier g x}" using False by auto
    moreover have "set ?new = {x \<in> set (d # ds). \<not> is_barrier g x} - set (seen_tasks w)" "fw_stack w' = fw_stack w @ ?new"
      "set (seen_tasks w') = set (seen_tasks w) \<union> set ?new"
      using w'(3,4,5) w1(3,4) False by auto
    ultimately show ?thesis using w' w1(1) by auto
  qed
qed

lemma fed_iff: "graph_ok g \<Longrightarrow> hash_ok E \<Longrightarrow> a < length (weights g) \<Longrightarrow> b \<in> set (fed g (dependents_of E g) a) \<longleftrightarrow> (a, b) \<in> feeds g"
  using dependents_ok(2) [of g E a] by (auto simp: fed_def feeds_def)

lemma fed_reach:
  assumes "graph_ok g" and "hash_ok E" and "i < length (weights g)"
  shows "reach (fed g (dependents_of E g)) {i} = (feeds g)\<^sup>* `` {i}"
proof -
  have in_range: "x < length (weights g)" if "(i, x) \<in> (feeds g)\<^sup>*" for x
    using that assms by (induction rule: rtrancl_induct) (auto simp: feeds_def graph_ok_def)
  have "(i, x) \<in> (edges (fed g (dependents_of E g)))\<^sup>* \<and> x < length (weights g)" if "(i, x) \<in> (feeds g)\<^sup>*" for x
    using that
  proof (induction rule: rtrancl_induct)
    case (step y z)
    then have "(y, z) \<in> edges (fed g (dependents_of E g))" using fed_iff [OF assms(1,2)] by simp
    moreover have "z < length (weights g)" using step.hyps assms(1) by (auto simp: feeds_def graph_ok_def)
    ultimately show ?case using step.IH by (metis rtrancl.rtrancl_into_rtrancl)
  qed (use assms in simp)
  moreover have "(i, x) \<in> (feeds g)\<^sup>*" if "(i, x) \<in> (edges (fed g (dependents_of E g)))\<^sup>*" for x
    using that
  proof (induction rule: rtrancl_induct)
    case (step y z)
    then have "(y, z) \<in> feeds g" using fed_iff [OF assms(1,2) in_range] by simp
    then show ?case using step.IH by (metis rtrancl.rtrancl_into_rtrancl)
  qed simp
  ultimately show ?thesis by (auto simp: reach_def)
qed

lemma blocked_iff: "b \<in> blocked g i \<longleftrightarrow> (\<exists>x. (i, x) \<in> (feeds g)\<^sup>* \<and> (x, b) \<in> feeds g)"
  unfolding blocked_def by (auto dest: tranclD2 intro: rtrancl_into_trancl1)

lemma fail_walk_marks:
  assumes g: "graph_ok g" "hash_ok E" "i < length (weights g)"
    and "mark_inv (fed g (dependents_of E g)) {i} (set (seen_tasks w)) (set (fw_stack w))"
    and "fw_skip w = marked (failure_reason g i) B s" and "B \<subseteq> blocked g i"
    and "\<forall>x \<in> set (seen_tasks w). x \<in> set (fw_stack w) \<or> set (fed g (dependents_of E g) x) \<subseteq> B"
  shows "\<exists>w'. fail_walk g (work_of g i) (dependents_of E g) w = Inr w' \<and> fw_skip w' = marked (failure_reason g i) (blocked g i) s"
  using assms(4-)
proof (induction "walk_left g (seen_tasks w) (fw_stack w)" arbitrary: w B rule: less_induct)
  case less
  let ?f = "fed g (dependents_of E g)"
  have reach: "reach ?f {i} = (feeds g)\<^sup>* `` {i}" by (rule fed_reach [OF g])
  have range: "x < length (weights g)" if "x \<in> reach ?f {i}" for x
  proof -
    have "(i, x) \<in> (feeds g)\<^sup>*" using that reach by simp
    then show ?thesis using g by (induction rule: rtrancl_induct) (auto simp: feeds_def graph_ok_def)
  qed
  show ?case
  proof (cases "vec_pop (fw_stack w)")
    case None
    have "set (seen_tasks w) = reach ?f {i}" using lifo.mark_done [OF less.prems(1) None] .
    moreover have "fw_stack w = []" using None by (simp add: vec_pop_def split: if_splits)
    ultimately have "blocked g i \<subseteq> B" using less.prems(4) reach fed_iff [OF g(1,2) range] by (fastforce simp: blocked_iff)
    then have "B = blocked g i" using less.prems(3) by simp
    then show ?thesis using None less.prems(2) by (simp add: fail_walk.simps)
  next
    case (Some p)
    obtain c rest where p: "vec_pop (fw_stack w) = Some (c, rest)" using Some by (cases p) auto
    have c: "c \<in> set (seen_tasks w)" "c \<in> reach ?f {i}"
      using lifo.pop_Some [OF p] less.prems(1) by (auto simp: mark_inv_def)
    have cN: "c < length (weights g)" by (rule range [OF c(2)])
    have ds: "set (dependents_of E g ! c) \<subseteq> {..< length (weights g)}" "set (?f c) = {d \<in> set (dependents_of E g ! c). \<not> is_barrier g d}"
      using dependents_ok(2) [OF g(1,2) cN] g(1) by (auto simp: graph_ok_def fed_def)
    obtain w1 new where w1: "fail_dependents g (work_of g i) (dependents_of E g ! c) (w\<lparr>fw_stack := rest\<rparr>) = Inr w1"
        "fw_skip w1 = marked (failure_reason g i) (B \<union> set (?f c)) s"
        "set new = set (?f c) - set (seen_tasks w)" "set (seen_tasks w1) = set (seen_tasks w) \<union> set new"
        "fw_stack w1 = rest @ new"
      using fail_dependents_marks [OF ds(1), of "w\<lparr>fw_stack := rest\<rparr>" i B s] less.prems(2) ds(2) by auto
    have step: "fail_walk g (work_of g i) (dependents_of E g) w = fail_walk g (work_of g i) (dependents_of E g) w1"
      using p w1(1) cN dependents_ok(1) [OF g(1,2)] by (subst fail_walk.simps) (simp add: vec_at_def)
    have m: "mark_inv ?f {i} (set (seen_tasks w1)) (set (fw_stack w1))"
      using lifo.mark_step [OF less.prems(1) p w1(3)] w1(4,5) by (simp add: push_all_def)
    have left: "walk_left g (seen_tasks w1) (fw_stack w1) < walk_left g (seen_tasks w) (fw_stack w)"
      using fail_dependents_left [OF w1(1)] walk_left_pop [OF p] by simp
    have sub: "B \<union> set (?f c) \<subseteq> blocked g i"
      using less.prems(3) c(2) reach fed_iff [OF g(1,2) cN] by (auto simp: blocked_iff)
    have "x \<in> set (fw_stack w1) \<or> set (?f x) \<subseteq> B \<union> set (?f c)" if "x \<in> set (seen_tasks w1)" for x
      using that less.prems(4) w1(4,5) lifo.pop_Some [OF p] by auto
    then show ?thesis using less.hyps [OF left m w1(2) sub] step by simp
  qed
qed

lemma propagate_failure_marks:
  assumes "graph_ok g" and "hash_ok E" and "i < length (weights g)"
  shows "\<exists>nodes. propagate_failure g (dependents_of E g) i s = Inr (nodes, marked (failure_reason g i) (blocked g i) s)"
proof -
  let ?w = "\<lparr>fw_skip = s, fw_stack = [i], seen_tasks = [i], seen_work = [work_node_id (weights g ! i)],
      seen_dbt = map node_uid (dbt_nodes (weights g ! i)), skipped_dbt = []\<rparr>"
  obtain w' where "fail_walk g (work_of g i) (dependents_of E g) ?w = Inr w'"
      "fw_skip w' = marked (failure_reason g i) (blocked g i) s"
    using fail_walk_marks [OF assms, of ?w "{}" s] lifo.mark_start [of _ "[i]"] by auto
  then show ?thesis using assms(3) by (simp add: propagate_failure_def node_weight_def work_of_def)
qed

section \<open>Behind a reused task\<close>

definition is_test :: "task_graph \<Rightarrow> nat \<Rightarrow> bool" where
  "is_test g d \<longleftrightarrow> \<not> is_barrier g d \<and> task_resource (weights g ! d) = TestNode"

definition same_work :: "task_graph \<Rightarrow> (nat \<times> nat) set" where
  "same_work g = {(x, y). (x, y) \<in> edge_rel g \<and> work_of g y = work_of g x}"

text \<open>The tests that depend on a task, and every later phase of them.\<close>

definition reused_by :: "task_graph \<Rightarrow> nat \<Rightarrow> nat set" where
  "reused_by g i = (same_work g)\<^sup>* `` {d. (i, d) \<in> edge_rel g \<and> is_test g d}"

definition phases :: "task_graph \<Rightarrow> nat list list \<Rightarrow> nat list \<Rightarrow> nat \<Rightarrow> nat \<Rightarrow> nat list" where
  "phases g dependents tds h c = filter (\<lambda>d. work_of g d = work_of g h \<and> d \<notin> set tds) (dependents ! c)"

lemma reuse_dependents_marks:
  assumes "set ds \<subseteq> {..< length (weights g)}"
  shows "\<exists>seen' new. fold (reuse_dependent g (work_of g h) tds) ds (marked (\<lambda>_. Reused) B s, seen, stack) =
      (marked (\<lambda>_. Reused) (B \<union> {d \<in> set ds. work_of g d = work_of g h \<and> d \<notin> set tds}) s, seen', stack @ new) \<and>
    set new = {d \<in> set ds. work_of g d = work_of g h \<and> d \<notin> set tds} - set seen \<and> set seen' = set seen \<union> set new"
  using assms
proof (induction ds arbitrary: B seen stack)
  case Nil
  then show ?case by (intro exI [of _ seen] exI [of _ "[]"]) simp
next
  case (Cons d ds)
  let ?P = "\<lambda>d. work_of g d = work_of g h \<and> d \<notin> set tds"
  have d: "node_weight g d = Some (weights g ! d)" using Cons.prems by (simp add: node_weight_def)
  show ?case
  proof (cases "?P d")
    case False
    then have "reuse_dependent g (work_of g h) tds d (marked (\<lambda>_. Reused) B s, seen, stack) = (marked (\<lambda>_. Reused) B s, seen, stack)"
      using d by (auto simp: reuse_dependent_def work_of_def)
    moreover have "{x \<in> set (d # ds). ?P x} = {x \<in> set ds. ?P x}" using False by auto
    ultimately show ?thesis using Cons.IH [of B seen stack] Cons.prems by simp
  next
    case True
    let ?seen = "if d \<in> set seen then seen else d # seen" and ?stack = "if d \<in> set seen then stack else stack @ [d]"
    have "reuse_dependent g (work_of g h) tds d (marked (\<lambda>_. Reused) B s, seen, stack) =
        (marked (\<lambda>_. Reused) (insert d B) s, ?seen, ?stack)"
      using d True mark_skip_marked [of d "\<lambda>_. Reused" B s] by (simp add: reuse_dependent_def work_of_def)
    moreover obtain seen' new where
        "fold (reuse_dependent g (work_of g h) tds) ds (marked (\<lambda>_. Reused) (insert d B) s, ?seen, ?stack) =
           (marked (\<lambda>_. Reused) (insert d B \<union> {x \<in> set ds. ?P x}) s, seen', ?stack @ new)"
        "set new = {x \<in> set ds. ?P x} - set ?seen" "set seen' = set ?seen \<union> set new"
      using Cons.IH [of "insert d B" ?seen ?stack] Cons.prems by auto
    moreover have "insert d B \<union> {x \<in> set ds. ?P x} = B \<union> {x \<in> set (d # ds). ?P x}" using True by auto
    ultimately show ?thesis
      using True by (intro exI [of _ seen'] exI [of _ "if d \<in> set seen then new else d # new"]) auto
  qed
qed

lemma phases_range:
  assumes "graph_ok g" and "hash_ok E" and "h < length (weights g)" and "x \<in> reach (phases g (dependents_of E g) tds h) {h}"
  shows "x < length (weights g) \<and> work_of g x = work_of g h \<and> (h, x) \<in> (same_work g)\<^sup>*"
proof -
  have "(h, x) \<in> (edges (phases g (dependents_of E g) tds h))\<^sup>*" using assms(4) by (simp add: reach_def)
  then show ?thesis
  proof (induction rule: rtrancl_induct)
    case (step y z)
    then have z: "(y, z) \<in> edge_rel g" "work_of g z = work_of g h"
      using dependents_ok(2) [OF assms(1,2)] by (auto simp: phases_def)
    then show ?case using step.IH assms(1) by (auto simp: graph_ok_def same_work_def intro: rtrancl_into_rtrancl)
  qed (use assms in simp)
qed

lemma reuse_walk_marks:
  assumes g: "graph_ok g" "hash_ok E" "h < length (weights g)"
    and "mark_inv (phases g (dependents_of E g) tds h) {h} (set seen) (set stack)"
    and "h \<in> B" "B \<subseteq> reach (phases g (dependents_of E g) tds h) {h}"
    and "\<forall>x \<in> set seen. x \<in> set stack \<or> set (phases g (dependents_of E g) tds h x) \<subseteq> B"
  shows "reuse_walk g (work_of g h) tds (dependents_of E g) (marked (\<lambda>_. Reused) (A \<union> B) s) seen stack =
    Inr (marked (\<lambda>_. Reused) (A \<union> reach (phases g (dependents_of E g) tds h) {h}) s)"
  using assms(4-)
proof (induction "walk_left g seen stack" arbitrary: seen stack B rule: less_induct)
  case less
  let ?f = "phases g (dependents_of E g) tds h"
  show ?case
  proof (cases "vec_pop stack")
    case None
    have r: "set seen = reach ?f {h}" using lifo.mark_done [OF less.prems(1) None] .
    have "stack = []" using None by (simp add: vec_pop_def split: if_splits)
    then have "reach ?f {h} \<subseteq> B" using less.prems(2,3,4) r by (intro reach_least) (auto simp: subset_iff)
    then show ?thesis using None less.prems(3) by (simp add: reuse_walk.simps subset_antisym)
  next
    case (Some p)
    obtain c rest where p: "vec_pop stack = Some (c, rest)" using Some by (cases p) auto
    have c: "c \<in> reach ?f {h}" using lifo.pop_Some [OF p] less.prems(1) by (auto simp: mark_inv_def)
    have cN: "c < length (weights g)" using phases_range [OF g c] by simp
    have ds: "set (dependents_of E g ! c) \<subseteq> {..< length (weights g)}"
        "set (?f c) = {d \<in> set (dependents_of E g ! c). work_of g d = work_of g h \<and> d \<notin> set tds}"
      using dependents_ok(2) [OF g(1,2) cN] g(1) by (auto simp: graph_ok_def phases_def)
    obtain seen1 new where w1: "fold (reuse_dependent g (work_of g h) tds) (dependents_of E g ! c) (marked (\<lambda>_. Reused) (A \<union> B) s, seen, rest) =
          (marked (\<lambda>_. Reused) (A \<union> (B \<union> set (?f c))) s, seen1, rest @ new)"
        "set new = set (?f c) - set seen" "set seen1 = set seen \<union> set new"
      using reuse_dependents_marks [OF ds(1), of h tds "A \<union> B" s seen rest] ds(2) by (auto simp: Un_assoc)
    have step: "reuse_walk g (work_of g h) tds (dependents_of E g) (marked (\<lambda>_. Reused) (A \<union> B) s) seen stack =
        reuse_walk g (work_of g h) tds (dependents_of E g) (marked (\<lambda>_. Reused) (A \<union> (B \<union> set (?f c))) s) seen1 (rest @ new)"
      using p w1(1) cN dependents_ok(1) [OF g(1,2)] by (subst reuse_walk.simps) (simp add: vec_at_def)
    have m: "mark_inv ?f {h} (set seen1) (set (rest @ new))"
      using lifo.mark_step [OF less.prems(1) p w1(2)] w1(3) by (simp add: push_all_def)
    have left: "walk_left g seen1 (rest @ new) < walk_left g seen stack"
      using reuse_dependents_left [OF w1(1)] walk_left_pop [OF p] by simp
    have sub: "B \<union> set (?f c) \<subseteq> reach ?f {h}" using less.prems(3) reach_step [OF c] by simp
    have "x \<in> set (rest @ new) \<or> set (?f x) \<subseteq> B \<union> set (?f c)" if "x \<in> set seen1" for x
      using that less.prems(4) w1(3) lifo.pop_Some [OF p] by auto
    then show ?thesis using less.hyps [OF left m _ sub] less.prems(2) step by simp
  qed
qed

definition heads :: "task_graph \<Rightarrow> nat list \<Rightarrow> nat set" where
  "heads g ds = {d \<in> set ds. is_test g d}"

lemma propagate_reuse_marks:
  assumes g: "graph_ok g" "hash_ok E" and "set ds \<subseteq> {..< length (weights g)}"
  shows "\<exists>nodes. propagate_reuse g (dependents_of E g) tds ds reused (marked (\<lambda>_. Reused) A s) =
    Inr (nodes, marked (\<lambda>_. Reused) (A \<union> (\<Union>h \<in> heads g ds. reach (phases g (dependents_of E g) tds h) {h})) s)"
  using assms(3)
proof (induction ds arbitrary: reused A)
  case (Cons d ds)
  have d: "node_weight g d = Some (weights g ! d)" "d < length (weights g)" using Cons.prems by (simp_all add: node_weight_def)
  show ?case
  proof (cases "is_test g d")
    case False
    then have "heads g (d # ds) = heads g ds" by (auto simp: heads_def)
    then show ?thesis using Cons.IH [of reused A] Cons.prems d False by (auto simp: is_test_def is_barrier_def)
  next
    case True
    let ?f = "phases g (dependents_of E g) tds d"
    have "reuse_walk g (work_of g d) tds (dependents_of E g) (marked (\<lambda>_. Reused) (A \<union> {d}) s) [d] [d] =
        Inr (marked (\<lambda>_. Reused) (A \<union> reach ?f {d}) s)"
      using reuse_walk_marks [OF g d(2), of tds "[d]" "[d]" "{d}" A s] lifo.mark_start [of ?f "[d]"] reach_base [of "{d}" ?f] by simp
    then have "propagate_reuse g (dependents_of E g) tds (d # ds) reused (marked (\<lambda>_. Reused) A s) =
        propagate_reuse g (dependents_of E g) tds ds (reused @ dbt_nodes (weights g ! d)) (marked (\<lambda>_. Reused) (A \<union> reach ?f {d}) s)"
      using d True mark_skip_marked [of d "\<lambda>_. Reused" A s] by (simp add: is_test_def is_barrier_def work_of_def)
    moreover have "heads g (d # ds) = insert d (heads g ds)" using True by (auto simp: heads_def)
    ultimately show ?thesis using Cons.IH [of "reused @ dbt_nodes (weights g ! d)" "A \<union> reach ?f {d}"] Cons.prems
      by (simp add: Un_assoc)
  qed
qed (simp add: heads_def)

text \<open>Every task with the work id of a test is a phase of that test, not the barrier.\<close>

definition tests_uniform :: "task_graph \<Rightarrow> bool" where
  "tests_uniform g \<longleftrightarrow> (\<forall>d < length (weights g). \<forall>e < length (weights g).
     is_test g d \<and> work_of g e = work_of g d \<longrightarrow> is_test g e)"

lemma reused_phases:
  assumes g: "graph_ok g" "hash_ok E" "i < length (weights g)"
  shows "(\<Union>h \<in> heads g (dependents_of E g ! i). reach (phases g (dependents_of E g) (dependents_of E g ! i) h) {h}) \<subseteq> reused_by g i"
    and "tests_uniform g \<Longrightarrow>
      reused_by g i \<subseteq> (\<Union>h \<in> heads g (dependents_of E g ! i). reach (phases g (dependents_of E g) (dependents_of E g ! i) h) {h})"
proof -
  let ?tds = "dependents_of E g ! i" and ?f = "phases g (dependents_of E g) (dependents_of E g ! i)"
  have tds: "set ?tds = {b. (i, b) \<in> edge_rel g}" using dependents_ok(2) [OF g] by simp
  have hN: "h < length (weights g)" if "h \<in> heads g ?tds" for h using that tds g(1) by (auto simp: heads_def graph_ok_def)
  show "(\<Union>h \<in> heads g ?tds. reach (?f h) {h}) \<subseteq> reused_by g i"
  proof
    fix x assume "x \<in> (\<Union>h \<in> heads g ?tds. reach (?f h) {h})"
    then obtain h where h: "h \<in> heads g ?tds" "x \<in> reach (?f h) {h}" by blast
    have "(h, x) \<in> (same_work g)\<^sup>*" using phases_range [OF g(1,2) hN [OF h(1)] h(2)] by simp
    then show "x \<in> reused_by g i" using h(1) tds by (auto simp: reused_by_def heads_def)
  qed
  assume uniform: "tests_uniform g"
  show "reused_by g i \<subseteq> (\<Union>h \<in> heads g ?tds. reach (?f h) {h})"
  proof
    fix y assume "y \<in> reused_by g i"
    then obtain h where h: "h \<in> heads g ?tds" "(h, y) \<in> (same_work g)\<^sup>*" using tds by (auto simp: reused_by_def heads_def)
    from h(2) show "y \<in> (\<Union>h \<in> heads g ?tds. reach (?f h) {h})"
    proof (induction rule: rtrancl_induct)
      case base
      then show ?case using h(1) reach_base [of "{h}" "?f h"] by auto
    next
      case (step x z)
      then obtain k where k: "k \<in> heads g ?tds" "x \<in> reach (?f k) {k}" by blast
      have x: "x < length (weights g)" "work_of g x = work_of g k" using phases_range [OF g(1,2) hN [OF k(1)] k(2)] by simp_all
      have z: "(x, z) \<in> edge_rel g" "work_of g z = work_of g k" "z < length (weights g)"
        using step.hyps(2) x g(1) by (auto simp: same_work_def graph_ok_def)
      show ?case
      proof (cases "z \<in> set ?tds")
        case True
        have "is_test g k" using k(1) by (simp add: heads_def)
        then have "is_test g z" using uniform hN [OF k(1)] z(2,3) unfolding tests_uniform_def by blast
        then have "z \<in> heads g ?tds" using True by (simp add: heads_def)
        then show ?thesis using reach_base [of "{z}" "?f z"] by auto
      next
        case False
        then have "z \<in> set (?f k x)" using z dependents_ok(2) [OF g(1,2) x(1)] by (simp add: phases_def)
        then have "z \<in> reach (?f k) {k}" using reach_step [OF k(2)] by auto
        then show ?thesis using k(1) by auto
      qed
    qed
  qed
qed

lemma propagate_reuse_downstream:
  assumes "graph_ok g" and "hash_ok E" and "i < length (weights g)"
  shows "\<exists>nodes R. propagate_reuse_to_downstream_tests g (dependents_of E g) i s = Inr (nodes, marked (\<lambda>_. Reused) R s) \<and>
    R \<subseteq> reused_by g i \<and> (tests_uniform g \<longrightarrow> R = reused_by g i)"
proof -
  have "set (dependents_of E g ! i) \<subseteq> {..< length (weights g)}"
    using dependents_ok(2) [OF assms] assms(1) by (auto simp: graph_ok_def)
  then obtain nodes where "propagate_reuse g (dependents_of E g) (dependents_of E g ! i) (dependents_of E g ! i) [] s =
      Inr (nodes, marked (\<lambda>_. Reused) (\<Union>h \<in> heads g (dependents_of E g ! i).
        reach (phases g (dependents_of E g) (dependents_of E g ! i) h) {h}) s)"
    using propagate_reuse_marks [OF assms(1,2), of "dependents_of E g ! i" "dependents_of E g ! i" "[]" "{}" s] by auto
  moreover have "i < length (dependents_of E g)" using dependents_ok(1) [OF assms(1,2)] assms(3) by simp
  ultimately show ?thesis using reused_phases [OF assms]
    by (auto simp: propagate_reuse_to_downstream_tests_def vec_at_def subset_antisym)
qed

end
