(* ===== verification/Visitor_Correct.thy ===== *)
theory Visitor_Correct imports Visitor_Walks begin

text \<open>
  The visitor as a sequence of steps, the order of its log, and the contract a strategy fulfils: a task it
  hands out has all its predecessors behind it, and when it has nothing left every task is done.
\<close>

section \<open>Steps\<close>

inductive visit_step :: "visit_env \<Rightarrow> task_graph \<Rightarrow> VisitStrategy \<Rightarrow> visit_state \<Rightarrow> visit_state \<Rightarrow> bool"
  for E g strategy where
  asking: "visit_step E g strategy s (s\<lparr>asked := Suc (asked s)\<rparr>)"
| taking: "try_pop_pending_node strategy (waiting s) (pending s) = Some (i, rest) \<Longrightarrow>
    take_pending E g strategy (dependents_of E g) i (s\<lparr>pending := rest\<rparr>) = Inr s' \<Longrightarrow> visit_step E g strategy s s'"
| finishing: "k < length (waiting s) \<Longrightarrow> finish_task E g strategy (dependents_of E g) k s = Inr s' \<Longrightarrow>
    visit_step E g strategy s s'"

lemma fill_waiting_steps:
  "fill_waiting E g strategy (dependents_of E g) s = (r, s') \<Longrightarrow>
   \<exists>t. (visit_step E g strategy)\<^sup>*\<^sup>* s t \<and> s' = t\<lparr>pending := pending s'\<rparr> \<and> (r = Inr () \<longrightarrow> s' = t)"
proof (induction "visit_left s" arbitrary: s rule: less_induct)
  case less
  show ?case
  proof (cases "try_pop_pending_node strategy (waiting s) (pending s)")
    case None
    then have "s' = s" using less.prems by (simp add: fill_waiting.simps)
    then show ?thesis by auto
  next
    case (Some p)
    obtain i rest where p: "p = (i, rest)" by (cases p)
    have v: "vec_pop (pending s) = Some (i, rest)" using Some p by (auto simp: try_pop_pending_node_def split: if_splits)
    show ?thesis
    proof (cases "take_pending E g strategy (dependents_of E g) i (s\<lparr>pending := rest\<rparr>)")
      case (Inl e)
      then have "r = Inl e" "s' = s\<lparr>pending := rest\<rparr>" using less.prems Some p by (simp_all add: fill_waiting.simps)
      then show ?thesis by (intro exI [of _ s]) simp
    next
      case (Inr s1)
      have "fill_waiting E g strategy (dependents_of E g) s1 = (r, s')"
        using less.prems by (subst (asm) fill_waiting.simps) (simp add: Some p Inr)
      from less.hyps [OF take_pending_left [OF Inr v] this]
      show ?thesis using visit_step.taking [OF Some [unfolded p] Inr] by (metis converse_rtranclp_into_rtranclp)
    qed
  qed
qed

lemma receive_task_steps:
  assumes "receive_task E g strategy (dependents_of E g) s = (r, s')"
  shows "(visit_step E g strategy)\<^sup>*\<^sup>* s s'"
proof (cases "waiting s = []")
  case True
  then show ?thesis using assms by (simp add: receive_task_def)
next
  case False
  let ?s = "s\<lparr>asked := Suc (asked s)\<rparr>" and ?k = "arrival E (received s) mod length (waiting s)"
  have a: "visit_step E g strategy s ?s" by (rule visit_step.asking)
  show ?thesis
  proof (cases "finish_task E g strategy (dependents_of E g) ?k ?s")
    case (Inr t)
    then have "s' = ?s \<or> s' = t" using assms False by (auto simp: receive_task_def ask_token_def split: if_splits)
    moreover have "visit_step E g strategy ?s t" using Inr False by (intro visit_step.finishing [of ?k]) simp_all
    ultimately show ?thesis using a by (metis rtranclp.rtrancl_into_rtrancl r_into_rtranclp)
  next
    case Inl
    then have "s' = ?s" using assms False by (auto simp: receive_task_def ask_token_def split: if_splits)
    then show ?thesis using a by (metis r_into_rtranclp)
  qed
qed

lemma visit_loop_steps:
  "visit_loop E g strategy (dependents_of E g) s = (r, s') \<Longrightarrow>
   \<exists>t. (visit_step E g strategy)\<^sup>*\<^sup>* s t \<and> s' = t\<lparr>pending := pending s'\<rparr> \<and>
     (r = Inr () \<longrightarrow> s' = t \<and> pending t = [] \<and> waiting t = [])"
proof (induction "visit_left s" arbitrary: s rule: less_induct)
  case less
  obtain a s1 where a: "ask_token E s = (a, s1)" by (cases "ask_token E s")
  have s1: "visit_step E g strategy s s1" using a visit_step.asking [of E g strategy s] by (auto simp: ask_token_def)
  show ?case
  proof (cases a)
    case (Inl e)
    then have "r = Inl e" "s' = s1" using less.prems a by (simp_all add: visit_loop.simps)
    then show ?thesis using s1 by auto
  next
    case (Inr u)
    obtain b s2 where b: "fill_waiting E g strategy (dependents_of E g) s1 = (b, s2)"
      by (cases "fill_waiting E g strategy (dependents_of E g) s1")
    obtain t2 where t2: "(visit_step E g strategy)\<^sup>*\<^sup>* s1 t2" "s2 = t2\<lparr>pending := pending s2\<rparr>" "b = Inr () \<longrightarrow> s2 = t2"
      using fill_waiting_steps [OF b] by blast
    show ?thesis
    proof (cases b)
      case Inl_b: (Inl e)
      then have "r = Inl e" "s' = s2" using less.prems a Inr b by (simp_all add: visit_loop.simps)
      then show ?thesis using s1 t2 by (auto intro: converse_rtranclp_into_rtranclp)
    next
      case Inr_b: (Inr v)
      obtain c s3 where c: "receive_task E g strategy (dependents_of E g) s2 = (c, s3)"
        by (cases "receive_task E g strategy (dependents_of E g) s2")
      have t3: "(visit_step E g strategy)\<^sup>*\<^sup>* s s3"
        using s1 t2(1,3) Inr_b receive_task_steps [OF c] by (auto intro: converse_rtranclp_into_rtranclp rtranclp_trans)
      show ?thesis
      proof (cases c)
        case Inl_c: (Inl e)
        then have "r = Inl e" "s' = s3" using less.prems a Inr b Inr_b c by (simp_all add: visit_loop.simps)
        then show ?thesis using t3 by auto
      next
        case Inr_c: (Inr w)
        show ?thesis
        proof (cases "pending s3 = [] \<and> waiting s3 = []")
          case True
          then have "r = Inr ()" "s' = s3" using less.prems a Inr b Inr_b c Inr_c by (simp_all add: visit_loop.simps)
          then show ?thesis using t3 True by auto
        next
          case False
          then have "visit_loop E g strategy (dependents_of E g) s3 = (r, s')"
            using less.prems a Inr b Inr_b c Inr_c by (subst (asm) visit_loop.simps) (auto split: if_splits)
          moreover have "visit_left s3 < visit_left s"
            using visit_turn_left [of E s u s1 g strategy "dependents_of E g" v s2 w s3] a Inr b Inr_b c Inr_c False by simp
          ultimately show ?thesis using less.hyps t3 by (meson rtranclp_trans)
        qed
      qed
    qed
  qed
qed

section \<open>The log\<close>

definition ended_in :: "visit_event list \<Rightarrow> nat set" where
  "ended_in l = {i. (\<exists>r. TaskFinished i r \<in> set l) \<or> (\<exists>r. TaskSkipped i r \<in> set l)}"

definition started_in :: "visit_event list \<Rightarrow> nat set" where
  "started_in l = {i. \<exists>n. TaskStarted i n \<in> set l}"

lemma in_log_snoc [simp]:
  "ended_in (l @ [TaskStarted i n]) = ended_in l" "ended_in (l @ [TaskFinished i r]) = insert i (ended_in l)"
  "ended_in (l @ [TaskSkipped i q]) = insert i (ended_in l)"
  "started_in (l @ [TaskStarted i n]) = insert i (started_in l)" "started_in (l @ [TaskFinished i r]) = started_in l"
  "started_in (l @ [TaskSkipped i q]) = started_in l"
  "ended_in [] = {}" "started_in [] = {}"
  by (auto simp: ended_in_def started_in_def)

text \<open>Every event of a log, judged with the events before it.\<close>

definition every_event :: "(visit_event list \<Rightarrow> visit_event \<Rightarrow> bool) \<Rightarrow> visit_event list \<Rightarrow> bool" where
  "every_event P l \<longleftrightarrow> (\<forall>xs e ys. l = xs @ e # ys \<longrightarrow> P xs e)"

lemma every_event_simps [simp]: "every_event P []" "every_event P (l @ [e]) \<longleftrightarrow> every_event P l \<and> P l e"
proof -
  show "every_event P []" by (simp add: every_event_def)
  show "every_event P (l @ [e]) \<longleftrightarrow> every_event P l \<and> P l e"
  proof
    assume ok: "every_event P (l @ [e])"
    have "P xs d" if "l = xs @ d # ys" for xs d ys
      using ok [unfolded every_event_def, rule_format, of xs d "ys @ [e]"] that by simp
    then show "every_event P l \<and> P l e"
      using ok [unfolded every_event_def, rule_format, of l e "[]"] by (simp add: every_event_def)
  next
    assume ok: "every_event P l \<and> P l e"
    show "every_event P (l @ [e])"
      unfolding every_event_def
    proof (intro allI impI)
      fix xs d ys assume split: "l @ [e] = xs @ d # ys"
      show "P xs d"
      proof (cases ys rule: rev_cases)
        case Nil
        then show ?thesis using split ok by simp
      next
        case (snoc zs z)
        then have "l = xs @ d # zs" using split by simp
        then show ?thesis using ok by (simp add: every_event_def)
      qed
    qed
  qed
qed

text \<open>
  A task is started or skipped once, behind all its predecessors, and finishes once, after its start.
\<close>

definition event_ok :: "task_graph \<Rightarrow> visit_event list \<Rightarrow> visit_event \<Rightarrow> bool" where
  "event_ok g l e = (case e of
       TaskStarted i n \<Rightarrow> i < length (weights g) \<and> i \<notin> started_in l \<union> ended_in l \<and> preds g i \<subseteq> ended_in l
     | TaskSkipped i r \<Rightarrow> i < length (weights g) \<and> i \<notin> started_in l \<union> ended_in l \<and> preds g i \<subseteq> ended_in l
     | TaskFinished i r \<Rightarrow> i \<in> started_in l \<and> i \<notin> ended_in l)"

definition log_ok :: "task_graph \<Rightarrow> visit_event list \<Rightarrow> bool" where
  "log_ok g = every_event (event_ok g)"

lemma log_ok_simps [simp]: "log_ok g []" "log_ok g (l @ [e]) \<longleftrightarrow> log_ok g l \<and> event_ok g l e"
  by (simp_all add: log_ok_def)

lemma log_ok_range: "log_ok g l \<Longrightarrow> started_in l \<union> ended_in l \<subseteq> {..< length (weights g)}"
proof (induction l rule: rev_induct)
  case (snoc e l)
  then show ?case by (cases e) (auto simp: event_ok_def)
qed simp

text \<open>What has been started or ended has only ended tasks before it.\<close>

lemma log_ok_preds: "log_ok g l \<Longrightarrow> b \<in> started_in l \<union> ended_in l \<Longrightarrow> preds g b \<subseteq> ended_in l"
proof (induction l rule: rev_induct)
  case (snoc e l)
  then show ?case by (cases e) (auto simp: event_ok_def)
qed simp

lemma log_ok_upstream:
  assumes "log_ok g l" and "(a, b) \<in> (edge_rel g)\<^sup>+" and "b \<in> started_in l \<union> ended_in l"
  shows "a \<in> ended_in l"
  using assms(2,3)
proof (induction rule: converse_trancl_induct)
  case (base a)
  then show ?case using log_ok_preds [OF assms(1), of b] by (auto simp: preds_def)
next
  case (step a c)
  then show ?case using log_ok_preds [OF assms(1), of c] by (auto simp: preds_def)
qed

section \<open>What every step keeps\<close>

definition running :: "visit_state \<Rightarrow> nat set" where
  "running s = fst ` set (waiting s)"

definition base_inv :: "task_graph \<Rightarrow> visit_state \<Rightarrow> bool" where
  "base_inv g s \<longleftrightarrow> log_ok g (visit_log s) \<and> distinct (map fst (waiting s)) \<and>
     running s = started_in (visit_log s) - ended_in (visit_log s)"

definition processed :: "visit_state \<Rightarrow> nat set" where
  "processed s = started_in (visit_log s) \<union> ended_in (visit_log s)"

lemma base_start: "base_inv g (visit_start E g first)"
  by (simp add: base_inv_def visit_start_def running_def)

lemma release_task_keeps:
  assumes "release_task strategy dependents i s = Inr s'"
  shows "waiting s' = waiting s" "visit_log s' = visit_log s" "skips s' = skips s" "slots s' = slots s"
    "run_stats s' = run_stats s"
  using assms by (auto simp: release_task_def rmap_eq_Inr split: prod.splits)

text \<open>The shape of the two steps that change the log.\<close>

lemma take_pending_cases:
  assumes "take_pending E g strategy dependents i s = Inr s'"
  obtains (skipped) r t where "skips s i = Some r" "release_task strategy dependents i s = Inr t"
      "s' = t\<lparr>visit_log := visit_log s @ [TaskSkipped i r]\<rparr>"
  | (started) slot pool where "skips s i = None" "acquire_slot (slots s) = (slot, pool)"
      "s' = s\<lparr>slots := pool, waiting := waiting s @ [(i, slot)], visit_log := visit_log s @ [TaskStarted i slot]\<rparr>"
proof (cases "skips s i")
  case None
  obtain slot pool where p: "acquire_slot (slots s) = (slot, pool)" by (cases "acquire_slot (slots s)")
  show ?thesis using assms None p by (intro started [of slot pool]) (auto simp: take_pending_def start_task_def split: option.splits)
next
  case (Some r)
  obtain t where t: "release_task strategy dependents i s = Inr t" "s' = t\<lparr>visit_log := visit_log t @ [TaskSkipped i r]\<rparr>"
    using assms Some by (auto simp: take_pending_def skip_task_def rmap_eq_Inr split: option.splits)
  show ?thesis using skipped [OF Some t(1)] t(2) release_task_keeps(2) [OF t(1)] by simp
qed

lemma finish_task_cases:
  assumes "finish_task E g strategy dependents k s = Inr s'" and "waiting s ! k = (i, slot)"
  obtains failed reused sk t where
      "handle_task_result g dependents (fail_fast_flag E) (should_reuse_downstream_tests E) i (outcome E i) (skips s) = Inr (failed, reused, sk)"
      "release_task strategy dependents i t = Inr s'" "indegree t = indegree s" "pending t = pending s"
      "waiting t = take k (waiting s) @ drop (Suc k) (waiting s)" "skips t = sk" "slots t = release_slot slot (slots s)"
      "visit_log t = visit_log s @ [TaskFinished i (outcome E i)]"
      "run_stats t = run_stats (record_skipped_stats reused Reused (record_skipped_stats failed FailedPhase s))"
  using assms by (auto simp: finish_task_def Let_def rbind_eq_Inr record_skipped_stats_def split: prod.splits)

lemma base_take:
  assumes "base_inv g s" and "take_pending E g strategy dependents i (s\<lparr>pending := rest\<rparr>) = Inr s'"
    and "i < length (weights g)" "i \<notin> processed s" "preds g i \<subseteq> ended_in (visit_log s)"
  shows "base_inv g s'"
  using assms(2)
proof (cases rule: take_pending_cases)
  case (skipped r t)
  then show ?thesis using assms(1,3-) release_task_keeps [OF skipped(2)]
    by (auto simp: base_inv_def running_def event_ok_def processed_def)
next
  case (started slot pool)
  have "i \<notin> running s" using assms(1,4) by (auto simp: base_inv_def processed_def)
  then show ?thesis using started assms(1,3-) by (auto simp: base_inv_def running_def event_ok_def processed_def)
qed

lemma removed_middle:
  "distinct (map fst (xs @ (i, n) # ys)) \<Longrightarrow>
   distinct (map fst (xs @ ys)) \<and> fst ` set (xs @ ys) = fst ` set (xs @ (i, n) # ys) - {i}"
  by force

lemma running_removed:
  assumes "distinct (map fst ws)" and "k < length ws" and "ws ! k = (i, n)"
  shows "distinct (map fst (take k ws @ drop (Suc k) ws)) \<and> fst ` set (take k ws @ drop (Suc k) ws) = fst ` set ws - {i}"
proof -
  have "ws = take k ws @ (i, n) # drop (Suc k) ws" using assms(2,3) by (metis id_take_nth_drop)
  then show ?thesis using removed_middle [of "take k ws" i n "drop (Suc k) ws"] assms(1) by metis
qed

lemma running_nth: "k < length (waiting s) \<Longrightarrow> waiting s ! k = (i, n) \<Longrightarrow> i \<in> running s"
  using nth_mem [of k "waiting s"] image_eqI [of i fst "waiting s ! k" "set (waiting s)"] by (simp add: running_def)

lemma base_finish:
  assumes "base_inv g s" and "k < length (waiting s)" and "finish_task E g strategy dependents k s = Inr s'"
  shows "base_inv g s'"
proof -
  obtain i slot where i: "waiting s ! k = (i, slot)" by (cases "waiting s ! k")
  have e: "i \<in> started_in (visit_log s)" "i \<notin> ended_in (visit_log s)"
    using running_nth [OF assms(2) i] assms(1) by (auto simp: base_inv_def)
  obtain t where t: "release_task strategy dependents i t = Inr s'"
      "waiting t = take k (waiting s) @ drop (Suc k) (waiting s)" "visit_log t = visit_log s @ [TaskFinished i (outcome E i)]"
    using assms(3) i by (elim finish_task_cases) blast
  have "distinct (map fst (waiting t))" "running t = running s - {i}"
    using running_removed [OF _ assms(2) i] assms(1) t(2) by (simp_all add: base_inv_def running_def)
  moreover have "log_ok g (visit_log t)" using assms(1) t(3) e by (simp add: base_inv_def event_ok_def)
  ultimately have "base_inv g t" using assms(1) t(3) by (auto simp: base_inv_def)
  then show ?thesis using release_task_keeps [OF t(1)] by (simp add: base_inv_def running_def)
qed

end
