(* ===== verification/Visitor_Skips.thy ===== *)
theory Visitor_Skips imports Visitor_Correct begin

text \<open>
  Two invariants of the visitor's steps: every entry of the skip map is explained by a finished task and
  every finished task has left its entries there; and a task that starts takes the lowest slot no running
  task has.
\<close>

section \<open>What a finished task leaves in the skip map\<close>

definition propagates :: "visit_env \<Rightarrow> task_graph \<Rightarrow> nat \<Rightarrow> bool" where
  "propagates E g i \<longleftrightarrow> is_failure (outcome E i) \<and> (fail_fast_flag E \<or> \<not> model_should_continue_on_error g i)"

definition reuses :: "visit_env \<Rightarrow> nat \<Rightarrow> bool" where
  "reuses E i \<longleftrightarrow> (case outcome E i of Inr st \<Rightarrow> is_reused st | Inl _ \<Rightarrow> False) \<and> should_reuse_downstream_tests E"

definition causes :: "visit_env \<Rightarrow> task_graph \<Rightarrow> nat \<Rightarrow> nat \<Rightarrow> SkipReason \<Rightarrow> bool" where
  "causes E g i b r \<longleftrightarrow> propagates E g i \<and> b \<in> blocked g i \<and> r = failure_reason g i b \<or>
     reuses E i \<and> b \<in> reused_by g i \<and> r = Reused"

lemma blocked_downstream: "b \<in> blocked g i \<Longrightarrow> (i, b) \<in> (edge_rel g)\<^sup>+"
  unfolding blocked_def by (auto simp: feeds_def elim: trancl_mono)

lemma reused_downstream: "b \<in> reused_by g i \<Longrightarrow> (i, b) \<in> (edge_rel g)\<^sup>+"
proof -
  assume "b \<in> reused_by g i"
  then obtain h where h: "(i, h) \<in> edge_rel g" "(h, b) \<in> (same_work g)\<^sup>*" by (auto simp: reused_by_def)
  have "(h, b) \<in> (edge_rel g)\<^sup>*" by (rule rtrancl_mono [THEN subsetD, OF _ h(2)]) (auto simp: same_work_def)
  then show ?thesis using h(1) by (simp add: rtrancl_into_trancl2)
qed

lemma causes_downstream: "causes E g i b r \<Longrightarrow> (i, b) \<in> (edge_rel g)\<^sup>+"
  by (auto simp: causes_def dest: blocked_downstream reused_downstream)

lemma handle_task_result_marks:
  assumes "graph_ok g" and "hash_ok E" and "i < length (weights g)" and "outcome E i \<noteq> Inr SkippedUpstreamFailed"
  shows "\<exists>failed reused B r. handle_task_result g (dependents_of E g) (fail_fast_flag E) (should_reuse_downstream_tests E) i
       (outcome E i) s = Inr (failed, reused, marked r B s) \<and>
     (\<forall>b \<in> B. causes E g i b (r b)) \<and> (propagates E g i \<longrightarrow> B = blocked g i) \<and>
     (reuses E i \<and> tests_uniform g \<longrightarrow> B = reused_by g i)"
proof (cases "is_failure (outcome E i)")
  case True
  then have n: "\<not> reuses E i" by (auto simp: is_failure_def reuses_def split: sum.splits)
  show ?thesis
  proof (cases "propagates E g i")
    case p: True
    obtain failed where "propagate_failure g (dependents_of E g) i s = Inr (failed, marked (failure_reason g i) (blocked g i) s)"
      using propagate_failure_marks [OF assms(1-3)] by blast
    then show ?thesis using True p n
      by (intro exI [of _ failed] exI [of _ "[]"] exI [of _ "blocked g i"] exI [of _ "failure_reason g i"])
        (auto simp: handle_task_result_def propagates_def causes_def)
  next
    case False
    then show ?thesis using True n
      by (intro exI [of _ "[]"] exI [of _ "{}"]) (auto simp: handle_task_result_def propagates_def)
  qed
next
  case False
  then have n: "\<not> propagates E g i" by (simp add: propagates_def)
  obtain st where st: "outcome E i = Inr st" using False by (auto simp: is_failure_def split: sum.splits)
  show ?thesis
  proof (cases "reuses E i")
    case u: True
    obtain reused R where "propagate_reuse_to_downstream_tests g (dependents_of E g) i s = Inr (reused, marked (\<lambda>_. Reused) R s)"
        "R \<subseteq> reused_by g i" "tests_uniform g \<longrightarrow> R = reused_by g i"
      using propagate_reuse_downstream [OF assms(1-3)] by blast
    then show ?thesis using False u n st
      by (intro exI [of _ "[]"] exI [of _ reused] exI [of _ R] exI [of _ "\<lambda>_. Reused"])
        (auto simp: handle_task_result_def reuses_def causes_def)
  next
    case nu: False
    then show ?thesis using False n st assms(4)
      by (intro exI [of _ "[]"] exI [of _ "{}"]) (auto simp: handle_task_result_def reuses_def split: if_splits)
  qed
qed

text \<open>When the handler does not answer, the task claimed to be skipped by itself.\<close>

lemma handle_task_result_panics:
  "outcome E i = Inr SkippedUpstreamFailed \<Longrightarrow> handle_task_result g deps ff rt i (outcome E i) s \<noteq> Inr q"
  by (simp add: handle_task_result_def is_failure_def)

definition skip_inv :: "visit_env \<Rightarrow> task_graph \<Rightarrow> visit_state \<Rightarrow> bool" where
  "skip_inv E g s \<longleftrightarrow>
     (\<forall>b r. skips s b = Some r \<longrightarrow> (\<exists>i. TaskFinished i (outcome E i) \<in> set (visit_log s) \<and> causes E g i b r)) \<and>
     (\<forall>i q. TaskFinished i q \<in> set (visit_log s) \<longrightarrow> q = outcome E i \<and> (propagates E g i \<longrightarrow> blocked g i \<subseteq> dom (skips s)) \<and>
        (reuses E i \<and> tests_uniform g \<longrightarrow> reused_by g i \<subseteq> dom (skips s))) \<and>
     (\<forall>b \<in> started_in (visit_log s). skips s b = None) \<and>
     (\<forall>b r. TaskSkipped b r \<in> set (visit_log s) \<longrightarrow> skips s b = Some r)"

lemma skip_start: "skip_inv E g (visit_start E g first)"
  by (simp add: skip_inv_def visit_start_def)

lemma skip_take:
  assumes "skip_inv E g s" and "take_pending E g strategy dependents i (s\<lparr>pending := rest\<rparr>) = Inr s'"
  shows "skip_inv E g s'"
  using assms(2)
proof (cases rule: take_pending_cases)
  case (skipped r t)
  then show ?thesis using assms(1) release_task_keeps [OF skipped(2)] by (auto simp: skip_inv_def)
next
  case (started slot pool)
  then show ?thesis using assms(1) by (auto simp: skip_inv_def)
qed

lemma marked_Some: "marked r B s b = Some q \<longleftrightarrow> s b = Some q \<or> s b = None \<and> b \<in> B \<and> q = r b"
  by (auto simp: marked_def)

lemma dom_marked: "dom (marked r B s) = dom s \<union> B"
  by (auto simp: marked_def split: if_splits)

lemma skip_finish:
  assumes g: "graph_ok g" "hash_ok E" and base: "base_inv g s" and skip: "skip_inv E g s"
    and k: "k < length (waiting s)" and f: "finish_task E g strategy (dependents_of E g) k s = Inr s'"
  shows "skip_inv E g s'"
proof -
  obtain i slot where i: "waiting s ! k = (i, slot)" by (cases "waiting s ! k")
  have e: "i \<in> started_in (visit_log s)" "i \<notin> ended_in (visit_log s)"
    using running_nth [OF k i] base by (auto simp: base_inv_def)
  then have iN: "i < length (weights g)" using log_ok_range base unfolding base_inv_def by blast
  obtain failed reused sk t where t:
      "handle_task_result g (dependents_of E g) (fail_fast_flag E) (should_reuse_downstream_tests E) i (outcome E i) (skips s) = Inr (failed, reused, sk)"
      "release_task strategy (dependents_of E g) i t = Inr s'" "skips t = sk"
      "visit_log t = visit_log s @ [TaskFinished i (outcome E i)]"
    using finish_task_cases [OF f i] by metis
  have "outcome E i \<noteq> Inr SkippedUpstreamFailed" using t(1) handle_task_result_panics [of E i g] by fastforce
  then obtain B r where B: "sk = marked r B (skips s)" "\<forall>b \<in> B. causes E g i b (r b)"
      "propagates E g i \<longrightarrow> B = blocked g i" "reuses E i \<and> tests_uniform g \<longrightarrow> B = reused_by g i"
    using handle_task_result_marks [OF g iN, of "skips s"] t(1) by auto
  have fresh: "b \<notin> started_in (visit_log s) \<union> ended_in (visit_log s)" if "b \<in> B" for b
    using log_ok_upstream [of g "visit_log s" i b] causes_downstream [of E g i b] B(2) that e(2) base
    by (auto simp: base_inv_def)
  have s': "skips s' = marked r B (skips s)" "visit_log s' = visit_log s @ [TaskFinished i (outcome E i)]"
    using t(3,4) B(1) release_task_keeps [OF t(2)] by simp_all
  have "\<exists>j. TaskFinished j (outcome E j) \<in> set (visit_log s') \<and> causes E g j b q" if "skips s' b = Some q" for b q
  proof (cases "skips s b = Some q")
    case True
    then obtain j where "TaskFinished j (outcome E j) \<in> set (visit_log s)" "causes E g j b q"
      using skip unfolding skip_inv_def by blast
    then show ?thesis unfolding s' by auto
  next
    case False
    then show ?thesis using that B(2) unfolding s' by (auto simp: marked_Some)
  qed
  moreover have "q = outcome E j \<and> (propagates E g j \<longrightarrow> blocked g j \<subseteq> dom (skips s')) \<and>
      (reuses E j \<and> tests_uniform g \<longrightarrow> reused_by g j \<subseteq> dom (skips s'))" if "TaskFinished j q \<in> set (visit_log s')" for j q
  proof (cases "TaskFinished j q \<in> set (visit_log s)")
    case True
    then have "q = outcome E j \<and> (propagates E g j \<longrightarrow> blocked g j \<subseteq> dom (skips s)) \<and>
        (reuses E j \<and> tests_uniform g \<longrightarrow> reused_by g j \<subseteq> dom (skips s))"
      using skip unfolding skip_inv_def by presburger
    then show ?thesis unfolding s'(1) dom_marked by blast
  next
    case False
    then have "j = i" "q = outcome E i" using that by (simp_all add: s'(2))
    then show ?thesis using B(3,4) unfolding s'(1) dom_marked by blast
  qed
  moreover have "skips s' b = None" if "b \<in> started_in (visit_log s')" for b
    using that skip fresh [of b] unfolding s' skip_inv_def by (auto simp: marked_def)
  moreover have "skips s' b = Some q" if "TaskSkipped b q \<in> set (visit_log s')" for b q
    using that skip unfolding s' skip_inv_def by (auto simp: marked_def)
  ultimately show ?thesis unfolding skip_inv_def by blast
qed

section \<open>Slots\<close>

definition slots_in_use :: "visit_event list \<Rightarrow> int set" where
  "slots_in_use l = {n. \<exists>i. TaskStarted i n \<in> set l \<and> i \<notin> ended_in l}"

definition slot_event_ok :: "visit_event list \<Rightarrow> visit_event \<Rightarrow> bool" where
  "slot_event_ok l e = (case e of
       TaskStarted i n \<Rightarrow> 1 \<le> n \<and> n \<notin> slots_in_use l \<and> {1..<n} \<subseteq> slots_in_use l
     | _ \<Rightarrow> True)"

definition slot_inv :: "visit_state \<Rightarrow> bool" where
  "slot_inv s \<longleftrightarrow> every_event slot_event_ok (visit_log s) \<and>
     set (waiting s) = {(i, n). TaskStarted i n \<in> set (visit_log s) \<and> i \<notin> ended_in (visit_log s)} \<and>
     distinct (map snd (waiting s) @ free (slots s)) \<and>
     snd ` set (waiting s) \<union> set (free (slots s)) = {1..<next_id (slots s)} \<and> 1 \<le> next_id (slots s)"

lemma slot_start: "slot_inv (visit_start E g first)"
  by (auto simp: slot_inv_def visit_start_def new_slots_def)

lemma acquire_lowest:
  assumes "acquire_slot p = (n, p')" and "U \<union> set (free p) = {1..<next_id p}" and "U \<inter> set (free p) = {}"
    and "distinct (free p)" and "1 \<le> next_id p"
  shows "1 \<le> n \<and> n \<notin> U \<and> {1..<n} \<subseteq> U \<and> n \<notin> set (free p') \<and> insert n U \<union> set (free p') = {1..<next_id p'} \<and>
    insert n U \<inter> set (free p') = {} \<and> distinct (free p') \<and> 1 \<le> next_id p'"
proof (cases "free p = []")
  case True
  then have "n = next_id p" "p' = p\<lparr>next_id := next_id p + 1\<rparr>" using assms(1) by (auto simp: acquire_slot_def)
  then show ?thesis using True assms(2,5) by auto
next
  case False
  then have n: "n = Min (set (free p))" "p' = p\<lparr>free := remove1 n (free p)\<rparr>" using assms(1) by (auto simp: acquire_slot_def Let_def)
  have mem: "n \<in> set (free p)" using n(1) False by simp
  have low: "m \<notin> set (free p)" if "m < n" for m using that n(1) by (metis Min_le finite_set not_le)
  have r: "1 \<le> n" "n < next_id p" using mem assms(2) by auto
  have "{1..<n} \<subseteq> U" using assms(2) low r by fastforce
  moreover have "set (free p') = set (free p) - {n}" using n(2) assms(4) by simp
  ultimately show ?thesis using n(2) mem assms(2-5) r by auto
qed

lemma slot_take:
  assumes "slot_inv s" and "take_pending E g strategy dependents i (s\<lparr>pending := rest\<rparr>) = Inr s'" and "i \<notin> processed s"
  shows "slot_inv s'"
  using assms(2)
proof (cases rule: take_pending_cases)
  case (skipped r t)
  have s': "waiting s' = waiting s" "slots s' = slots s" "visit_log s' = visit_log s @ [TaskSkipped i r]"
    using skipped release_task_keeps [OF skipped(2)] by simp_all
  have eq: "{(j, n). TaskStarted j n \<in> set (visit_log s') \<and> j \<notin> ended_in (visit_log s')} =
      {(j, n). TaskStarted j n \<in> set (visit_log s) \<and> j \<notin> ended_in (visit_log s)}"
    using assms(3) by (auto simp: s' processed_def started_in_def)
  have "every_event slot_event_ok (visit_log s')" using assms(1) by (simp add: s'(3) slot_inv_def slot_event_ok_def)
  then show ?thesis using assms(1) [unfolded slot_inv_def] unfolding slot_inv_def s'(1,2) eq by blast
next
  case (started n pool)
  let ?U = "snd ` set (waiting s)"
  have w: "set (waiting s) = {(i, n). TaskStarted i n \<in> set (visit_log s) \<and> i \<notin> ended_in (visit_log s)}"
    using assms(1) by (simp add: slot_inv_def)
  have use: "slots_in_use (visit_log s) = ?U" unfolding w by (force simp: slots_in_use_def)
  have f: "?U \<union> set (free (slots s)) = {1..<next_id (slots s)}" "?U \<inter> set (free (slots s)) = {}"
    "distinct (free (slots s))" "1 \<le> next_id (slots s)"
    using assms(1) unfolding slot_inv_def distinct_append set_map by blast+
  have a: "1 \<le> n \<and> n \<notin> ?U \<and> {1..<n} \<subseteq> ?U \<and> n \<notin> set (free pool) \<and> insert n ?U \<union> set (free pool) = {1..<next_id pool} \<and>
      insert n ?U \<inter> set (free pool) = {} \<and> distinct (free pool) \<and> 1 \<le> next_id pool"
    using acquire_lowest [OF started(2), of ?U] f by simp
  have s': "waiting s' = waiting s @ [(i, n)]" "slots s' = pool" "visit_log s' = visit_log s @ [TaskStarted i n]"
    using started by simp_all
  have "every_event slot_event_ok (visit_log s')" using assms(1) a use by (simp add: s' slot_inv_def slot_event_ok_def)
  moreover have "set (waiting s') = {(i, n). TaskStarted i n \<in> set (visit_log s') \<and> i \<notin> ended_in (visit_log s')}"
    using assms(3) by (auto simp: s' w processed_def)
  moreover have "distinct (map snd (waiting s') @ free (slots s'))"
    using assms(1) a by (auto simp: s' slot_inv_def)
  moreover have "snd ` set (waiting s') \<union> set (free (slots s')) = {1..<next_id (slots s')}" "1 \<le> next_id (slots s')"
    using a by (simp_all add: s')
  ultimately show ?thesis unfolding slot_inv_def by blast
qed

lemma slot_finish:
  assumes base: "base_inv g s" and slot: "slot_inv s"
    and k: "k < length (waiting s)" and f: "finish_task E g strategy dependents k s = Inr s'"
  shows "slot_inv s'"
proof -
  obtain i n where i: "waiting s ! k = (i, n)" by (cases "waiting s ! k")
  obtain t where t: "release_task strategy dependents i t = Inr s'"
      "waiting t = take k (waiting s) @ drop (Suc k) (waiting s)" "slots t = release_slot n (slots s)"
      "visit_log t = visit_log s @ [TaskFinished i (outcome E i)]"
    using finish_task_cases [OF f i] by metis
  let ?xs = "take k (waiting s)" and ?ys = "drop (Suc k) (waiting s)"
  have w: "waiting s = ?xs @ (i, n) # ?ys" using k i by (metis id_take_nth_drop)
  have d: "distinct (map fst (?xs @ (i, n) # ?ys))" using base w unfolding base_inv_def by metis
  have d2: "distinct (map snd (?xs @ (i, n) # ?ys) @ free (slots s))"
    "snd ` set (?xs @ (i, n) # ?ys) \<union> set (free (slots s)) = {1..<next_id (slots s)}"
    using slot w unfolding slot_inv_def by metis+
  have "set (?xs @ ?ys) = set (?xs @ (i, n) # ?ys) - {(i, n)}" using d by force
  then have ws: "set (waiting t) = set (waiting s) - {(i, n)}" using t(2) w by metis
  have one: "m = n" if "(i, m) \<in> set (waiting s)" for m
    using that k i base eq_key_imp_eq_value [of "waiting s" i m n] nth_mem [OF k] by (simp add: base_inv_def)
  have "every_event slot_event_ok (visit_log s')"
    using slot release_task_keeps(2) [OF t(1)] t(4) by (simp add: slot_inv_def slot_event_ok_def)
  moreover have "set (waiting s') = {(i, n). TaskStarted i n \<in> set (visit_log s') \<and> i \<notin> ended_in (visit_log s')}"
    using slot one release_task_keeps(1,2) [OF t(1)] t(4) ws by (auto simp: slot_inv_def)
  moreover have "distinct (map snd (waiting s') @ free (slots s'))"
    "snd ` set (waiting s') \<union> set (free (slots s')) = {1..<next_id (slots s')}"
    using d2 release_task_keeps(1,4) [OF t(1)] t(2,3) by (auto simp: release_slot_def)
  ultimately show ?thesis using slot release_task_keeps(4) [OF t(1)] t(3) by (simp add: slot_inv_def release_slot_def)
qed

end
