(* ===== verification/Visitor_Dispatch.thy ===== *)
theory Visitor_Dispatch imports Visitor_Skips begin

text \<open>
  The contract between the visitor and its strategy. The visitor relies on it for the order of the tasks and
  for their completeness; \<open>Parallel\<close> fulfils it by counting predecessors, \<open>Sequential\<close> by
  following the order of the topological sort.
\<close>

section \<open>The contract\<close>

definition unreachable_failure :: failure where
  "unreachable_failure = Panic ''internal error: entered unreachable code: this should be handled somewhere else''"

definition cancelled :: failure where
  "cancelled = Err OperationCanceled ''Operation cancelled''"

text \<open>How a visit can end other than with \<^verbatim>\<open>Ok\<close>.\<close>

definition visit_failure :: "visit_env \<Rightarrow> task_graph \<Rightarrow> failure \<Rightarrow> bool" where
  "visit_failure E g e \<longleftrightarrow>
     (\<exists>c. toposort E g = Inl c \<and> e = task_graph_cycle_error g c) \<or> (\<exists>n. token E n) \<and> e = cancelled \<or>
     (\<exists>i < length (weights g). span_error E i = Some e) \<or>
     (\<exists>i < length (weights g). outcome E i = Inr SkippedUpstreamFailed) \<and> e = unreachable_failure"

locale dispatcher =
  fixes strategy :: VisitStrategy and fit :: "visit_env \<Rightarrow> task_graph \<Rightarrow> bool"
    and inv :: "visit_env \<Rightarrow> task_graph \<Rightarrow> visit_state \<Rightarrow> bool"
  assumes dag: "fit E g \<Longrightarrow> graph_ok g" and hashes: "fit E g \<Longrightarrow> hash_ok E"
    and begins: "fit E g \<Longrightarrow> new_pending_nodes E strategy g = Inr first \<Longrightarrow> inv E g (visit_start E g first)"
    and keeps_asking: "fit E g \<Longrightarrow> inv E g s \<Longrightarrow> inv E g (s\<lparr>asked := n\<rparr>)"
    and hands_out: "fit E g \<Longrightarrow> inv E g s \<Longrightarrow> base_inv g s \<Longrightarrow> try_pop_pending_node strategy (waiting s) (pending s) = Some (i, rest) \<Longrightarrow>
      i < length (weights g) \<and> i \<notin> processed s \<and> preds g i \<subseteq> ended_in (visit_log s)"
    and keeps_taking: "fit E g \<Longrightarrow> inv E g s \<Longrightarrow> base_inv g s \<Longrightarrow>
      try_pop_pending_node strategy (waiting s) (pending s) = Some (i, rest) \<Longrightarrow>
      take_pending E g strategy (dependents_of E g) i (s\<lparr>pending := rest\<rparr>) = Inr s' \<Longrightarrow> inv E g s'"
    and keeps_finishing: "fit E g \<Longrightarrow> inv E g s \<Longrightarrow> base_inv g s \<Longrightarrow> k < length (waiting s) \<Longrightarrow>
      finish_task E g strategy (dependents_of E g) k s = Inr s' \<Longrightarrow> inv E g s'"
    and releases: "fit E g \<Longrightarrow> inv E g s \<Longrightarrow> i < length (weights g) \<Longrightarrow> indegree t = indegree s \<Longrightarrow>
      \<exists>t'. release_task strategy (dependents_of E g) i t = Inr t'"
    and completes: "fit E g \<Longrightarrow> inv E g s \<Longrightarrow> base_inv g s \<Longrightarrow> pending s = [] \<Longrightarrow> waiting s = [] \<Longrightarrow>
      ended_in (visit_log s) = {..< length (weights g)} \<and> get_incomplete_tasks strategy g (indegree s) = []"
begin

definition sound :: "visit_env \<Rightarrow> task_graph \<Rightarrow> visit_state \<Rightarrow> bool" where
  "sound E g s \<longleftrightarrow> fit E g \<and> inv E g s \<and> base_inv g s \<and> skip_inv E g s \<and> slot_inv s"

lemma sound_start: "fit E g \<Longrightarrow> new_pending_nodes E strategy g = Inr first \<Longrightarrow> sound E g (visit_start E g first)"
  by (simp add: sound_def begins base_start skip_start slot_start)

lemma sound_step: "visit_step E g strategy s s' \<Longrightarrow> sound E g s \<Longrightarrow> sound E g s'"
proof (induction rule: visit_step.induct)
  case (asking s)
  have "base_inv g (s\<lparr>asked := n\<rparr>) = base_inv g s" "skip_inv E g (s\<lparr>asked := n\<rparr>) = skip_inv E g s"
    "slot_inv (s\<lparr>asked := n\<rparr>) = slot_inv s" for n
    unfolding base_inv_def skip_inv_def slot_inv_def running_def by simp_all
  then show ?case using keeps_asking asking by (simp add: sound_def)
next
  case (taking s i rest s')
  then have s: "fit E g" "inv E g s" "base_inv g s" "skip_inv E g s" "slot_inv s" by (simp_all add: sound_def)
  note out = hands_out [OF s(1-3) taking.hyps(1)]
  show ?case
    using keeps_taking [OF s(1-3) taking.hyps] base_take [OF s(3) taking.hyps(2)] skip_take [OF s(4) taking.hyps(2)]
      slot_take [OF s(5) taking.hyps(2)] out s(1)
    by (simp add: sound_def)
next
  case (finishing k s s')
  then have s: "fit E g" "inv E g s" "base_inv g s" "skip_inv E g s" "slot_inv s" by (simp_all add: sound_def)
  show ?case
    using keeps_finishing [OF s(1-3) finishing.hyps] base_finish [OF s(3) finishing.hyps] s(1)
      skip_finish [OF dag [OF s(1)] hashes [OF s(1)] s(3,4) finishing.hyps] slot_finish [OF s(3,5) finishing.hyps]
    by (simp add: sound_def)
qed

lemma sound_steps: "(visit_step E g strategy)\<^sup>*\<^sup>* s s' \<Longrightarrow> sound E g s \<Longrightarrow> sound E g s'"
  by (induction rule: rtranclp_induct) (auto intro: sound_step)

text \<open>A step fails only where the world around the visitor does.\<close>

lemma take_fails:
  assumes "sound E g s" and "try_pop_pending_node strategy (waiting s) (pending s) = Some (i, rest)"
    and "take_pending E g strategy (dependents_of E g) i (s\<lparr>pending := rest\<rparr>) = Inl e"
  shows "visit_failure E g e"
proof -
  have i: "i < length (weights g)" using hands_out [of E g s i rest] assms(1,2) by (simp add: sound_def)
  obtain t' where "release_task strategy (dependents_of E g) i (s\<lparr>pending := rest\<rparr>) = Inr t'"
    using releases [of E g s i "s\<lparr>pending := rest\<rparr>"] i assms(1) by (auto simp: sound_def)
  then have "span_error E i = Some e"
    using assms(3) i by (auto simp: take_pending_def node_weight_def skip_task_def split: option.splits)
  then show ?thesis using i by (auto simp: visit_failure_def)
qed

lemma finish_fails:
  assumes "sound E g s" and k: "k < length (waiting s)" and f: "finish_task E g strategy (dependents_of E g) k s = Inl e"
  shows "visit_failure E g e"
proof -
  obtain i slot where i: "waiting s ! k = (i, slot)" by (cases "waiting s ! k")
  have "i \<in> started_in (visit_log s)" using running_nth [OF k i] assms(1) by (auto simp: sound_def base_inv_def)
  then have iN: "i < length (weights g)" using log_ok_range assms(1) unfolding sound_def base_inv_def by blast
  have r: "release_task strategy (dependents_of E g) i t \<noteq> Inl e" if "indegree t = indegree s" for t
    using releases [of E g, OF _ _ iN that] assms(1) by (auto simp: sound_def)
  show ?thesis
  proof (cases "outcome E i = Inr SkippedUpstreamFailed")
    case True
    then have "e = unreachable_failure" using f i
      by (simp add: finish_task_def handle_task_result_def is_failure_def unreachable_failure_def Let_def)
    then show ?thesis using True iN by (auto simp: visit_failure_def)
  next
    case False
    obtain failed reused B q where
        "handle_task_result g (dependents_of E g) (fail_fast_flag E) (should_reuse_downstream_tests E) i (outcome E i) (skips s) =
          Inr (failed, reused, marked q B (skips s))"
      using handle_task_result_marks [OF dag hashes iN False] assms(1) unfolding sound_def by blast
    then have False using f i r by (simp add: finish_task_def Let_def record_skipped_stats_def)
    then show ?thesis ..
  qed
qed

lemma fill_fails: "sound E g s \<Longrightarrow> fill_waiting E g strategy (dependents_of E g) s = (Inl e, s') \<Longrightarrow> visit_failure E g e"
proof (induction "visit_left s" arbitrary: s rule: less_induct)
  case less
  obtain i rest where p: "try_pop_pending_node strategy (waiting s) (pending s) = Some (i, rest)"
    using less.prems(2) by (subst (asm) fill_waiting.simps) (auto split: option.splits)
  have v: "vec_pop (pending s) = Some (i, rest)" using p by (auto simp: try_pop_pending_node_def split: if_splits)
  show ?case
  proof (cases "take_pending E g strategy (dependents_of E g) i (s\<lparr>pending := rest\<rparr>)")
    case (Inl d)
    have "fill_waiting E g strategy (dependents_of E g) s = (Inl d, s\<lparr>pending := rest\<rparr>)"
      by (subst fill_waiting.simps) (simp add: p Inl)
    then show ?thesis using take_fails [OF less.prems(1) p Inl] less.prems(2) by simp
  next
    case (Inr t)
    have "fill_waiting E g strategy (dependents_of E g) s = fill_waiting E g strategy (dependents_of E g) t"
      by (subst fill_waiting.simps) (simp add: p Inr)
    then show ?thesis using less.hyps [OF take_pending_left [OF Inr v]] sound_step [OF visit_step.taking [OF p Inr] less.prems(1)]
        less.prems(2) by simp
  qed
qed

lemma receive_fails:
  assumes "sound E g s" and "receive_task E g strategy (dependents_of E g) s = (Inl e, s')"
  shows "visit_failure E g e"
proof (cases "token E (asked s)")
  case True
  then show ?thesis using assms(2)
    by (auto simp: receive_task_def ask_token_def visit_failure_def cancelled_def split: if_splits)
next
  case False
  let ?s = "s\<lparr>asked := Suc (asked s)\<rparr>" and ?k = "arrival E (received s) mod length (waiting s)"
  have w: "waiting s \<noteq> []" using assms(2) by (auto simp: receive_task_def split: if_splits)
  then have "finish_task E g strategy (dependents_of E g) ?k ?s = Inl e"
    using assms(2) False by (auto simp: receive_task_def ask_token_def split: sum.splits)
  then show ?thesis using finish_fails [of E g ?s ?k e] sound_step [OF visit_step.asking assms(1)] w by simp
qed

lemma loop_fails: "sound E g s \<Longrightarrow> visit_loop E g strategy (dependents_of E g) s = (Inl e, s') \<Longrightarrow> visit_failure E g e"
proof (induction "visit_left s" arbitrary: s rule: less_induct)
  case less
  obtain a s1 where a: "ask_token E s = (a, s1)" by (cases "ask_token E s")
  have s1: "sound E g s1" using sound_step [OF visit_step.asking less.prems(1)] a by (auto simp: ask_token_def)
  show ?case
  proof (cases a)
    case (Inl d)
    then have "e = d" using less.prems(2) a by (simp add: visit_loop.simps)
    then show ?thesis using a Inl by (auto simp: ask_token_def visit_failure_def cancelled_def split: if_splits)
  next
    case (Inr u)
    obtain b s2 where b: "fill_waiting E g strategy (dependents_of E g) s1 = (b, s2)"
      by (cases "fill_waiting E g strategy (dependents_of E g) s1")
    show ?thesis
    proof (cases b)
      case Inl_b: (Inl d)
      then have "e = d" using less.prems(2) a Inr b by (simp add: visit_loop.simps)
      then show ?thesis using fill_fails [OF s1] b Inl_b by simp
    next
      case Inr_b: (Inr v)
      have s2: "sound E g s2" using fill_waiting_steps [OF b] Inr_b sound_steps [OF _ s1] by auto
      obtain c s3 where c: "receive_task E g strategy (dependents_of E g) s2 = (c, s3)"
        by (cases "receive_task E g strategy (dependents_of E g) s2")
      show ?thesis
      proof (cases c)
        case Inl_c: (Inl d)
        then have "e = d" using less.prems(2) a Inr b Inr_b c by (simp add: visit_loop.simps)
        then show ?thesis using receive_fails [OF s2] c Inl_c by simp
      next
        case Inr_c: (Inr w)
        have more: "\<not> (pending s3 = [] \<and> waiting s3 = [])"
          and again: "visit_loop E g strategy (dependents_of E g) s3 = (Inl e, s')"
          using less.prems(2) a Inr b Inr_b c Inr_c by (subst (asm) visit_loop.simps, auto split: if_splits)+
        have "visit_left s3 < visit_left s"
          using visit_turn_left [of E s u s1 g strategy "dependents_of E g" v s2 w s3] a Inr b Inr_b c Inr_c more by simp
        then show ?thesis using less.hyps again sound_steps [OF receive_task_steps [OF c] s2] by simp
      qed
    qed
  qed
qed

lemma visit_reaches:
  assumes fit: "fit E g" and "visit E strategy g = (r, s)" and first: "new_pending_nodes E strategy g = Inr first"
  obtains t where "sound E g t" "visit_log s = visit_log t" "skips s = skips t"
    "r = Inr () \<Longrightarrow> ended_in (visit_log s) = {..< length (weights g)}" "\<And>e. r = Inl e \<Longrightarrow> visit_failure E g e"
proof -
  obtain a t where a: "visit_loop E g strategy (dependents_of E g) (visit_start E g first) = (a, t)"
    by (cases "visit_loop E g strategy (dependents_of E g) (visit_start E g first)")
  obtain u where u: "(visit_step E g strategy)\<^sup>*\<^sup>* (visit_start E g first) u" "t = u\<lparr>pending := pending t\<rparr>"
      "a = Inr () \<longrightarrow> t = u \<and> pending u = [] \<and> waiting u = []"
    using visit_loop_steps [OF a] by blast
  have sound: "sound E g u" by (rule sound_steps [OF u(1) sound_start [OF fit first]])
  have s: "s = t" using assms a by (auto simp: visit_def Let_def split: sum.splits if_splits)
  have eq: "visit_log (u\<lparr>pending := p\<rparr>) = visit_log u" "skips (u\<lparr>pending := p\<rparr>) = skips u" for p by simp_all
  have all: "a = Inr () \<Longrightarrow> ended_in (visit_log u) = {..< length (weights g)} \<and> get_incomplete_tasks strategy g (indegree u) = []"
    using completes [of E g u] sound u(3) by (simp add: sound_def)
  have "ended_in (visit_log s) = {..< length (weights g)}" if "r = Inr ()"
    using assms a that u(3) all s by (auto simp: visit_def split: sum.splits)
  moreover have "visit_failure E g e" if "r = Inl e" for e
  proof (cases a)
    case (Inl d)
    then show ?thesis using assms a that loop_fails [OF sound_start [OF fit first]] by (simp add: visit_def)
  next
    case (Inr d)
    then show ?thesis using assms a that u(3) all by (simp add: visit_def)
  qed
  moreover have "visit_log s = visit_log u" "skips s = skips u" using eq u(2) s by metis+
  ultimately show ?thesis using that sound by blast
qed

lemma visit_outcome:
  assumes fit: "fit E g" and "visit E strategy g = (r, s)"
  shows "log_ok g (visit_log s)" "skip_inv E g s" "every_event slot_event_ok (visit_log s)"
    and "r = Inr () \<Longrightarrow> ended_in (visit_log s) = {..< length (weights g)}"
    and "r = Inl e \<Longrightarrow> visit_failure E g e"
proof -
  have "log_ok g (visit_log s) \<and> skip_inv E g s \<and> every_event slot_event_ok (visit_log s) \<and>
    (r = Inr () \<longrightarrow> ended_in (visit_log s) = {..< length (weights g)}) \<and> (\<forall>e. r = Inl e \<longrightarrow> visit_failure E g e)"
  proof (cases "new_pending_nodes E strategy g")
    case (Inl e)
    then have "r = Inl e" "s = visit_start E g []" using assms by (simp_all add: visit_def)
    moreover have "visit_failure E g e" using Inl by (auto simp: new_pending_nodes_def visit_failure_def split: sum.splits)
    ultimately show ?thesis using skip_start [of E g "[]"] by (simp add: visit_start_def)
  next
    case (Inr first)
    obtain t where t: "sound E g t" "visit_log s = visit_log t" "skips s = skips t"
        "r = Inr () \<Longrightarrow> ended_in (visit_log s) = {..< length (weights g)}" "\<And>e. r = Inl e \<Longrightarrow> visit_failure E g e"
      using visit_reaches [OF assms Inr] by metis
    have "log_ok g (visit_log t)" "skip_inv E g t" "every_event slot_event_ok (visit_log t)"
      using t(1) by (simp_all add: sound_def base_inv_def slot_inv_def)
    then show ?thesis using t(2-5) by (simp add: skip_inv_def)
  qed
  then show "log_ok g (visit_log s)" "skip_inv E g s" "every_event slot_event_ok (visit_log s)"
    and "r = Inr () \<Longrightarrow> ended_in (visit_log s) = {..< length (weights g)}"
    and "r = Inl e \<Longrightarrow> visit_failure E g e"
    by blast+
qed

end

end
