(* ===== verification/Visitor_Strategies.thy ===== *)
theory Visitor_Strategies imports Visitor_Dispatch begin

text \<open>
  The two strategies fulfil the visitor's contract: \<open>Parallel\<close> by counting, for each task, the
  predecessors not yet done, \<open>Sequential\<close> by following the topological order.
\<close>

section \<open>What the graph library answers\<close>

definition topo_order :: "task_graph \<Rightarrow> nat list \<Rightarrow> bool" where
  "topo_order g ord \<longleftrightarrow> distinct ord \<and> set ord = {..< length (weights g)} \<and>
     (\<forall>k < length ord. preds g (ord ! k) \<subseteq> set (take k ord))"

definition library_ok :: "visit_env \<Rightarrow> task_graph \<Rightarrow> bool" where
  "library_ok E g \<longleftrightarrow>
     (case toposort E g of Inr ord \<Rightarrow> topo_order g ord | Inl c \<Rightarrow> (c, c) \<in> (edge_rel g)\<^sup>+) \<and>
     distinct (externals E g) \<and> set (externals E g) = {i. i < length (weights g) \<and> preds g i = {}}"

text \<open>Graphs are built with \<^verbatim>\<open>update_edge\<close>, which adds an edge once.\<close>

definition fit :: "visit_env \<Rightarrow> task_graph \<Rightarrow> bool" where
  "fit E g \<longleftrightarrow> graph_ok g \<and> distinct (task_edges g) \<and> hash_ok E \<and> library_ok E g"

text \<open>A set of tasks that holds every task all of whose predecessors it holds is all of them.\<close>

lemma topo_all:
  assumes "topo_order g ord" and "\<And>i. i < length (weights g) \<Longrightarrow> preds g i \<subseteq> A \<Longrightarrow> i \<in> A"
  shows "{..< length (weights g)} \<subseteq> A"
proof -
  have "set (take k ord) \<subseteq> A" for k
  proof (induction k)
    case (Suc k)
    show ?case
    proof (cases "k < length ord")
      case True
      have "preds g (ord ! k) \<subseteq> A" using assms(1) True Suc by (auto simp: topo_order_def)
      moreover have "ord ! k < length (weights g)" using assms(1) True nth_mem [of k ord] by (auto simp: topo_order_def)
      ultimately have "ord ! k \<in> A" by (rule assms(2) [rotated])
      then show ?thesis using Suc True by (simp add: take_Suc_conv_app_nth)
    next
      case False
      then show ?thesis using Suc by simp
    qed
  qed simp
  from this [of "length ord"] show ?thesis using assms(1) by (simp add: topo_order_def)
qed

section \<open>Parallel\<close>

definition ready :: "task_graph \<Rightarrow> nat set \<Rightarrow> nat set" where
  "ready g A = {i. i < length (weights g) \<and> preds g i \<subseteq> A}"

text \<open>The counts and the worklist when the tasks of \<open>A\<close> have ended and those of \<open>P\<close> were taken.\<close>

definition counts_ok :: "task_graph \<Rightarrow> nat set \<Rightarrow> nat set \<Rightarrow> int list \<Rightarrow> nat list \<Rightarrow> bool" where
  "counts_ok g A P deg pend \<longleftrightarrow> length deg = length (weights g) \<and>
     (\<forall>i < length (weights g). deg ! i = int (card (preds g i - A))) \<and>
     distinct pend \<and> set pend = ready g A - P"

definition parallel_inv :: "visit_env \<Rightarrow> task_graph \<Rightarrow> visit_state \<Rightarrow> bool" where
  "parallel_inv E g s \<longleftrightarrow> counts_ok g (ended_in (visit_log s)) (processed s) (indegree s) (pending s) \<and>
     (\<exists>ord. toposort E g = Inr ord)"

lemma release_each_effect:
  "distinct ds \<Longrightarrow> set ds \<subseteq> {..< length deg} \<Longrightarrow>
   \<exists>deg'. release_each ds (deg, pend) = Inr (deg', pend @ filter (\<lambda>d. deg ! d = 1) ds) \<and> length deg' = length deg \<and>
     (\<forall>i < length deg. deg' ! i = deg ! i - of_bool (i \<in> set ds))"
proof (induction ds arbitrary: deg pend)
  case (Cons d ds)
  let ?deg = "deg[d := deg ! d - 1]" and ?pend = "if deg ! d = 1 then pend @ [d] else pend"
  have d: "d < length deg" "d \<notin> set ds" using Cons.prems by simp_all
  obtain deg' where deg': "release_each ds (?deg, ?pend) = Inr (deg', ?pend @ filter (\<lambda>x. ?deg ! x = 1) ds)"
      "length deg' = length ?deg" "\<forall>i < length ?deg. deg' ! i = ?deg ! i - of_bool (i \<in> set ds)"
    using Cons.IH [of ?deg ?pend] Cons.prems by auto
  have "filter (\<lambda>x. ?deg ! x = 1) ds = filter (\<lambda>x. deg ! x = 1) ds"
    using d by (intro filter_cong) (auto simp: nth_list_update)
  then show ?case using deg' d by (auto simp: vec_at_def nth_list_update)
qed simp

lemma preds_finite: "finite (preds g i)"
proof -
  have "preds g i \<subseteq> fst ` edge_rel g" by (force simp: preds_def)
  then show ?thesis by (rule finite_subset) (simp add: edge_rel_def)
qed

lemma card_one: "i \<in> S \<Longrightarrow> card S = 1 \<longleftrightarrow> S = {i}"
  by (auto simp: card_1_singleton_iff)

lemma counts_release:
  assumes g: "graph_ok g" "hash_ok E" and i: "i < length (weights g)" "i \<notin> A" "preds g i \<subseteq> A"
    and P: "P \<subseteq> ready g A" "i \<in> P" and counts: "counts_ok g A P deg pend"
  shows "\<exists>deg' pend'. release_dependents Parallel i (dependents_of E g) (deg, pend) = Inr (deg', pend') \<and>
    counts_ok g (insert i A) P deg' pend'"
proof -
  let ?ds = "dependents_of E g ! i"
  have ds: "distinct ?ds" "set ?ds = {b. (i, b) \<in> edge_rel g}" using dependents_ok(2) [OF g i(1)] by simp_all
  have len: "length deg = length (weights g)" using counts by (simp add: counts_ok_def)
  have range: "set ?ds \<subseteq> {..< length deg}" using ds(2) g(1) len by (auto simp: graph_ok_def)
  obtain deg' where deg': "release_each ?ds (deg, pend) = Inr (deg', pend @ filter (\<lambda>d. deg ! d = 1) ?ds)"
      "length deg' = length deg" "\<forall>j < length deg. deg' ! j = deg ! j - of_bool (j \<in> set ?ds)"
    using release_each_effect [OF ds(1) range, of pend] by blast
  have mem: "j \<in> set ?ds \<longleftrightarrow> i \<in> preds g j" for j using ds(2) by (simp add: preds_def)
  have fewer: "preds g j - insert i A = (preds g j - A) - {i}" for j by auto
  have count: "int (card (preds g j - insert i A)) = int (card (preds g j - A)) - of_bool (i \<in> preds g j)" for j
  proof (cases "i \<in> preds g j")
    case True
    then have "Suc (card (preds g j - insert i A)) = card (preds g j - A)"
      using i(2) preds_finite unfolding fewer by (intro card_Suc_Diff1) auto
    then show ?thesis using True by simp
  next
    case False
    then have "preds g j - insert i A = preds g j - A" by auto
    then show ?thesis using False by simp
  qed
  have one: "deg ! j = 1 \<longleftrightarrow> preds g j - A = {i}" if "j \<in> set ?ds" for j
  proof -
    have "i \<in> preds g j - A" "j < length (weights g)" using that mem i(2) range len by auto
    then show ?thesis using counts card_one [of i "preds g j - A"] by (simp add: counts_ok_def)
  qed
  have new: "set (filter (\<lambda>d. deg ! d = 1) ?ds) = ready g (insert i A) - ready g A"
  proof (intro equalityI subsetI)
    fix j assume "j \<in> set (filter (\<lambda>d. deg ! d = 1) ?ds)"
    then have "j < length (weights g)" "preds g j - A = {i}" using one range len by auto
    then show "j \<in> ready g (insert i A) - ready g A" using i(2) by (auto simp: ready_def)
  next
    fix j assume j: "j \<in> ready g (insert i A) - ready g A"
    then have "preds g j - A = {i}" by (auto simp: ready_def)
    then have "j \<in> set ?ds" "preds g j - A = {i}" using mem by auto
    then show "j \<in> set (filter (\<lambda>d. deg ! d = 1) ?ds)" using one by simp
  qed
  have "distinct (pend @ filter (\<lambda>d. deg ! d = 1) ?ds)"
    using counts ds(1) new by (auto simp: counts_ok_def)
  moreover have "set (pend @ filter (\<lambda>d. deg ! d = 1) ?ds) = ready g (insert i A) - P"
    unfolding set_append new using counts P(1) by (auto simp: counts_ok_def ready_def)
  moreover have "\<forall>j < length (weights g). deg' ! j = int (card (preds g j - insert i A))"
    using deg'(3) len counts by (simp add: count mem counts_ok_def)
  moreover have "release_dependents Parallel i (dependents_of E g) (deg, pend) = Inr (deg', pend @ filter (\<lambda>d. deg ! d = 1) ?ds)"
    using deg'(1) i(1) dependents_ok(1) [OF g] by (simp add: release_dependents_def vec_at_def)
  ultimately show ?thesis using deg'(2) len by (auto simp: counts_ok_def)
qed

text \<open>A task that was started or has ended was ready, and none of its predecessors is itself.\<close>

lemma processed_ready: "base_inv g s \<Longrightarrow> processed s \<subseteq> ready g (ended_in (visit_log s))"
  using log_ok_range [of g "visit_log s"] log_ok_preds [of g "visit_log s"] by (auto simp: base_inv_def processed_def ready_def)

lemma parallel_begins:
  assumes f: "fit E g" and first: "new_pending_nodes E Parallel g = Inr first"
  shows "parallel_inv E g (visit_start E g first)"
proof -
  obtain deg dep where d: "get_indegree_and_dependents g = (deg, dep)" by (cases "get_indegree_and_dependents g")
  have g: "graph_ok g" "distinct (task_edges g)" using f by (simp_all add: fit_def)
  obtain ord where ord: "toposort E g = Inr ord" "first = externals E g"
    using first by (auto simp: new_pending_nodes_def split: sum.splits)
  have "deg ! i = int (card (preds g i))" if "i < length (weights g)" for i
    using counted(3) [OF g(1) d that] in_edges_card [OF g(2), of i] by (simp add: preds_def edge_rel_def)
  then show ?thesis using counted(1) [OF g(1) d] d ord f
    by (auto simp: parallel_inv_def counts_ok_def visit_start_def processed_def ready_def fit_def library_ok_def)
qed

lemma parallel_hands_out:
  assumes "parallel_inv E g s" and "try_pop_pending_node Parallel (waiting s) (pending s) = Some (i, rest)"
  shows "i < length (weights g) \<and> i \<notin> processed s \<and> preds g i \<subseteq> ended_in (visit_log s) \<and> pending s = rest @ [i]"
proof -
  have p: "pending s = rest @ [i]" using assms(2) by (auto simp: try_pop_pending_node_def vec_pop_def split: if_splits)
  then have "i \<in> set (pending s)" by simp
  then show ?thesis using assms(1) p by (auto simp: parallel_inv_def counts_ok_def ready_def)
qed

lemma parallel_releases:
  assumes f: "fit E g" and c: "counts_ok g A P (indegree t) (pending t)" and i: "i < length (weights g)" "i \<notin> A" "preds g i \<subseteq> A"
    and P: "P \<subseteq> ready g A" "i \<in> P" and r: "release_task Parallel (dependents_of E g) i t = Inr t'"
  shows "counts_ok g (insert i A) P (indegree t') (pending t')"
proof -
  have g: "graph_ok g" "hash_ok E" using f by (simp_all add: fit_def)
  obtain deg' pend' where "release_dependents Parallel i (dependents_of E g) (indegree t, pending t) = Inr (deg', pend')"
      "counts_ok g (insert i A) P deg' pend'"
    using counts_release [OF g i P c] by blast
  then show ?thesis using r by (auto simp: release_task_def)
qed

lemma parallel_keeps_taking:
  assumes f: "fit E g" and inv: "parallel_inv E g s" and base: "base_inv g s"
    and pop: "try_pop_pending_node Parallel (waiting s) (pending s) = Some (i, rest)"
    and t: "take_pending E g Parallel (dependents_of E g) i (s\<lparr>pending := rest\<rparr>) = Inr s'"
  shows "parallel_inv E g s'"
proof -
  note out = parallel_hands_out [OF inv pop]
  let ?A = "ended_in (visit_log s)" and ?P = "insert i (processed s)"
  have c: "counts_ok g ?A ?P (indegree s) rest" using inv out by (auto simp: parallel_inv_def counts_ok_def)
  have ord: "\<exists>ord. toposort E g = Inr ord" using inv by (simp add: parallel_inv_def)
  show ?thesis using t
  proof (cases rule: take_pending_cases)
    case (skipped r u)
    have P: "?P \<subseteq> ready g ?A" using processed_ready [OF base] out by (auto simp: ready_def)
    have "i \<notin> ?A" using out by (simp add: processed_def)
    then have "counts_ok g (insert i ?A) ?P (indegree u) (pending u)"
      using parallel_releases [OF f _ _ _ _ P _ skipped(2)] c out by simp
    then show ?thesis using skipped ord by (simp add: parallel_inv_def processed_def)
  next
    case (started slot pool)
    then show ?thesis using c ord by (simp add: parallel_inv_def processed_def)
  qed
qed

lemma finished_was_running:
  assumes "base_inv g s" and "k < length (waiting s)" and "waiting s ! k = (i, slot)"
  shows "i \<in> started_in (visit_log s)" "i \<notin> ended_in (visit_log s)" "i < length (weights g)" "preds g i \<subseteq> ended_in (visit_log s)"
proof -
  show e: "i \<in> started_in (visit_log s)" "i \<notin> ended_in (visit_log s)"
    using running_nth [OF assms(2,3)] assms(1) by (auto simp: base_inv_def)
  show "i < length (weights g)" "preds g i \<subseteq> ended_in (visit_log s)"
    using processed_ready [OF assms(1)] e(1) by (auto simp: processed_def ready_def)
qed

lemma parallel_keeps_finishing:
  assumes f: "fit E g" and inv: "parallel_inv E g s" and base: "base_inv g s" and k: "k < length (waiting s)"
    and fin: "finish_task E g Parallel (dependents_of E g) k s = Inr s'"
  shows "parallel_inv E g s'"
proof -
  obtain i slot where i: "waiting s ! k = (i, slot)" by (cases "waiting s ! k")
  note run = finished_was_running [OF base k i]
  obtain t where t: "release_task Parallel (dependents_of E g) i t = Inr s'" "indegree t = indegree s" "pending t = pending s"
      "visit_log t = visit_log s @ [TaskFinished i (outcome E i)]"
    using finish_task_cases [OF fin i] by metis
  have log: "visit_log s' = visit_log s @ [TaskFinished i (outcome E i)]" using release_task_keeps(2) [OF t(1)] t(4) by simp
  have "counts_ok g (ended_in (visit_log s)) (processed s) (indegree t) (pending t)"
    using inv t(2,3) by (simp add: parallel_inv_def)
  from parallel_releases [OF f this run(3,2,4) processed_ready [OF base] _ t(1)]
  have "counts_ok g (insert i (ended_in (visit_log s))) (processed s) (indegree s') (pending s')"
    using run(1) by (simp add: processed_def)
  moreover have "processed s' = processed s" using log run(1) by (auto simp: processed_def)
  ultimately show ?thesis using inv log by (simp add: parallel_inv_def)
qed

lemma none_incomplete: "\<forall>x \<in> set deg. x \<le> 0 \<Longrightarrow> get_incomplete_tasks Parallel g deg = []"
proof -
  assume a: "\<forall>x \<in> set deg. x \<le> 0"
  have "\<forall>(i, d) \<in> set (enumerate 0 deg). \<not> d > 0"
    using a by (auto simp: enumerate_eq_zip dest!: set_zip_rightD)
  then show ?thesis by (auto simp: get_incomplete_tasks_def map_filter_def filter_empty_conv)
qed

lemma parallel_completes:
  assumes f: "fit E g" and inv: "parallel_inv E g s" and base: "base_inv g s" and idle: "pending s = []" "waiting s = []"
  shows "ended_in (visit_log s) = {..< length (weights g)} \<and> get_incomplete_tasks Parallel g (indegree s) = []"
proof -
  obtain ord where ord: "topo_order g ord"
    using f inv by (auto simp: parallel_inv_def fit_def library_ok_def split: sum.splits)
  have "processed s = ended_in (visit_log s)" using base idle(2) by (auto simp: base_inv_def running_def processed_def)
  then have closed: "ready g (ended_in (visit_log s)) \<subseteq> ended_in (visit_log s)"
    using inv idle(1) by (auto simp: parallel_inv_def counts_ok_def)
  have "{..< length (weights g)} \<subseteq> ended_in (visit_log s)"
    using topo_all [OF ord, of "ended_in (visit_log s)"] closed by (auto simp: ready_def)
  moreover have "ended_in (visit_log s) \<subseteq> {..< length (weights g)}"
    using log_ok_range [of g "visit_log s"] base by (auto simp: base_inv_def)
  ultimately have all: "ended_in (visit_log s) = {..< length (weights g)}" by simp
  have "preds g i - ended_in (visit_log s) = {}" for i
    using f unfolding all by (auto simp: fit_def graph_ok_def preds_def)
  then have none: "card (preds g i - ended_in (visit_log s)) = 0" for i by (metis card.empty)
  then have "\<forall>x \<in> set (indegree s). x \<le> 0" using inv none by (auto simp: parallel_inv_def counts_ok_def set_conv_nth)
  then show ?thesis using all none_incomplete by simp
qed

lemma parallel_release_total:
  assumes "fit E g" "parallel_inv E g s" "i < length (weights g)" "indegree t = indegree s"
  shows "\<exists>t'. release_task Parallel (dependents_of E g) i t = Inr t'"
proof -
  have g: "graph_ok g" "hash_ok E" using assms(1) by (simp_all add: fit_def)
  have "length (indegree t) = length (weights g)" using assms(2,4) by (simp add: parallel_inv_def counts_ok_def)
  then have "distinct (dependents_of E g ! i)" "set (dependents_of E g ! i) \<subseteq> {..< length (indegree t)}"
    using dependents_ok(2) [OF g assms(3)] g(1) by (auto simp: graph_ok_def)
  from release_each_effect [OF this, of "pending t"] show ?thesis using dependents_ok(1) [OF g] assms(3)
    by (auto simp: release_task_def release_dependents_def vec_at_def)
qed

interpretation parallel: dispatcher Parallel fit parallel_inv
proof (unfold_locales, goal_cases)
  case (4 E g s n)
  then show ?case by (simp add: parallel_inv_def processed_def)
next
  case (5 E g s i rest)
  then show ?case using parallel_hands_out by blast
next
  case law: (6 E g s i rest s')
  show ?case by (rule parallel_keeps_taking [OF law])
next
  case law: (7 E g s k s')
  show ?case by (rule parallel_keeps_finishing [OF law])
next
  case (8 E g s i t)
  then show ?case by (rule parallel_release_total)
next
  case (9 E g s)
  then show ?case by (rule parallel_completes)
qed (simp_all add: fit_def parallel_begins)

section \<open>Sequential\<close>

definition handed_out :: "visit_event list \<Rightarrow> nat list" where
  "handed_out l = concat (map (\<lambda>e. case e of TaskStarted i n \<Rightarrow> [i] | TaskSkipped i r \<Rightarrow> [i] | TaskFinished i r \<Rightarrow> []) l)"

definition alone :: "visit_event list \<Rightarrow> visit_event \<Rightarrow> bool" where
  "alone l e \<longleftrightarrow> (\<forall>i r. e \<noteq> TaskFinished i r) \<longrightarrow> started_in l \<subseteq> ended_in l"

lemma handed_out_snoc [simp]:
  "handed_out [] = []" "handed_out (l @ [TaskStarted i n]) = handed_out l @ [i]"
  "handed_out (l @ [TaskSkipped i q]) = handed_out l @ [i]" "handed_out (l @ [TaskFinished i r]) = handed_out l"
  by (simp_all add: handed_out_def)

lemma handed_out_set: "log_ok g l \<Longrightarrow> set (handed_out l) = started_in l \<union> ended_in l"
proof (induction l rule: rev_induct)
  case (snoc e l)
  then show ?case by (cases e) (auto simp: event_ok_def)
qed simp

definition sequential_inv :: "visit_env \<Rightarrow> task_graph \<Rightarrow> visit_state \<Rightarrow> bool" where
  "sequential_inv E g s \<longleftrightarrow> every_event alone (visit_log s) \<and>
     (\<exists>ord. toposort E g = Inr ord \<and> ord = handed_out (visit_log s) @ rev (pending s))"

lemma sequential_hands_out:
  assumes f: "fit E g" and inv: "sequential_inv E g s" and base: "base_inv g s"
    and pop: "try_pop_pending_node Sequential (waiting s) (pending s) = Some (i, rest)"
  shows "i < length (weights g) \<and> i \<notin> processed s \<and> preds g i \<subseteq> ended_in (visit_log s)"
    and "pending s = rest @ [i]" "waiting s = []" "started_in (visit_log s) \<subseteq> ended_in (visit_log s)"
proof -
  show p: "pending s = rest @ [i]" and w: "waiting s = []"
    using pop by (auto simp: try_pop_pending_node_def vec_pop_def split: if_splits)
  show st: "started_in (visit_log s) \<subseteq> ended_in (visit_log s)" using base w by (auto simp: base_inv_def running_def)
  obtain ord where ord: "topo_order g ord" "ord = handed_out (visit_log s) @ i # rev rest"
    using inv f p by (auto simp: sequential_inv_def fit_def library_ok_def split: sum.splits)
  let ?k = "length (handed_out (visit_log s))"
  have "ord ! ?k = i" "take ?k ord = handed_out (visit_log s)" "?k < length ord" using ord(2) by simp_all
  then have "preds g i \<subseteq> set (handed_out (visit_log s))" using ord(1) unfolding topo_order_def by metis
  moreover have h: "set (handed_out (visit_log s)) = processed s" using handed_out_set base by (auto simp: base_inv_def processed_def)
  moreover have "i < length (weights g)" "i \<notin> set (handed_out (visit_log s))"
    using ord by (auto simp: topo_order_def)
  ultimately show "i < length (weights g) \<and> i \<notin> processed s \<and> preds g i \<subseteq> ended_in (visit_log s)"
    using st by (auto simp: processed_def)
qed

lemma sequential_release [simp]: "release_task Sequential dependents i s = Inr s"
  by (simp add: release_task_def release_dependents_def)

lemma sequential_keeps_taking:
  assumes f: "fit E g" and inv: "sequential_inv E g s" and base: "base_inv g s"
    and pop: "try_pop_pending_node Sequential (waiting s) (pending s) = Some (i, rest)"
    and t: "take_pending E g Sequential (dependents_of E g) i (s\<lparr>pending := rest\<rparr>) = Inr s'"
  shows "sequential_inv E g s'"
  using t
proof (cases rule: take_pending_cases)
  case (skipped r u)
  then show ?thesis using sequential_hands_out [OF f inv base pop] inv by (auto simp: sequential_inv_def alone_def)
next
  case (started slot pool)
  then show ?thesis using sequential_hands_out [OF f inv base pop] inv by (auto simp: sequential_inv_def alone_def)
qed

lemma sequential_keeps_finishing:
  assumes inv: "sequential_inv E g s" and fin: "finish_task E g Sequential (dependents_of E g) k s = Inr s'"
  shows "sequential_inv E g s'"
proof -
  obtain i slot where i: "waiting s ! k = (i, slot)" by (cases "waiting s ! k")
  obtain t where "release_task Sequential (dependents_of E g) i t = Inr s'" "pending t = pending s"
      "visit_log t = visit_log s @ [TaskFinished i (outcome E i)]"
    using finish_task_cases [OF fin i] by metis
  then show ?thesis using inv by (auto simp: sequential_inv_def alone_def)
qed

lemma sequential_completes:
  assumes f: "fit E g" and inv: "sequential_inv E g s" and base: "base_inv g s" and idle: "pending s = []" "waiting s = []"
  shows "ended_in (visit_log s) = {..< length (weights g)}"
proof -
  have "set (handed_out (visit_log s)) = {..< length (weights g)}"
    using f inv idle(1) by (auto simp: sequential_inv_def fit_def library_ok_def topo_order_def split: sum.splits)
  moreover have "started_in (visit_log s) \<subseteq> ended_in (visit_log s)" using base idle(2) by (auto simp: base_inv_def running_def)
  ultimately show ?thesis using handed_out_set [of g "visit_log s"] base by (auto simp: base_inv_def)
qed

interpretation sequential: dispatcher Sequential fit sequential_inv
proof (unfold_locales, goal_cases)
  case (3 E g first)
  then show ?case by (auto simp: sequential_inv_def visit_start_def new_pending_nodes_def split: sum.splits)
next
  case (4 E g s n)
  then show ?case by (simp add: sequential_inv_def)
next
  case (5 E g s i rest)
  then show ?case by (rule sequential_hands_out(1))
next
  case law: (6 E g s i rest s')
  show ?case by (rule sequential_keeps_taking [OF law])
next
  case law: (7 E g s k s')
  show ?case by (rule sequential_keeps_finishing [OF law(2,5)])
next
  case (9 E g s)
  then show ?case using sequential_completes by (simp add: get_incomplete_tasks_def)
qed (simp_all add: fit_def)

end
