(* ===== verification/Visitor_Contract.thy ===== *)
theory Visitor_Contract imports Visitor_Strategies begin

text \<open>
  What a visit of a task graph guarantees, for both strategies: order and completeness, what a failed or a
  reused task keeps from running, why a task was skipped, how a visit can fail, and the slots of the tasks.
\<close>

lemma visit_facts:
  assumes "fit E g" and "visit E strategy g = (r, s)"
  shows "log_ok g (visit_log s)" "skip_inv E g s" "every_event slot_event_ok (visit_log s)"
    and "r = Inr () \<Longrightarrow> ended_in (visit_log s) = {..< length (weights g)}"
    and "r = Inl e \<Longrightarrow> visit_failure E g e"
  using parallel.visit_outcome [of E g r s] sequential.visit_outcome [of E g r s] assms by (cases strategy; simp)+

lemma log_ok_finished: "log_ok g l \<Longrightarrow> i \<in> ended_in l \<Longrightarrow> i \<notin> started_in l \<Longrightarrow> \<exists>r. TaskSkipped i r \<in> set l"
proof (induction l rule: rev_induct)
  case (snoc e l)
  then show ?case by (cases e) (auto simp: event_ok_def)
qed simp

text \<open>A task that has an entry in the skip map never starts, and a visit that succeeds has skipped it.\<close>

lemma marked_never_starts:
  assumes "fit E g" and v: "visit E strategy g = (r, s)" and b: "b \<in> dom (skips s)" "b < length (weights g)"
  shows "b \<notin> started_in (visit_log s) \<and> (r = Inr () \<longrightarrow> (\<exists>q. TaskSkipped b q \<in> set (visit_log s)))"
proof -
  have n: "b \<notin> started_in (visit_log s)" using visit_facts(2) [OF assms(1,2)] b(1) by (auto simp: skip_inv_def)
  moreover have "\<exists>q. TaskSkipped b q \<in> set (visit_log s)" if "r = Inr ()"
    using visit_facts(4) [OF assms(1,2) that] b(2) n log_ok_finished [OF visit_facts(1) [OF assms(1,2)], of b] by simp
  ultimately show ?thesis by blast
qed

lemma downstream_in_range: "graph_ok g \<Longrightarrow> (i, b) \<in> (edge_rel g)\<^sup>+ \<Longrightarrow> b < length (weights g)"
  by (auto simp: graph_ok_def dest!: tranclD2)

section \<open>An example\<close>

definition example_task :: "string \<Rightarrow> string \<Rightarrow> NodeType \<Rightarrow> TP \<Rightarrow> task" where
  "example_task n kind res phase =
     \<lparr>work_node_id = n, task_type = kind, task_resource = res, dbt_nodes = [\<lparr>node_uid = n, continues = False\<rparr>], task_phase = Some phase,
      result_receiver = None\<rparr>"

text \<open>Models \<open>a\<close>, \<open>b\<close> and \<open>c\<close>, the two phases of a test of \<open>c\<close>, and the barrier behind \<open>b\<close>.\<close>

definition example_graph :: task_graph where
  "example_graph =
     \<lparr>weights = [example_task ''a'' ''run'' Model TPRun, example_task ''b'' ''run'' Model TPRun,
        example_task ''t'' ''render'' TestNode TPRender, example_task ''t'' ''run'' TestNode TPRun,
        example_task ''barrier'' ''barrier'' Model TPRun, example_task ''c'' ''run'' Model TPRun],
      task_edges = [(0, 1), (5, 2), (2, 3), (1, 4)]\<rparr>"

definition example_env :: visit_env where
  "example_env =
     \<lparr>toposort = (\<lambda>_. Inr [0, 1, 5, 2, 3, 4]), externals = (\<lambda>_. [0, 5]), hash_order = rev, span_error = (\<lambda>_. None),
      outcome = (\<lambda>i. if i = 0 then Inr Errored else if i = 5 then Inr (ReusedNoChanges ''unchanged'') else Inr Succeeded),
      arrival = (\<lambda>_. 0), token = (\<lambda>_. False), fail_fast_flag = False, run_cache_service_requested = False,
      enable_data_tests = None\<rparr>"

lemma example_fit: "fit example_env example_graph"
proof -
  have l: "length (weights example_graph) = 6" by (simp add: example_graph_def)
  have e: "edge_rel example_graph = {(0, 1), (5, 2), (2, 3), (1, 4)}" by (simp add: edge_rel_def example_graph_def)
  have p: "preds example_graph i = (if i = 1 then {0} else if i = 2 then {5} else if i = 3 then {2} else if i = 4 then {1} else {})" for i
    unfolding preds_def e by auto
  have "topo_order example_graph [0, 1, 5, 2, 3, 4]"
    unfolding topo_order_def l by (auto simp: p less_Suc_eq numeral_eq_Suc)
  moreover have "{i. i < 6 \<and> preds example_graph i = {}} = {0, 5}"
    by (auto simp: p less_Suc_eq numeral_eq_Suc split: if_splits)
  ultimately have "library_ok example_env example_graph"
    unfolding library_ok_def l by (auto simp: example_env_def)
  moreover have "graph_ok example_graph" unfolding graph_ok_def l e by simp
  moreover have "distinct (task_edges example_graph)" by (simp add: example_graph_def)
  moreover have "hash_ok example_env" by (simp add: hash_ok_def example_env_def)
  ultimately show ?thesis by (simp add: fit_def)
qed

definition example_log :: "visit_event list" where
  "example_log =
     [TaskStarted 5 1, TaskStarted 0 2, TaskFinished 5 (Inr (ReusedNoChanges ''unchanged'')), TaskSkipped 2 Reused,
      TaskSkipped 3 Reused, TaskFinished 0 (Inr Errored), TaskSkipped 1 (FailedUpstream ''a''), TaskStarted 4 1,
      TaskFinished 4 (Inr Succeeded)]"

lemma example_parallel:
  "fst (visit_parallel example_env example_graph) = Inr ()"
  "visit_log (snd (visit_parallel example_env example_graph)) = example_log"
  by code_simp+

lemma example_visit: "visit example_env Parallel example_graph = (Inr (), snd (visit_parallel example_env example_graph))"
  using example_parallel(1) by (simp add: visit_parallel_def prod_eq_iff)

lemma example_behind: "propagates example_env example_graph 0" "1 \<in> blocked example_graph 0"
    "reuses example_env 5" "3 \<in> reused_by example_graph 5" "tests_uniform example_graph"
proof -
  show "propagates example_env example_graph 0" "reuses example_env 5" by code_simp+
  have "(0, 1) \<in> feeds example_graph" by (simp add: feeds_def edge_rel_def is_barrier_def example_graph_def example_task_def)
  then show "1 \<in> blocked example_graph 0" by (auto simp: blocked_def)
  have "(2, 3) \<in> same_work example_graph" "(5, 2) \<in> edge_rel example_graph" "is_test example_graph 2"
    by (simp_all add: same_work_def edge_rel_def work_of_def is_test_def is_barrier_def example_graph_def example_task_def)
  then show "3 \<in> reused_by example_graph 5" by (auto simp: reused_by_def intro!: ImageI [of 2] r_into_rtrancl)
  have "length (weights example_graph) = Suc (Suc (Suc (Suc (Suc (Suc 0)))))" by (simp add: example_graph_def)
  then show "tests_uniform example_graph"
    unfolding tests_uniform_def
    by (simp add: All_less_Suc is_test_def is_barrier_def work_of_def example_graph_def example_task_def)
qed

section \<open>Order and completeness\<close>

text \<open>C6 On an acyclic graph, without a cancellation, a visit with either strategy succeeds, and its log
  has every task once: started and finished later, or skipped, and only after all its predecessors.\<close>

theorem visit_complete:
  assumes "fit E g" and "toposort E g = Inr ord" and "\<forall>n. \<not> token E n"
    and "\<forall>i < length (weights g). span_error E i = None \<and> outcome E i \<noteq> Inr SkippedUpstreamFailed"
  shows "fst (visit E strategy g) = Inr () \<and> log_ok g (visit_log (snd (visit E strategy g))) \<and>
    ended_in (visit_log (snd (visit E strategy g))) = {..< length (weights g)}"
proof -
  obtain r s where v: "visit E strategy g = (r, s)" by (cases "visit E strategy g")
  have "r = Inr ()"
  proof (cases r)
    case (Inl e)
    then show ?thesis using visit_facts(5) [OF assms(1) v] assms(2-4) by (auto simp: visit_failure_def)
  qed simp
  then show ?thesis using visit_facts(1,4) [OF assms(1) v] v by simp
qed

theorem visit_complete_witness:
  "fst (visit example_env Parallel example_graph) = Inr () \<and> ended_in example_log = {..<6} \<and>
   ended_in (visit_log (snd (visit example_env Sequential example_graph))) = {..<6}"
proof -
  have l: "length (weights example_graph) = 6" by (simp add: example_graph_def)
  have "fst (visit example_env strategy example_graph) = Inr () \<and>
      ended_in (visit_log (snd (visit example_env strategy example_graph))) = {..<6}" for strategy
    using visit_complete [of example_env example_graph "[0, 1, 5, 2, 3, 4]" strategy] example_fit l
    by (simp add: example_env_def)
  from this [of Parallel] this [of Sequential] show ?thesis using example_parallel(2) by (simp add: visit_parallel_def)
qed

section \<open>Failed and reused tasks\<close>

text \<open>C7 After a failure that is not confined to its model, no task behind it that is reached without
  crossing a barrier is started, in the whole visit; a visit that succeeds has skipped each of them.\<close>

theorem failed_upstream_never_runs:
  assumes "fit E g" and "visit E strategy g = (r, s)" and "TaskFinished i q \<in> set (visit_log s)"
    and "propagates E g i" and "b \<in> blocked g i"
  shows "b \<notin> started_in (visit_log s) \<and> (r = Inr () \<longrightarrow> (\<exists>reason. TaskSkipped b reason \<in> set (visit_log s)))"
proof -
  have "b \<in> dom (skips s)" using visit_facts(2) [OF assms(1,2)] assms(3-5) unfolding skip_inv_def by blast
  moreover have "b < length (weights g)"
    using downstream_in_range [OF _ blocked_downstream [OF assms(5)]] assms(1) by (simp add: fit_def)
  ultimately show ?thesis using marked_never_starts [OF assms(1,2)] by blast
qed

theorem failed_upstream_witness:
  "1 \<notin> started_in example_log \<and> (\<exists>reason. TaskSkipped 1 reason \<in> set example_log)"
  using failed_upstream_never_runs [OF example_fit example_visit, of 0 "Inr Errored" 1] example_behind(1,2)
  by (simp add: example_parallel(2)) (simp add: example_log_def)

text \<open>C8 Behind a reused task no phase of a test that depends on it is started: the visit skips the phases
  together, so none waits for the result of another.\<close>

theorem reused_tests_skip_all_phases:
  assumes "fit E g" and "visit E strategy g = (r, s)" and "TaskFinished i q \<in> set (visit_log s)"
    and "reuses E i" and "tests_uniform g" and "b \<in> reused_by g i"
  shows "b \<notin> started_in (visit_log s) \<and> (r = Inr () \<longrightarrow> (\<exists>reason. TaskSkipped b reason \<in> set (visit_log s)))"
proof -
  have "b \<in> dom (skips s)" using visit_facts(2) [OF assms(1,2)] assms(3-6) unfolding skip_inv_def by blast
  moreover have "b < length (weights g)"
    using downstream_in_range [OF _ reused_downstream [OF assms(6)]] assms(1) by (simp add: fit_def)
  ultimately show ?thesis using marked_never_starts [OF assms(1,2)] by blast
qed

theorem reused_tests_witness:
  "3 \<notin> started_in example_log \<and> (\<exists>reason. TaskSkipped 3 reason \<in> set example_log)"
  using reused_tests_skip_all_phases [OF example_fit example_visit, of 5 "Inr (ReusedNoChanges ''unchanged'')" 3]
    example_behind(3,4,5)
  by (simp add: example_parallel(2)) (simp add: example_log_def)

text \<open>C27 A task is skipped only for a reason: a task that finished in this visit failed and is upstream of
  it, in another node or in an earlier phase of its own, or was reused and the task belongs to a test of it.\<close>

theorem skips_explained:
  assumes "fit E g" and "visit E strategy g = (r, s)" and "TaskSkipped b reason \<in> set (visit_log s)"
  shows "\<exists>i. TaskFinished i (outcome E i) \<in> set (visit_log s) \<and> (i, b) \<in> (edge_rel g)\<^sup>+ \<and>
    (case reason of
       FailedUpstream n \<Rightarrow> propagates E g i \<and> b \<in> blocked g i \<and> n = work_of g i \<and> work_of g b \<noteq> n
     | FailedPhase \<Rightarrow> propagates E g i \<and> b \<in> blocked g i \<and> work_of g b = work_of g i
     | Reused \<Rightarrow> reuses E i \<and> b \<in> reused_by g i)"
proof -
  have "skips s b = Some reason" using visit_facts(2) [OF assms(1,2)] assms(3) unfolding skip_inv_def by blast
  then obtain i where i: "TaskFinished i (outcome E i) \<in> set (visit_log s)" "causes E g i b reason"
    using visit_facts(2) [OF assms(1,2)] unfolding skip_inv_def by blast
  have "case reason of
       FailedUpstream n \<Rightarrow> propagates E g i \<and> b \<in> blocked g i \<and> n = work_of g i \<and> work_of g b \<noteq> n
     | FailedPhase \<Rightarrow> propagates E g i \<and> b \<in> blocked g i \<and> work_of g b = work_of g i
     | Reused \<Rightarrow> reuses E i \<and> b \<in> reused_by g i"
    using i(2) by (auto simp: causes_def failure_reason_def split: if_splits)
  then show ?thesis using i causes_downstream by blast
qed

theorem skips_explained_witness:
  "\<exists>i. TaskFinished i (outcome example_env i) \<in> set example_log \<and> (i, 1) \<in> (edge_rel example_graph)\<^sup>+ \<and>
     propagates example_env example_graph i \<and> ''a'' = work_of example_graph i"
  using skips_explained [OF example_fit example_visit, of 1 "FailedUpstream ''a''"]
  by (simp add: example_parallel(2)) (auto simp: example_log_def)

section \<open>Failures of the visit\<close>

text \<open>C28 A visit fails only with the reported cycle of the graph, a cancellation, an error of its tracing
  spans, or the panic for a task that answers the status of a skipped one. No index is out of bounds, no task is unknown, and
  the error that tasks were not processed does not occur.\<close>

theorem visit_fails_only:
  assumes "fit E g" and "visit E strategy g = (Inl e, s)"
  shows "(\<exists>c. toposort E g = Inl c \<and> (c, c) \<in> (edge_rel g)\<^sup>+ \<and> e = task_graph_cycle_error g c) \<or>
    (\<exists>n. token E n) \<and> e = cancelled \<or> (\<exists>i < length (weights g). span_error E i = Some e) \<or>
    (\<exists>i < length (weights g). outcome E i = Inr SkippedUpstreamFailed) \<and> e = unreachable_failure"
proof -
  have "visit_failure E g e" using visit_facts(5) [OF assms] by simp
  then show ?thesis using assms(1) unfolding visit_failure_def
    by (auto simp: fit_def library_ok_def)
qed

lemma cancelled_visit: "fit (example_env\<lparr>token := \<lambda>n. n = 2\<rparr>) example_graph"
    "fst (visit (example_env\<lparr>token := \<lambda>n. n = 2\<rparr>) Parallel example_graph) = Inl cancelled"
proof -
  show "fit (example_env\<lparr>token := \<lambda>n. n = 2\<rparr>) example_graph" using example_fit
    by (simp add: fit_def hash_ok_def library_ok_def)
  show "fst (visit (example_env\<lparr>token := \<lambda>n. n = 2\<rparr>) Parallel example_graph) = Inl cancelled" by code_simp
qed

theorem visit_fails_witness:
  "\<exists>s. visit (example_env\<lparr>token := \<lambda>n. n = 2\<rparr>) Parallel example_graph = (Inl cancelled, s) \<and>
     (cancelled = Err OperationCanceled ''Operation cancelled'' \<or> cancelled = unreachable_failure)"
proof -
  obtain r s where v: "visit (example_env\<lparr>token := \<lambda>n. n = 2\<rparr>) Parallel example_graph = (r, s)"
    by (cases "visit (example_env\<lparr>token := \<lambda>n. n = 2\<rparr>) Parallel example_graph")
  then have r: "r = Inl cancelled" using cancelled_visit(2) by simp
  show ?thesis using visit_fails_only [OF cancelled_visit(1) v [unfolded r]] v r
    by (auto simp: cancelled_def)
qed

section \<open>Slots\<close>

text \<open>C29 A task starts with the lowest positive slot that no running task has: slots of running tasks
  differ, and none exceeds the number of tasks then running.\<close>

theorem slots_lowest:
  assumes "fit E g" and "visit E strategy g = (r, s)" and "visit_log s = before @ TaskStarted i n # after"
  shows "1 \<le> n \<and> n \<notin> slots_in_use before \<and> {1..<n} \<subseteq> slots_in_use before"
  using visit_facts(3) [OF assms(1,2), unfolded every_event_def, rule_format, OF assms(3)] by (simp add: slot_event_ok_def)

theorem slots_lowest_witness: "(2::int) \<notin> slots_in_use [TaskStarted 5 1] \<and> {1..<(2::int)} \<subseteq> slots_in_use [TaskStarted 5 1]"
  using slots_lowest [OF example_fit example_visit, of "[TaskStarted 5 1]" 0 2 "drop 2 example_log"]
  by (simp add: example_parallel(2)) (simp add: example_log_def)

section \<open>The sequential strategy\<close>

text \<open>The sequential visit takes the tasks in the order of the topological sort, each when no other is
  running, and all of them when it succeeds.\<close>

theorem sequential_order:
  assumes "fit E g" and "toposort E g = Inr ord" and "visit_sequential E g = (r, s)"
  shows "every_event alone (visit_log s) \<and> (\<exists>k. handed_out (visit_log s) = take k ord) \<and>
    (r = Inr () \<longrightarrow> handed_out (visit_log s) = ord)"
proof -
  have v: "visit E Sequential g = (r, s)" using assms(3) by (simp add: visit_sequential_def)
  have f: "new_pending_nodes E Sequential g = Inr (rev ord)" using assms(2) by (simp add: new_pending_nodes_def)
  obtain t where t: "sequential.sound E g t" "visit_log s = visit_log t"
    by (rule sequential.visit_reaches [OF assms(1) v f]) blast
  have inv: "sequential_inv E g t" "base_inv g t" using t(1) by (simp_all add: sequential.sound_def)
  then have o: "ord = handed_out (visit_log s) @ rev (pending t)" "every_event alone (visit_log s)"
    using assms(2) t(2) by (auto simp: sequential_inv_def)
  have "handed_out (visit_log s) = ord" if "r = Inr ()"
  proof -
    have topo: "distinct ord" "set ord = {..< length (weights g)}" using assms(1,2) by (auto simp: fit_def library_ok_def topo_order_def)
    have "set (handed_out (visit_log s)) = {..< length (weights g)}"
      using handed_out_set [of g "visit_log s"] visit_facts(1,4) [OF assms(1) v] log_ok_range [of g "visit_log s"] that by auto
    then have "set (rev (pending t)) = {}" using o(1) topo by (metis Int_absorb1 distinct_append order_refl set_append sup.cobounded2)
    then show ?thesis using o(1) by simp
  qed
  moreover have "handed_out (visit_log s) = take (length (handed_out (visit_log s))) ord" using o(1) by simp
  ultimately show ?thesis using o(2) by blast
qed

theorem sequential_order_witness:
  "handed_out (visit_log (snd (visit_sequential example_env example_graph))) = [0, 1, 5, 2, 3, 4]"
proof -
  obtain r s where v: "visit_sequential example_env example_graph = (r, s)" by (cases "visit_sequential example_env example_graph")
  have "fst (visit_sequential example_env example_graph) = Inr ()" by code_simp
  then show ?thesis using sequential_order [OF example_fit _ v, of "[0, 1, 5, 2, 3, 4]"] v by (simp add: example_env_def)
qed

end
