(* ===== verification/Task_Graph.thy ===== *)
theory Task_Graph imports Visitor Schedule begin

text \<open>
  The graph of tasks of a run, from \<^verbatim>\<open>crates/dbt-tasks-sa/src/graph.rs\<close> and \<^verbatim>\<open>task.rs\<close> beside it: which
  phases a node of the schedule goes through, and what each phase waits for. The static analysis, the
  factory of tasks and the builder of comparisons are interfaces of the code (\<^verbatim>\<open>dyn\<close> traits), here records of
  functions; the implementations the repository has are \<open>default_buckets\<close> and \<open>default_factory\<close>. What a task
  does when it runs is left out: a task is what the graph and the visitor ask of it.
\<close>

section \<open>Options\<close>

datatype Execute = ExecuteRemote | ExecuteSidecar | ExecuteService

datatype LocalExecutionBackendKind = BackendRemote | BackendInline | BackendWorker | BackendService

fun backend_of_compute :: "ComputeArg \<Rightarrow> LocalExecutionBackendKind" where
  "backend_of_compute Remote = BackendRemote"
| "backend_of_compute Inline = BackendInline"
| "backend_of_compute Sidecar = BackendWorker"
| "backend_of_compute Service = BackendService"

fun from_compute_flag :: "LocalExecutionBackendKind \<Rightarrow> Execute" where
  "from_compute_flag BackendRemote = ExecuteRemote"
| "from_compute_flag BackendInline = ExecuteSidecar"
| "from_compute_flag BackendWorker = ExecuteSidecar"
| "from_compute_flag BackendService = ExecuteService"

datatype StaticAnalysisKind = AnalysisUnsafe | AnalysisOff | AnalysisStrict | AnalysisBaseline | AnalysisOn

definition normalize_static_analysis_kind :: "StaticAnalysisKind \<Rightarrow> StaticAnalysisKind" where
  "normalize_static_analysis_kind k = (case k of AnalysisOn \<Rightarrow> AnalysisStrict | other \<Rightarrow> other)"

definition is_strict_static_analysis :: "StaticAnalysisKind \<Rightarrow> bool" where
  "is_strict_static_analysis k \<longleftrightarrow> normalize_static_analysis_kind k = AnalysisStrict"

definition task_graph_phases_for_command :: "FsCommand \<Rightarrow> TP list option" where
  "task_graph_phases_for_command c =
     (if c \<in> {Run, Test, Build, SeedCommand, SnapshotCommand} then Some [TPRender, TPAnalyze, TPRun]
      else if c \<in> {Compile, CheckCommand, Extension ''lineage''} then Some [TPRender, TPAnalyze]
      else if c = Show then Some [TPRender, TPAnalyze, TPShow] else None)"

definition command_uses_generic_test_aggregation :: "FsCommand \<Rightarrow> bool" where
  "command_uses_generic_test_aggregation c \<longleftrightarrow> c \<in> {Run, Test, Build, SeedCommand, SnapshotCommand}"

section \<open>Tasks\<close>

definition node_task :: "node \<Rightarrow> task_node" where
  "node_task n = \<lparr>node_uid = unique_id n, continues = continues_on_error n\<rparr>"

definition render_task :: "node \<Rightarrow> task" where
  "render_task n = \<lparr>work_node_id = unique_id n, task_type = ''render'', task_resource = resource_type n,
     dbt_nodes = [node_task n], task_phase = Some TPRender, result_receiver = None\<rparr>"

definition run_task :: "node \<Rightarrow> TP option \<Rightarrow> task" where
  "run_task n rx = \<lparr>work_node_id = unique_id n, task_type = ''run'', task_resource = resource_type n,
     dbt_nodes = [node_task n], task_phase = Some TPRun, result_receiver = rx\<rparr>"

definition show_task :: "node \<Rightarrow> TP option \<Rightarrow> task" where
  "show_task n rx = \<lparr>work_node_id = unique_id n, task_type = ''show'', task_resource = resource_type n,
     dbt_nodes = [node_task n], task_phase = Some TPShow, result_receiver = rx\<rparr>"

definition barrier_task :: task where
  "barrier_task = \<lparr>work_node_id = ''barrier'', task_type = ''barrier'', task_resource = Unspecified,
     dbt_nodes = [], task_phase = None, result_receiver = None\<rparr>"

text \<open>\<open>running\<close> are the types of the experimentals that have started.\<close>

definition experimental_task :: "string list \<Rightarrow> node \<Rightarrow> task option" where
  "experimental_task running n =
     (case experimental_type n of
        None \<Rightarrow> None
      | Some t \<Rightarrow>
          if t \<in> set running
          then Some \<lparr>work_node_id = unique_id n, task_type = t, task_resource = Experimental,
            dbt_nodes = [node_task n], task_phase = Some TPRun, result_receiver = None\<rparr>
          else None)"

text \<open>A group of generic tests that run as one query.\<close>

record test_group =
  group_unique_id :: string
  aggregated_test :: node
  member_tests :: "node list"
  group_tests :: "string list"

record test_aggregation =
  groups :: "(string, test_group) bmap"
  group_ids :: "string \<Rightarrow> string option"

definition generic_test_group_for_node :: "test_aggregation \<Rightarrow> string \<Rightarrow> test_group option" where
  "generic_test_group_for_node a uid =
     (case map_of (groups a) uid of
        Some grp \<Rightarrow> Some grp
      | None \<Rightarrow> (case group_ids a uid of None \<Rightarrow> None | Some gid \<Rightarrow> map_of (groups a) gid))"

record node_tasks =
  renderable :: "task option"
  analyzeable :: "task option"
  runnable :: "task option"
  showable :: "task option"

section \<open>The factory\<close>

text \<open>
  The methods of the trait without a body. \<open>analyze_task\<close> takes the receiver of the previous phase and
  whether it gets a sender.
\<close>

record tasks_factory =
  tasks_for_generic_test_group :: "TP list \<Rightarrow> test_group \<Rightarrow> node_tasks"
  runnable_task :: "string \<Rightarrow> nodes \<Rightarrow> TP list \<Rightarrow> Execute \<Rightarrow> node option"
  analyze_task :: "node \<Rightarrow> TP option \<Rightarrow> bool \<Rightarrow> task option"
  analyzeable_task :: "nodes \<Rightarrow> string \<Rightarrow> TP list \<Rightarrow> node option"

definition renderable_task :: "nodes \<Rightarrow> string \<Rightarrow> node option" where
  "renderable_task ns uid =
     or_else (map_of (models ns) uid) (or_else (map_of (snapshots ns) uid) (or_else (map_of (tests ns) uid)
     (or_else (map_of (seeds ns) uid) (or_else (map_of (unit_tests ns) uid)
     (or_else (map_of (analyses ns) uid) (map_of (function_nodes ns) uid))))))"

definition showable_task :: "nodes \<Rightarrow> string \<Rightarrow> node option" where
  "showable_task ns uid =
     or_else (map_of (models ns) uid) (or_else (map_of (seeds ns) uid) (or_else (map_of (snapshots ns) uid)
     (or_else (map_of (analyses ns) uid) (map_of (tests ns) uid))))"

definition runnable_remote_task :: "nodes \<Rightarrow> string \<Rightarrow> node option" where
  "runnable_remote_task ns uid =
     or_else (map_of (models ns) uid) (or_else (map_of (tests ns) uid) (or_else (map_of (snapshots ns) uid)
     (or_else (map_of (seeds ns) uid) (or_else (map_of (sources ns) uid) (or_else (map_of (unit_tests ns) uid)
     (or_else (map_of (function_nodes ns) uid) (map_of (saved_queries ns) uid)))))))"

definition cloneable_task :: "nodes \<Rightarrow> string \<Rightarrow> node option" where
  "cloneable_task ns uid =
     or_else (map_of (models ns) uid) (or_else (map_of (snapshots ns) uid) (map_of (seeds ns) uid))"

definition effective_unit_test_execute :: "node \<Rightarrow> Execute \<Rightarrow> Execute" where
  "effective_unit_test_execute ut execute =
     (case compute ut of None \<Rightarrow> execute | Some c \<Rightarrow> from_compute_flag (backend_of_compute c))"

text \<open>The tasks of an aggregated test: a task and the receiver it leaves for the next phase.\<close>

definition renderable_test_group_task :: "TP list \<Rightarrow> test_group \<Rightarrow> task option \<times> TP option" where
  "renderable_test_group_task phases grp =
     (if TPRender \<in> set phases
      then (Some \<lparr>work_node_id = group_unique_id grp, task_type = ''render'',
              task_resource = resource_type (aggregated_test grp), dbt_nodes = map node_task (member_tests grp),
              task_phase = Some TPRender, result_receiver = None\<rparr>,
            if TPAnalyze \<in> set phases \<or> TPRun \<in> set phases then Some TPRender else None)
      else (None, None))"

definition runnable_test_group_task :: "TP list \<Rightarrow> test_group \<Rightarrow> TP option \<Rightarrow> task option" where
  "runnable_test_group_task phases grp rx =
     (if TPRun \<in> set phases
      then Some \<lparr>work_node_id = group_unique_id grp, task_type = ''run'', task_resource = TestNode,
             dbt_nodes = map node_task (member_tests grp), task_phase = Some TPRun, result_receiver = rx\<rparr>
      else None)"

definition default_factory :: tasks_factory where
  "default_factory =
     \<lparr>tasks_for_generic_test_group = (\<lambda>phases grp.
        case renderable_test_group_task phases grp of (r, rx) \<Rightarrow>
          \<lparr>renderable = r, analyzeable = None, runnable = runnable_test_group_task phases grp rx, showable = None\<rparr>),
      runnable_task = (\<lambda>uid ns phases execute.
        case execute of
          ExecuteRemote \<Rightarrow> if TPRun \<in> set phases then runnable_remote_task ns uid else None
        | _ \<Rightarrow> None),
      analyze_task = (\<lambda>n rx tx. None),
      analyzeable_task = (\<lambda>ns uid phases. None)\<rparr>"

text \<open>The map from a node to what depends on it.\<close>

definition build_reverse_deps :: "string deps \<Rightarrow> string \<Rightarrow> string list option" where
  "build_reverse_deps d uid =
     (let children = map fst (filter (\<lambda>(k, ds). uid \<in> set ds) d) in if children = [] then None else Some children)"

definition has_only_unit_test_children :: "Schedule \<Rightarrow> (string \<Rightarrow> string list option) \<Rightarrow> string \<Rightarrow> bool" where
  "has_only_unit_test_children sched rdeps uid =
     (case rdeps uid of
        None \<Rightarrow> False
      | Some children \<Rightarrow>
          list_all (\<lambda>c. starts_with c ''unit_test.'') (filter (\<lambda>c. c \<notin> set (sorted_nodes sched)) children))"

text \<open>The task of the Analyze phase and the receiver left for the phases after it.\<close>

definition analyze_phase ::
    "tasks_factory \<Rightarrow> node option \<Rightarrow> bool \<Rightarrow> TP option \<Rightarrow> task option \<times> TP option" where
  "analyze_phase F n needs_sender rx =
     (case n of
        None \<Rightarrow> (None, rx)
      | Some n \<Rightarrow> (analyze_task F n rx needs_sender, if needs_sender then Some TPAnalyze else None))"

definition run_phase ::
    "nodes \<Rightarrow> string \<Rightarrow> Execute \<Rightarrow> node option \<Rightarrow> TP option \<Rightarrow> task option \<times> TP option" where
  "run_phase ns uid execute n rx =
     (case n of
        None \<Rightarrow> (None, rx)
      | Some n \<Rightarrow>
          let e = (if starts_with uid ''unit_test.''
                   then (case map_of (unit_tests ns) uid of Some ut \<Rightarrow> effective_unit_test_execute ut execute | None \<Rightarrow> execute)
                   else execute)
          in if e = ExecuteService then (None, rx) else (Some (run_task n rx), None))"

definition tasks_for_node ::
    "tasks_factory \<Rightarrow> string \<Rightarrow> nodes \<Rightarrow> Schedule \<Rightarrow> Execute \<Rightarrow> TP list \<Rightarrow> test_aggregation option \<Rightarrow>
     (string \<Rightarrow> string list option) \<Rightarrow> node_tasks" where
  "tasks_for_node F uid ns sched execute phases aggregation rdeps =
     (case Option.bind aggregation (\<lambda>a. generic_test_group_for_node a uid) of
        Some grp \<Rightarrow> tasks_for_generic_test_group F phases grp
      | None \<Rightarrow>
          let the_renderable = (if TPRender \<in> set phases then renderable_task ns uid else None);
              the_analyzeable = (if TPAnalyze \<in> set phases then analyzeable_task F ns uid phases else None);
              the_runnable = runnable_task F uid ns phases execute;
              the_showable = (if TPShow \<in> set phases then showable_task ns uid else None);
              is_unit_test_only = list_all (\<lambda>u. starts_with u ''unit_test.'') (selected_nodes sched);
              runs = (\<not> (is_unit_test_only \<and> has_only_unit_test_children sched rdeps uid) \<and> uid \<in> set (selected_nodes sched));
              rx = (if the_renderable \<noteq> None \<and> (the_analyzeable \<noteq> None \<or> the_runnable \<noteq> None) then Some TPRender else None)
          in case analyze_phase F the_analyzeable (the_runnable \<noteq> None \<or> the_showable \<noteq> None) rx of (analyze, rx) \<Rightarrow>
             case (if runs then run_phase ns uid execute the_runnable rx else (None, rx)) of (run, rx) \<Rightarrow>
               \<lparr>renderable = map_option render_task the_renderable, analyzeable = analyze, runnable = run,
                showable = map_option (\<lambda>n. show_task n rx) the_showable\<rparr>)"

section \<open>Nodes of the graph\<close>

record static_analysis_buckets =
  global_static_analysis :: "StaticAnalysisKind option"
  in_off_closure :: "string \<Rightarrow> bool"
  in_baseline_closure :: "string \<Rightarrow> bool"
  in_dynamic_closure :: "string \<Rightarrow> bool"
  dynamic_node :: "string \<Rightarrow> IntrospectionKind option"

definition in_baseline_or_off_closure :: "static_analysis_buckets \<Rightarrow> string \<Rightarrow> bool" where
  "in_baseline_or_off_closure B uid \<longleftrightarrow> in_baseline_closure B uid \<or> in_off_closure B uid"

definition default_buckets :: static_analysis_buckets where
  "default_buckets = \<lparr>global_static_analysis = Some AnalysisOff, in_off_closure = (\<lambda>_. True),
     in_baseline_closure = (\<lambda>_. False), in_dynamic_closure = (\<lambda>_. False), dynamic_node = (\<lambda>_. None)\<rparr>"

definition add_node :: "task \<Rightarrow> task_graph \<Rightarrow> nat \<times> task_graph" where
  "add_node t g = (length (weights g), g\<lparr>weights := weights g @ [t]\<rparr>)"

definition update_edge :: "nat \<times> nat \<Rightarrow> task_graph \<Rightarrow> task_graph" where
  "update_edge e g = (if e \<in> set (task_edges g) then g else g\<lparr>task_edges := task_edges g @ [e]\<rparr>)"

text \<open>What \<^verbatim>\<open>build_phased_task_graph\<close> is given.\<close>

record graph_input =
  gi_schedule :: Schedule
  gi_factory :: tasks_factory
  gi_nodes :: nodes
  gi_execute :: Execute
  gi_phases :: "TP list"
  gi_buckets :: static_analysis_buckets
  infer_schemas :: bool
  gi_aggregation :: "test_aggregation option"
  running_experimentals :: "string list"

text \<open>The results of \<^verbatim>\<open>initialize_graph\<close>; of the tasks by phase only the ids are read.\<close>

record graph_build =
  built :: task_graph
  node_indices :: "TP \<times> string \<Rightarrow> nat option"
  analyzeable_indices :: "(string, nat) bmap"
  runnable_indices :: "(string, nat) bmap"
  renderable_ids :: "string bset"
  node_to_phases :: "(string, TP list) bmap"
  nodes_with_no_tasks :: "string bset"

definition empty_build :: graph_build where
  "empty_build = \<lparr>built = \<lparr>weights = [], task_edges = []\<rparr>, node_indices = (\<lambda>_. None), analyzeable_indices = [],
     runnable_indices = [], renderable_ids = [], node_to_phases = [], nodes_with_no_tasks = []\<rparr>"

definition is_model_dep_of_unit_test :: "Schedule \<Rightarrow> string \<Rightarrow> bool" where
  "is_model_dep_of_unit_test sched uid \<longleftrightarrow>
     starts_with uid ''model.'' \<and>
     (case build_reverse_deps (sched_deps sched) uid of
        None \<Rightarrow> False
      | Some children \<Rightarrow> list_ex (\<lambda>c. starts_with c ''unit_test.'' \<and> c \<in> set (selected_nodes sched)) children)"

definition expected_node_phases :: "graph_input \<Rightarrow> string \<Rightarrow> TP list" where
  "expected_node_phases I uid =
     (let sched = gi_schedule I; B = gi_buckets I;
          without_analyze = filter (\<lambda>p. p \<noteq> TPAnalyze) (gi_phases I);
          boundary = (if is_model_dep_of_unit_test sched uid then [TPRender] else []);
          ps = (if \<not> in_off_closure B uid then
                  (if starts_with uid ''source'' \<or> uid \<in> set (frontier_nodes sched) then boundary
                   else if starts_with uid ''unit_test.'' \<and> in_baseline_closure B uid then without_analyze
                   else gi_phases I)
                else if uid \<in> set (frontier_nodes sched) then boundary
                else without_analyze);
          ps = (if uid \<in> set (frontier_nodes sched) \<or>
                  uid \<in> set (selected_nodes sched) \<and> uid \<notin> set (all_selected_nodes sched)
                then filter (\<lambda>p. p \<noteq> TPShow) ps else ps)
      in if infer_schemas I \<and> (case get_node (gi_nodes I) uid of Some n \<Rightarrow> introspection n \<noteq> IntroNone | None \<Rightarrow> False)
         then [] else ps)"

definition tasks_of :: "graph_input \<Rightarrow> string \<Rightarrow> node_tasks" where
  "tasks_of I uid =
     (case map_of (experimentals (gi_nodes I)) uid of
        Some n \<Rightarrow>
          \<lparr>renderable = None, analyzeable = None,
           runnable = (if TPRun \<in> set (gi_phases I) \<and> uid \<in> set (selected_nodes (gi_schedule I))
             then experimental_task (running_experimentals I) n else None),
           showable = None\<rparr>
      | None \<Rightarrow>
          tasks_for_node (gi_factory I) uid (gi_nodes I) (gi_schedule I) (gi_execute I) (expected_node_phases I uid)
            (gi_aggregation I) (build_reverse_deps (sched_deps (gi_schedule I))))"

definition add_task :: "TP \<Rightarrow> string \<Rightarrow> task \<Rightarrow> graph_build \<Rightarrow> graph_build" where
  "add_task p uid t b =
     (case add_node t (built b) of (i, g) \<Rightarrow>
        let b = b\<lparr>built := g, node_indices := (node_indices b)((p, uid) \<mapsto> i)\<rparr>
        in case p of
             TPRender \<Rightarrow> b\<lparr>renderable_ids := bs_insert uid (renderable_ids b)\<rparr>
           | TPAnalyze \<Rightarrow> b\<lparr>analyzeable_indices := bm_insert uid i (analyzeable_indices b)\<rparr>
           | TPRun \<Rightarrow> b\<lparr>runnable_indices := bm_insert uid i (runnable_indices b)\<rparr>
           | _ \<Rightarrow> b)"

text \<open>The tasks of a node in the order they are added.\<close>

definition phase_tasks :: "node_tasks \<Rightarrow> (TP \<times> task) list" where
  "phase_tasks ts =
     List.map_filter (\<lambda>(p, t). map_option (Pair p) t)
       [(TPRender, renderable ts), (TPAnalyze, analyzeable ts), (TPRun, runnable ts), (TPShow, showable ts)]"

definition init_node :: "graph_input \<Rightarrow> string \<Rightarrow> graph_build \<Rightarrow> graph_build" where
  "init_node I uid b =
     (if has_key (checks (gi_nodes I)) uid then b
      else
        let pts = phase_tasks (tasks_of I uid);
            b = (if pts = [] \<and> uid \<in> set (selected_nodes (gi_schedule I))
                 then b\<lparr>nodes_with_no_tasks := bs_insert uid (nodes_with_no_tasks b)\<rparr> else b);
            b = fold (\<lambda>(p, t). add_task p uid t) pts b
        in b\<lparr>node_to_phases := bm_insert uid (map fst pts) (node_to_phases b)\<rparr>)"

section \<open>Edges\<close>

text \<open>The edge between two tasks, when both exist.\<close>

definition edge_between :: "nat option \<Rightarrow> nat option \<Rightarrow> (nat \<times> nat) list" where
  "edge_between a b = (case (a, b) of (Some x, Some y) \<Rightarrow> [(x, y)] | _ \<Rightarrow> [])"

definition add_edges :: "(nat \<times> nat) list \<Rightarrow> task_graph \<Rightarrow> task_graph" where
  "add_edges es g = fold update_edge es g"

text \<open>The dependencies of a node of the schedule.\<close>

definition deps_of :: "graph_input \<Rightarrow> string \<Rightarrow> string list" where
  "deps_of I uid = succs (sched_deps (gi_schedule I)) uid"

definition overlapping_source_to_seed :: "graph_input \<Rightarrow> string \<Rightarrow> string option" where
  "overlapping_source_to_seed I source_uid =
     (let by_relation = fold (\<lambda>(seed_uid, n) m. case relation_name n of None \<Rightarrow> m | Some r \<Rightarrow> m(r \<mapsto> seed_uid))
            (seeds (gi_nodes I)) (\<lambda>_. None)
      in if source_uid \<in> set (overlapping_sources (gi_schedule I))
         then Option.bind (map_of (sources (gi_nodes I)) source_uid) (\<lambda>n. Option.bind (relation_name n) by_relation)
         else None)"

definition or_seed :: "graph_input \<Rightarrow> string \<Rightarrow> string" where
  "or_seed I uid = (case overlapping_source_to_seed I uid of Some seed \<Rightarrow> seed | None \<Rightarrow> uid)"

definition overlapping_source_seed_edges :: "graph_input \<Rightarrow> graph_build \<Rightarrow> (nat \<times> nat) list" where
  "overlapping_source_seed_edges I b =
     concat (map (\<lambda>uid. concat (map (\<lambda>dep.
         case overlapping_source_to_seed I dep of
           None \<Rightarrow> []
         | Some seed \<Rightarrow> edge_between (node_indices b (TPRun, seed)) (node_indices b (TPRun, uid))) (deps_of I uid)))
       (sorted_nodes (gi_schedule I)))"

definition initialize_graph :: "graph_input \<Rightarrow> graph_build" where
  "initialize_graph I =
     (let b = fold (init_node I) (sorted_nodes (gi_schedule I)) empty_build
      in b\<lparr>built := add_edges (overlapping_source_seed_edges I b) (built b)\<rparr>)"

definition phases_of :: "graph_build \<Rightarrow> string \<Rightarrow> TP list" where
  "phases_of b uid = (case map_of (node_to_phases b) uid of Some ps \<Rightarrow> ps | None \<Rightarrow> [])"

definition transition_edges :: "graph_input \<Rightarrow> graph_build \<Rightarrow> (nat \<times> nat) list" where
  "transition_edges I b =
     concat (map (\<lambda>uid. concat (map (\<lambda>(p, q). edge_between (node_indices b (p, uid)) (node_indices b (q, uid)))
         (zip (phases_of b uid) (tl (phases_of b uid)))))
       (sorted_nodes (gi_schedule I)))"

definition ephemeral_node :: "graph_input \<Rightarrow> string \<Rightarrow> bool" where
  "ephemeral_node I uid = (case get_node (gi_nodes I) uid of Some n \<Rightarrow> materialized n = Ephemeral | None \<Rightarrow> False)"

text \<open>The nearest parents that are no ephemeral models, by the walk of the code.\<close>

function parent_walk :: "graph_input \<Rightarrow> string list \<Rightarrow> string list \<Rightarrow> string list \<Rightarrow> string list" where
  "parent_walk I parents visited stack =
     (case vec_pop stack of
        None \<Rightarrow> parents
      | Some (p, rest) \<Rightarrow>
          if p \<in> set visited then parent_walk I parents visited rest
          else if ephemeral_node I p then parent_walk I parents (p # visited) (rest @ deps_of I p)
          else parent_walk I (bs_insert (or_seed I p) parents) (p # visited) rest)"
  by pat_completeness auto
termination
proof (relation "measures [\<lambda>(I, ps, v, q). unvisited (sched_deps (gi_schedule I)) v, \<lambda>(I, ps, v, q). length q]", goal_cases)
  case (2 I ps v q x p rest)
  then show ?case using vec_pop_length [of q p rest] by auto
next
  case (3 I ps v q x p rest)
  then show ?case using succs_unvisited [of p v "p # v" "sched_deps (gi_schedule I)"] vec_pop_length [of q p rest]
    by (auto simp: deps_of_def)
next
  case (4 I ps v q x p rest)
  then show ?case using succs_unvisited [of p v "p # v" "sched_deps (gi_schedule I)"] vec_pop_length [of q p rest]
    by (auto simp: deps_of_def)
qed simp

declare parent_walk.simps [simp del]

definition unit_test_render_parent_runs :: "graph_input \<Rightarrow> string \<Rightarrow> string bset" where
  "unit_test_render_parent_runs I uid =
     (case Option.bind (map_of (unit_tests (gi_nodes I)) uid) tested_node_unique_id of
        None \<Rightarrow> []
      | Some tested \<Rightarrow> parent_walk I [] [] (deps_of I tested))"

definition compute_first_upstream_for_phase :: "graph_input \<Rightarrow> graph_build \<Rightarrow> TP \<Rightarrow> string deps" where
  "compute_first_upstream_for_phase I b p =
     restrict_with_transitive (sched_deps (gi_schedule I))
       (map fst (filter (\<lambda>(_, ps). p \<in> set ps) (node_to_phases b)))"

text \<open>The edges into (and, for the run of a unit test, out of) one task of a node with dependencies.\<close>

definition unit_test_edges :: "graph_input \<Rightarrow> graph_build \<Rightarrow> string \<Rightarrow> TP \<Rightarrow> (nat \<times> nat) list" where
  "unit_test_edges I b uid p =
     (let at = (\<lambda>q u. node_indices b (q, u))
      in case p of
           TPRender \<Rightarrow>
             concat (map (\<lambda>dep.
               let q = (if TPAnalyze \<in> set (phases_of b dep) then TPAnalyze else TPRender)
               in if q \<in> set (phases_of b dep) then edge_between (at q dep) (at p uid) else []) (deps_of I uid)) @
             concat (map (\<lambda>parent. edge_between (at TPRun parent) (at p uid)) (unit_test_render_parent_runs I uid))
         | TPRun \<Rightarrow>
             (case deps_of I uid of
                [] \<Rightarrow> []
              | dep # _ \<Rightarrow> if p \<in> set (phases_of b dep) then edge_between (at p uid) (at p dep) else [])
         | _ \<Rightarrow> [])"

definition plain_edges :: "graph_input \<Rightarrow> graph_build \<Rightarrow> string \<Rightarrow> TP \<Rightarrow> (nat \<times> nat) list" where
  "plain_edges I b uid p =
     (let at = (\<lambda>q u. node_indices b (q, u))
      in if p = TPRender then
           concat (map (\<lambda>dep. if ephemeral_node I dep then edge_between (at p dep) (at p uid) else []) (deps_of I uid))
         else if p = TPAnalyze \<and> in_baseline_closure (gi_buckets I) uid \<and> \<not> infer_schemas I then []
         else concat (map (\<lambda>up. edge_between (at p up) (at p uid)) (succs (compute_first_upstream_for_phase I b p) uid)))"

definition dependency_edges :: "graph_input \<Rightarrow> graph_build \<Rightarrow> (nat \<times> nat) list" where
  "dependency_edges I b =
     concat (map (\<lambda>uid.
         if has_key (sched_deps (gi_schedule I)) uid
         then concat (map (\<lambda>p.
             if node_indices b (p, uid) = None then []
             else if starts_with uid ''unit_test'' then unit_test_edges I b uid p
             else plain_edges I b uid p) (phases_of b uid))
         else [])
       (sorted_nodes (gi_schedule I)))"

definition frontier_render_needs_upstream_run :: "graph_input \<Rightarrow> string \<Rightarrow> bool" where
  "frontier_render_needs_upstream_run I uid \<longleftrightarrow>
     uid \<in> set (frontier_nodes (gi_schedule I)) \<and>
     (case build_reverse_deps (sched_deps (gi_schedule I)) uid of
        None \<Rightarrow> False
      | Some children \<Rightarrow>
          list_ex (\<lambda>c. starts_with c ''unit_test.'' \<and> c \<in> set (selected_nodes (gi_schedule I)) \<and>
            in_baseline_or_off_closure (gi_buckets I) c) children)"

text \<open>The phase of its dependencies that the rendering of a node waits for.\<close>

definition phase_to_dep :: "graph_input \<Rightarrow> string \<Rightarrow> TP option" where
  "phase_to_dep I uid =
     (let B = gi_buckets I;
          by_closure = (if TPRun \<in> set (gi_phases I) \<and> in_baseline_or_off_closure B uid then Some TPRun else Some TPAnalyze)
      in case dynamic_node B uid of
           Some k \<Rightarrow>
             if k \<in> {IntroExecute, IntroUnknown} then Some TPRun
             else if k \<in> {IntroUpstreamSchema, IntroNone} then by_closure
             else None
         | None \<Rightarrow>
             if in_dynamic_closure B uid then by_closure
             else if TPRun \<in> set (gi_phases I) \<and>
               (in_baseline_or_off_closure B uid \<or> frontier_render_needs_upstream_run I uid)
             then Some TPRun else Some TPAnalyze)"

definition render_edges_of :: "graph_input \<Rightarrow> graph_build \<Rightarrow> string \<Rightarrow> (nat \<times> nat) list" where
  "render_edges_of I b uid =
     (case phase_to_dep I uid of
        None \<Rightarrow> []
      | Some q \<Rightarrow>
          concat (map (\<lambda>dep.
              let dep = (if q = TPRun then or_seed I dep else dep)
              in if q \<in> set (phases_of b dep) \<and> (q = TPRun \<or> \<not> in_baseline_closure (gi_buckets I) dep)
                 then edge_between
                   (if q = TPRun then map_of (runnable_indices b) dep else map_of (analyzeable_indices b) dep)
                   (node_indices b (TPRender, uid))
                 else [])
            (deps_of I uid)))"

definition render_edges :: "graph_input \<Rightarrow> graph_build \<Rightarrow> (nat \<times> nat) list" where
  "render_edges I b =
     concat (map (\<lambda>uid. if starts_with uid ''unit_test.'' then [] else render_edges_of I b uid) (renderable_ids b))"

text \<open>
  A test runs before a model or snapshot that depends on what it tests, when everything it tests is
  upstream of that model or the model itself, and the model is not upstream of the test.
\<close>

definition add_test_to_model_dependencies :: "graph_input \<Rightarrow> graph_build \<Rightarrow> (nat \<times> nat) list" where
  "add_test_to_model_dependencies I b =
     (let run_nodes = bm_keys (runnable_indices b);
          model_run_nodes = filter (\<lambda>u. starts_with u ''model.'' \<or> starts_with u ''snapshot.'') run_nodes;
          test_run_nodes = filter (\<lambda>u. \<not> (starts_with u ''model.'' \<or> starts_with u ''snapshot.'') \<and> starts_with u ''test.'') run_nodes;
          upstream = (\<lambda>u. find_all_upstream_deps u (sched_deps (gi_schedule I)))
      in concat (map (\<lambda>test. concat (map (\<lambda>dep. concat (map (\<lambda>model.
             if model \<in> set (upstream test) then []
             else if list_all (\<lambda>d. d = model \<or> d \<in> set (upstream model)) (deps_of I test)
             then edge_between (map_of (runnable_indices b) test) (map_of (runnable_indices b) model)
             else [])
           (filter (\<lambda>model. dep \<in> set (deps_of I model)) model_run_nodes))) (deps_of I test))) test_run_nodes))"

section \<open>The barrier\<close>

definition static_task :: "graph_input \<Rightarrow> string \<Rightarrow> bool" where
  "static_task I uid \<longleftrightarrow> \<not> in_baseline_or_off_closure (gi_buckets I) uid \<and> \<not> in_dynamic_closure (gi_buckets I) uid"

definition has_run_before :: "task_graph \<Rightarrow> nat \<Rightarrow> bool" where
  "has_run_before g i \<longleftrightarrow>
     list_ex (\<lambda>(a, b). b = i \<and> (case node_weight g a of Some t \<Rightarrow> str_contains (task_type t) ''run'' | None \<Rightarrow> False)) (task_edges g)"

definition needs_barrier :: "graph_input \<Rightarrow> bool" where
  "needs_barrier I \<longleftrightarrow>
     (case global_static_analysis (gi_buckets I) of Some k \<Rightarrow> is_strict_static_analysis k | None \<Rightarrow> False) \<and>
     TPAnalyze \<in> set (gi_phases I) \<and> TPRun \<in> set (gi_phases I)"

definition insert_barrier :: "graph_input \<Rightarrow> graph_build \<Rightarrow> task_graph \<Rightarrow> task_graph" where
  "insert_barrier I b g =
     (if needs_barrier I then
        case add_node barrier_task g of (barrier, g) \<Rightarrow>
          let sinks = map snd (filter (\<lambda>(uid, _). static_task I uid) (analyzeable_indices b));
              run_sources = map snd (filter (\<lambda>(uid, i). static_task I uid \<and> \<not> has_run_before g i) (runnable_indices b))
          in add_edges (map (\<lambda>i. (barrier, i)) run_sources) (add_edges (map (\<lambda>i. (i, barrier)) sinks) g)
      else g)"

section \<open>The whole graph\<close>

definition task_key :: "task \<Rightarrow> string \<times> string" where
  "task_key t = (work_node_id t, task_type t)"

text \<open>Two tasks with the same id and type, or two edges between the same tasks, panic.\<close>

definition assert_graph :: "task_graph \<Rightarrow> unit fs_result" where
  "assert_graph g =
     (if distinct (map task_key (weights g)) \<and> distinct (task_edges g) then Inr () else Inl (Panic []))"

definition all_edges :: "graph_input \<Rightarrow> graph_build \<Rightarrow> (nat \<times> nat) list" where
  "all_edges I b = transition_edges I b @ dependency_edges I b @ render_edges I b @ add_test_to_model_dependencies I b"

definition build_phased_task_graph :: "graph_input \<Rightarrow> (task_graph \<times> string bset) fs_result" where
  "build_phased_task_graph I =
     (let b = initialize_graph I;
          g = insert_barrier I b (add_edges (all_edges I b) (built b))
      in rmap (\<lambda>_. (g, nodes_with_no_tasks b)) (assert_graph g))"

section \<open>From the command to the graph\<close>

definition aggregate_group :: "string \<times> test_group \<Rightarrow> Schedule \<times> nodes \<Rightarrow> Schedule \<times> nodes" where
  "aggregate_group gg sn =
     (case gg of (gid, grp) \<Rightarrow> case sn of (sched, ns) \<Rightarrow>
        let ids = group_tests grp;
            test_deps = (case List.map_filter (map_of (sched_deps sched)) ids of ds # _ \<Rightarrow> ds | [] \<Rightarrow> []);
            kept = map (\<lambda>(k, ds). (k, filter (\<lambda>d. d \<notin> set ids) ds)) (filter (\<lambda>(k, _). k \<notin> set ids) (sched_deps sched))
        in (sched\<lparr>selected_nodes := bs_insert gid (filter (\<lambda>u. u \<notin> set ids) (selected_nodes sched)),
              sorted_nodes := filter (\<lambda>u. u \<notin> set ids) (sorted_nodes sched) @ [gid],
              frontier_nodes := filter (\<lambda>u. u \<notin> set ids) (frontier_nodes sched),
              sched_deps := (if test_deps = [] then kept else bm_insert gid test_deps kept)\<rparr>,
            ns\<lparr>tests := bm_insert gid (aggregated_test grp) (tests ns)\<rparr>))"

definition create_aggregated_schedule_and_nodes :: "Schedule \<Rightarrow> nodes \<Rightarrow> test_aggregation \<Rightarrow> Schedule \<times> nodes" where
  "create_aggregated_schedule_and_nodes sched ns a = fold aggregate_group (groups a) (sched, ns)"

definition clone_task :: "node \<Rightarrow> task" where
  "clone_task n = \<lparr>work_node_id = unique_id n, task_type = ''run'', task_resource = resource_type n,
     dbt_nodes = [node_task n], task_phase = Some TPRun, result_receiver = None\<rparr>"

definition build_clone_task_graph :: "Schedule \<Rightarrow> nodes \<Rightarrow> task_graph" where
  "build_clone_task_graph sched ns =
     \<lparr>weights = List.map_filter (\<lambda>uid.
         if (case map_of (models ns) uid of Some m \<Rightarrow> is_extended_model m | None \<Rightarrow> False) \<or> has_key (analyses ns) uid
         then None else map_option clone_task (cloneable_task ns uid)) (selected_nodes sched),
      task_edges = []\<rparr>"

text \<open>
  \<^verbatim>\<open>GraphBuilder::build\<close>: the aggregation of generic tests, when it applies, is given, as is the graph a
  comparison builds; \<open>own_command\<close> is the type of the experimental that owns a command.
\<close>

definition task_graph_for_command ::
    "FsCommand \<Rightarrow> (FsCommand \<Rightarrow> string option) \<Rightarrow> (Schedule \<Rightarrow> task_graph) option \<Rightarrow> bool \<Rightarrow>
     graph_input \<Rightarrow> (task_graph \<times> string bset) fs_result" where
  "task_graph_for_command c own_command compare_builder test_aggregation I =
     (let sched = gi_schedule I; ns = gi_nodes I;
          aggregation = (if test_aggregation \<and> command_uses_generic_test_aggregation c then gi_aggregation I else None);
          empty = \<lparr>weights = [], task_edges = []\<rparr>
      in if c = Clone then Inr (build_clone_task_graph sched ns, [])
         else if c = Extension ''compare'' then
           Inr (case compare_builder of Some build \<Rightarrow> build sched | None \<Rightarrow> empty, [])
         else (case task_graph_phases_for_command c of
           Some phases \<Rightarrow>
             (case (case aggregation of Some a \<Rightarrow> create_aggregated_schedule_and_nodes sched ns a | None \<Rightarrow> (sched, ns)) of
                (sched, ns) \<Rightarrow>
                  build_phased_task_graph (I\<lparr>gi_schedule := sched, gi_nodes := ns, gi_phases := phases, gi_aggregation := aggregation\<rparr>))
         | None \<Rightarrow>
             (case own_command c of
                Some owner \<Rightarrow>
                  build_phased_task_graph (I\<lparr>gi_phases := [TPRun], gi_aggregation := None,
                    gi_schedule := sched\<lparr>selected_nodes := filter (\<lambda>uid.
                      case map_of (experimentals ns) uid of Some n \<Rightarrow> experimental_type n = Some owner | None \<Rightarrow> False)
                      (selected_nodes sched)\<rparr>\<rparr>)
              | None \<Rightarrow> Inr (empty, []))))"

end
