(* ===== verification/Task_Graph_Nodes.thy ===== *)
theory Task_Graph_Nodes imports Task_Graph Schedule_Invariant Visitor_Strategies begin

text \<open>
  The tasks of the graph: after \<open>initialize_graph\<close> the maps of the code index exactly the tasks its nodes have,
  each once, and every edge the builder adds leads between two of them.
\<close>

section \<open>Phases\<close>

definition tasks_at :: "graph_input \<Rightarrow> string \<Rightarrow> (TP \<times> task) list" where
  "tasks_at I u = (if has_key (checks (gi_nodes I)) u then [] else phase_tasks (tasks_of I u))"

lemma phase_tasks_simps:
  "phase_tasks ts =
     (case renderable ts of Some t \<Rightarrow> [(TPRender, t)] | None \<Rightarrow> []) @ (case analyzeable ts of Some t \<Rightarrow> [(TPAnalyze, t)] | None \<Rightarrow> []) @
     (case runnable ts of Some t \<Rightarrow> [(TPRun, t)] | None \<Rightarrow> []) @ (case showable ts of Some t \<Rightarrow> [(TPShow, t)] | None \<Rightarrow> [])"
  by (simp add: phase_tasks_def List.map_filter_def split: option.splits)

text \<open>The order of the phases.\<close>

fun phase_no :: "TP \<Rightarrow> nat" where
  "phase_no TPRender = 0" | "phase_no TPAnalyze = 1" | "phase_no TPRun = 2" | "phase_no TPCompare = 3" | "phase_no TPShow = 4"

lemma phase_tasks_sorted: "sorted_wrt (\<lambda>a b. phase_no a < phase_no b) (map fst (phase_tasks ts))"
  by (simp add: phase_tasks_simps split: option.splits)

lemma phase_tasks_mem:
  "(p, t) \<in> set (phase_tasks ts) \<longleftrightarrow>
   (p = TPRender \<and> renderable ts = Some t \<or> p = TPAnalyze \<and> analyzeable ts = Some t \<or>
    p = TPRun \<and> runnable ts = Some t \<or> p = TPShow \<and> showable ts = Some t)"
  by (auto simp: phase_tasks_simps split: option.splits)

lemma sorted_phases_distinct: "sorted_wrt (\<lambda>a b. phase_no a < phase_no b) ps \<Longrightarrow> distinct ps"
  by (induction ps) auto

lemma tasks_at_distinct: "distinct (map fst (tasks_at I u))"
  by (simp add: tasks_at_def sorted_phases_distinct [OF phase_tasks_sorted])

section \<open>The nodes of the graph\<close>

type_synonym entry = "(TP \<times> string) \<times> task"

definition node_entries :: "graph_input \<Rightarrow> string \<Rightarrow> entry list" where
  "node_entries I u = map (\<lambda>(p, t). ((p, u), t)) (tasks_at I u)"

definition entries :: "graph_input \<Rightarrow> string list \<Rightarrow> entry list" where
  "entries I us = concat (map (node_entries I) us)"

text \<open>The maps by phase are views of the index of all tasks.\<close>

definition views_ok :: "graph_build \<Rightarrow> bool" where
  "views_ok b \<longleftrightarrow>
     bmap_wf (analyzeable_indices b) \<and> map_of (analyzeable_indices b) = (\<lambda>u. node_indices b (TPAnalyze, u)) \<and>
     bmap_wf (runnable_indices b) \<and> map_of (runnable_indices b) = (\<lambda>u. node_indices b (TPRun, u)) \<and>
     set (renderable_ids b) = {u. node_indices b (TPRender, u) \<noteq> None}"

definition indexed :: "entry list \<Rightarrow> graph_build \<Rightarrow> bool" where
  "indexed es b \<longleftrightarrow> built b = \<lparr>weights = map snd es, task_edges = []\<rparr> \<and>
     node_indices b = map_of (zip (map fst es) [0..<length es]) \<and> views_ok b"

lemma views_other_fields [simp]: "views_ok (b\<lparr>built := g\<rparr>) = views_ok b"
  by (simp add: views_ok_def)

lemma indexed_other_fields [simp]:
  "indexed es (b\<lparr>node_to_phases := m\<rparr>) = indexed es b" "indexed es (b\<lparr>nodes_with_no_tasks := x\<rparr>) = indexed es b"
  by (simp_all add: indexed_def views_ok_def)

lemma indexed_empty: "indexed [] empty_build"
  by (simp add: indexed_def views_ok_def empty_build_def)

lemma index_map_snoc:
  assumes "k \<notin> set ks"
  shows "map_of (zip (ks @ [k]) [0..<Suc (length ks)]) = (map_of (zip ks [0..<length ks]))(k \<mapsto> length ks)"
proof -
  have n: "map_of (zip ks [0..<length ks]) k = None" using assms by (simp add: map_of_zip_is_None)
  have z: "zip (ks @ [k]) [0..<Suc (length ks)] = zip ks [0..<length ks] @ [(k, length ks)]" by simp
  show ?thesis unfolding z map_of_append
  proof
    fix x
    show "(map_of [(k, length ks)] ++ map_of (zip ks [0..<length ks])) x = ((map_of (zip ks [0..<length ks]))(k \<mapsto> length ks)) x"
      using n by (cases "map_of (zip ks [0..<length ks]) x"; cases "x = k") (simp_all add: map_add_def del: map_of_zip_is_None map_of_eq_None_iff)
  qed
qed

lemma add_task_fields:
  "built (add_task p u t b) = (built b)\<lparr>weights := weights (built b) @ [t]\<rparr>"
  "node_indices (add_task p u t b) = (node_indices b)((p, u) \<mapsto> length (weights (built b)))"
  "node_to_phases (add_task p u t b) = node_to_phases b"
  "nodes_with_no_tasks (add_task p u t b) = nodes_with_no_tasks b"
  by (cases p; simp add: add_task_def add_node_def Let_def)+

lemma views_add_task: "views_ok b \<Longrightarrow> views_ok (add_task p u t b)"
  by (cases p) (auto simp: views_ok_def add_task_def add_node_def Let_def fun_eq_iff)

lemma indexed_add_task:
  assumes "indexed es b" and "(p, u) \<notin> fst ` set es"
  shows "indexed (es @ [((p, u), t)]) (add_task p u t b)"
proof -
  have "node_indices (add_task p u t b) = map_of (zip (map fst (es @ [((p, u), t)])) [0..<length (es @ [((p, u), t)])])"
    using index_map_snoc [of "(p, u)" "map fst es"] assms by (simp add: indexed_def add_task_fields)
  then show ?thesis using assms views_add_task [of b p u t] by (simp add: indexed_def add_task_fields)
qed

lemma indexed_add_tasks:
  assumes "indexed es b" and "distinct (map fst pts)" and "\<forall>p. (p, u) \<notin> fst ` set es"
  shows "indexed (es @ map (\<lambda>(p, t). ((p, u), t)) pts) (fold (\<lambda>(p, t). add_task p u t) pts b) \<and>
    node_to_phases (fold (\<lambda>(p, t). add_task p u t) pts b) = node_to_phases b \<and>
    nodes_with_no_tasks (fold (\<lambda>(p, t). add_task p u t) pts b) = nodes_with_no_tasks b"
  using assms
proof (induction pts rule: rev_induct)
  case (snoc pt pts)
  obtain p t where pt: "pt = (p, t)" by (cases pt)
  have "(p, u) \<notin> fst ` set (es @ map (\<lambda>(p, t). ((p, u), t)) pts)" using snoc.prems pt by (auto simp: image_iff)
  then show ?case using snoc indexed_add_task [of "es @ map (\<lambda>(p, t). ((p, u), t)) pts" _ p u t] pt
    by (cases p) (auto simp: add_task_def add_node_def Let_def)
qed simp

lemma init_node_spec:
  assumes "indexed es b" and "\<forall>p. (p, u) \<notin> fst ` set es"
  shows "indexed (es @ node_entries I u) (init_node I u b) \<and>
    phases_of (init_node I u b) = (phases_of b)(u := if has_key (checks (gi_nodes I)) u then phases_of b u else map fst (tasks_at I u)) \<and>
    (bmap_wf (node_to_phases b) \<longrightarrow> bmap_wf (node_to_phases (init_node I u b)))"
proof (cases "has_key (checks (gi_nodes I)) u")
  case False
  define b' where "b' = (if phase_tasks (tasks_of I u) = [] \<and> u \<in> set (selected_nodes (gi_schedule I))
      then b\<lparr>nodes_with_no_tasks := bs_insert u (nodes_with_no_tasks b)\<rparr> else b)"
  have "indexed es b'" "node_to_phases b' = node_to_phases b" using assms by (auto simp: b'_def)
  then show ?thesis using False indexed_add_tasks [of es b' "phase_tasks (tasks_of I u)" u] assms(2)
      sorted_phases_distinct [OF phase_tasks_sorted]
    by (auto simp: init_node_def node_entries_def tasks_at_def phases_of_def Let_def b'_def fun_eq_iff)
qed (use assms in \<open>simp add: init_node_def node_entries_def tasks_at_def\<close>)

lemma init_nodes_spec:
  assumes "distinct us"
  shows "indexed (entries I us) (fold (init_node I) us empty_build) \<and>
    phases_of (fold (init_node I) us empty_build) = (\<lambda>u. if u \<in> set us then map fst (tasks_at I u) else []) \<and>
    bmap_wf (node_to_phases (fold (init_node I) us empty_build))"
  using assms
proof (induction us rule: rev_induct)
  case Nil
  then show ?case using indexed_empty by (simp add: entries_def phases_of_def empty_build_def fun_eq_iff)
next
  case (snoc u us)
  have "\<forall>p. (p, u) \<notin> fst ` set (entries I us)" using snoc.prems by (auto simp: entries_def node_entries_def)
  then show ?case using snoc init_node_spec [of "entries I us" "fold (init_node I) us empty_build" u I]
    by (auto simp: entries_def fun_eq_iff tasks_at_def)
qed

lemma init_node_idle:
  "set (nodes_with_no_tasks (init_node I u b)) = set (nodes_with_no_tasks b) \<union>
     (if \<not> has_key (checks (gi_nodes I)) u \<and> tasks_at I u = [] \<and> u \<in> set (selected_nodes (gi_schedule I)) then {u} else {})"
proof -
  have "nodes_with_no_tasks (fold (\<lambda>(p, t). add_task p u t) pts b) = nodes_with_no_tasks b" for pts b
    by (induction pts arbitrary: b) (auto simp: add_task_fields)
  then show ?thesis by (simp add: init_node_def tasks_at_def Let_def)
qed

lemma idle_nodes:
  "set (nodes_with_no_tasks (initialize_graph I)) =
     {u \<in> set (sorted_nodes (gi_schedule I)). \<not> has_key (checks (gi_nodes I)) u \<and> tasks_at I u = [] \<and> u \<in> set (selected_nodes (gi_schedule I))}"
proof -
  have "set (nodes_with_no_tasks (fold (init_node I) us b)) = set (nodes_with_no_tasks b) \<union>
      {u \<in> set us. \<not> has_key (checks (gi_nodes I)) u \<and> tasks_at I u = [] \<and> u \<in> set (selected_nodes (gi_schedule I))}" for us b
    by (induction us arbitrary: b) (auto simp: init_node_idle)
  then show ?thesis by (simp add: initialize_graph_def empty_build_def Let_def)
qed

lemma entries_distinct: "distinct us \<Longrightarrow> distinct (map fst (entries I us))"
proof (induction us)
  case (Cons u us)
  have "map fst (node_entries I u) = map (\<lambda>p. (p, u)) (map fst (tasks_at I u))" by (simp add: node_entries_def case_prod_beta)
  then have "distinct (map fst (node_entries I u))" using tasks_at_distinct [of I u] by (simp add: distinct_map inj_on_def)
  then show ?case using Cons by (auto simp: entries_def node_entries_def)
qed (simp add: entries_def)

section \<open>The index of the tasks\<close>

abbreviation node_order :: "graph_input \<Rightarrow> string list" where
  "node_order I \<equiv> sorted_nodes (gi_schedule I)"

definition node_phases :: "graph_input \<Rightarrow> string \<Rightarrow> TP list" where
  "node_phases I u = (if u \<in> set (node_order I) then map fst (tasks_at I u) else [])"

definition at :: "graph_input \<Rightarrow> TP \<times> string \<Rightarrow> nat option" where
  "at I k = node_indices (initialize_graph I) k"

definition all_tasks :: "graph_input \<Rightarrow> task list" where
  "all_tasks I = weights (built (initialize_graph I))"

lemma update_edge_fields: "weights (update_edge e g) = weights g" "set (task_edges (update_edge e g)) = insert e (set (task_edges g))"
    "distinct (task_edges (update_edge e g)) = distinct (task_edges g)"
  by (auto simp: update_edge_def)

lemma add_edges_fields [simp]: "weights (add_edges es g) = weights g" "set (task_edges (add_edges es g)) = set es \<union> set (task_edges g)"
    "distinct (task_edges (add_edges es g)) = distinct (task_edges g)"
  unfolding add_edges_def by (induction es arbitrary: g) (auto simp: update_edge_fields)

text \<open>\<open>initialize_graph\<close> leaves an index of exactly the tasks of its nodes.\<close>

lemma initialized:
  assumes "distinct (node_order I)"
  shows "at I = map_of (zip (map fst (entries I (node_order I))) [0..<length (entries I (node_order I))])"
    and "all_tasks I = map snd (entries I (node_order I))"
    and "phases_of (initialize_graph I) u = node_phases I u"
    and "views_ok (initialize_graph I)" and "bmap_wf (node_to_phases (initialize_graph I))"
    and "distinct (task_edges (built (initialize_graph I)))"
    and "set (task_edges (built (initialize_graph I))) =
      set (overlapping_source_seed_edges I (fold (init_node I) (node_order I) empty_build))"
    and "node_indices (fold (init_node I) (node_order I) empty_build) = at I"
proof -
  let ?b = "fold (init_node I) (node_order I) empty_build"
  have b: "indexed (entries I (node_order I)) ?b"
      "phases_of ?b = (\<lambda>u. if u \<in> set (node_order I) then map fst (tasks_at I u) else [])"
      "bmap_wf (node_to_phases ?b)" using init_nodes_spec [OF assms, of I] by simp_all
  show "at I = map_of (zip (map fst (entries I (node_order I))) [0..<length (entries I (node_order I))])"
    using b(1) by (simp add: fun_eq_iff at_def initialize_graph_def indexed_def Let_def)
  show "all_tasks I = map snd (entries I (node_order I))"
    using b(1) by (simp add: all_tasks_def initialize_graph_def indexed_def Let_def)
  have "phases_of (initialize_graph I) u = phases_of ?b u" by (simp add: initialize_graph_def phases_of_def Let_def)
  then show "phases_of (initialize_graph I) u = node_phases I u" using b(2) by (simp add: node_phases_def)
  show "views_ok (initialize_graph I)" using b(1) by (simp add: initialize_graph_def indexed_def Let_def)
  show "bmap_wf (node_to_phases (initialize_graph I))" using b(3) by (simp add: initialize_graph_def Let_def)
  show "distinct (task_edges (built (initialize_graph I)))" using b(1) by (simp add: initialize_graph_def indexed_def Let_def)
  show "set (task_edges (built (initialize_graph I))) = set (overlapping_source_seed_edges I ?b)"
    using b(1) by (simp add: initialize_graph_def indexed_def Let_def)
  show "node_indices ?b = at I" by (simp add: fun_eq_iff at_def initialize_graph_def Let_def)
qed

lemma at_iff:
  assumes "distinct (node_order I)"
  shows "at I k = Some i \<longleftrightarrow> i < length (all_tasks I) \<and> fst (entries I (node_order I) ! i) = k"
proof -
  let ?es = "entries I (node_order I)"
  have d: "distinct (map fst ?es)" by (rule entries_distinct [OF assms])
  have "at I k = Some i \<longleftrightarrow> (k, i) \<in> set (zip (map fst ?es) [0..<length ?es])"
    using d by (simp add: initialized(1) [OF assms] map_of_eq_Some_iff)
  also have "\<dots> \<longleftrightarrow> i < length ?es \<and> fst (?es ! i) = k" by (force simp: set_zip)
  finally show ?thesis by (simp add: initialized(2) [OF assms])
qed

lemma at_task:
  assumes "distinct (node_order I)" and "at I (p, u) = Some i"
  shows "u \<in> set (node_order I)" "i < length (all_tasks I)" "(p, all_tasks I ! i) \<in> set (tasks_at I u)"
proof -
  let ?es = "entries I (node_order I)"
  have i: "i < length (all_tasks I)" "fst (?es ! i) = (p, u)" using assms at_iff by auto
  then have "?es ! i \<in> set ?es" "snd (?es ! i) = all_tasks I ! i" by (simp_all add: initialized(2) [OF assms(1)])
  then have "((p, u), all_tasks I ! i) \<in> set ?es" using i(2) by (metis prod.collapse)
  then show "u \<in> set (node_order I)" "(p, all_tasks I ! i) \<in> set (tasks_at I u)"
    by (auto simp: entries_def node_entries_def)
qed (use assms at_iff in auto)

lemma at_exists:
  assumes "distinct (node_order I)"
  shows "at I (p, u) \<noteq> None \<longleftrightarrow> p \<in> set (node_phases I u)"
proof -
  have "at I (p, u) \<noteq> None \<longleftrightarrow> (p, u) \<in> fst ` set (entries I (node_order I))"
    unfolding initialized(1) [OF assms] by (simp add: map_of_zip_is_None)
  also have "\<dots> \<longleftrightarrow> p \<in> set (node_phases I u)" by (force simp: entries_def node_entries_def node_phases_def)
  finally show ?thesis .
qed

lemma at_onto:
  assumes "distinct (node_order I)" and "i < length (all_tasks I)"
  obtains p u where "at I (p, u) = Some i"
  using at_iff [OF assms(1), of "fst (entries I (node_order I) ! i)" i] assms(2) by (metis prod.collapse)

lemma at_inj: "distinct (node_order I) \<Longrightarrow> at I k = Some i \<Longrightarrow> at I k' = Some i \<Longrightarrow> k = k'"
  using at_iff by auto

end
