(* ===== verification/Task_Graph_Edges.thy ===== *)
theory Task_Graph_Edges imports Task_Graph_Nodes begin

text \<open>
  The edges of the graph, as a relation on phases of nodes: \<open>waits I a b\<close> says why the task \<open>b\<close> waits for the
  task \<open>a\<close>. The loops of the builder add an edge exactly where it holds between two tasks that exist.
\<close>

abbreviation ancestry :: "graph_input \<Rightarrow> (string \<times> string) set" where
  "ancestry I \<equiv> (edges (succs (sched_deps (gi_schedule I))))\<^sup>+"

definition is_unit_test :: "string \<Rightarrow> bool" where
  "is_unit_test u \<longleftrightarrow> starts_with u ''unit_test''"

definition is_blockable :: "string \<Rightarrow> bool" where
  "is_blockable u \<longleftrightarrow> starts_with u ''model.'' \<or> starts_with u ''snapshot.''"

definition is_data_test :: "string \<Rightarrow> bool" where
  "is_data_test u \<longleftrightarrow> starts_with u ''test.''"

text \<open>A test guards a model when a dependency of both exists, everything it tests is upstream of the model or
  the model itself, and the model is not upstream of it.\<close>

definition guards :: "graph_input \<Rightarrow> string \<Rightarrow> string \<Rightarrow> bool" where
  "guards I test model \<longleftrightarrow> is_data_test test \<and> is_blockable model \<and> set (deps_of I test) \<inter> set (deps_of I model) \<noteq> {} \<and>
     (test, model) \<notin> ancestry I \<and> (\<forall>d \<in> set (deps_of I test). d = model \<or> (model, d) \<in> ancestry I)"

text \<open>The phase of a dependency that the rendering of a unit test waits for.\<close>

definition ready_phase :: "graph_input \<Rightarrow> string \<Rightarrow> TP" where
  "ready_phase I dep = (if TPAnalyze \<in> set (node_phases I dep) then TPAnalyze else TPRender)"

inductive waits :: "graph_input \<Rightarrow> TP \<times> string \<Rightarrow> TP \<times> string \<Rightarrow> bool" for I where
  next_phase: "(p, q) \<in> set (zip (node_phases I u) (tl (node_phases I u))) \<Longrightarrow> waits I (p, u) (q, u)"
| seed_run: "dep \<in> set (deps_of I u) \<Longrightarrow> overlapping_source_to_seed I dep = Some seed \<Longrightarrow> waits I (TPRun, seed) (TPRun, u)"
| unit_render: "is_unit_test u \<Longrightarrow> dep \<in> set (deps_of I u) \<Longrightarrow> waits I (ready_phase I dep, dep) (TPRender, u)"
| unit_parent: "is_unit_test u \<Longrightarrow> has_key (sched_deps (gi_schedule I)) u \<Longrightarrow>
    parent \<in> set (unit_test_render_parent_runs I u) \<Longrightarrow> waits I (TPRun, parent) (TPRender, u)"
| unit_run: "is_unit_test u \<Longrightarrow> deps_of I u = dep # ds \<Longrightarrow> waits I (TPRun, u) (TPRun, dep)"
| inlined: "\<not> is_unit_test u \<Longrightarrow> dep \<in> set (deps_of I u) \<Longrightarrow> ephemeral_node I dep \<Longrightarrow> waits I (TPRender, dep) (TPRender, u)"
| upstream: "\<not> is_unit_test u \<Longrightarrow> p \<noteq> TPRender \<Longrightarrow>
    \<not> (p = TPAnalyze \<and> in_baseline_closure (gi_buckets I) u \<and> \<not> infer_schemas I) \<Longrightarrow>
    first_up (sched_deps (gi_schedule I)) {v. p \<in> set (node_phases I v)} u up \<Longrightarrow> waits I (p, up) (p, u)"
| render_run: "\<not> starts_with u ''unit_test.'' \<Longrightarrow> dep \<in> set (deps_of I u) \<Longrightarrow> phase_to_dep I u = Some TPRun \<Longrightarrow>
    waits I (TPRun, or_seed I dep) (TPRender, u)"
| render_analyze: "\<not> starts_with u ''unit_test.'' \<Longrightarrow> dep \<in> set (deps_of I u) \<Longrightarrow> phase_to_dep I u = Some TPAnalyze \<Longrightarrow>
    \<not> in_baseline_closure (gi_buckets I) dep \<Longrightarrow> waits I (TPAnalyze, dep) (TPRender, u)"
| test_first: "guards I test model \<Longrightarrow> waits I (TPRun, test) (TPRun, model)"

lemma starts_with_Cons: "starts_with s (c # p) \<longleftrightarrow> (\<exists>r. s = c # r \<and> starts_with r p)"
  by (cases s) (auto simp: starts_with_def)

lemma concat_map_mem: "z \<in> set (concat (map f xs)) \<longleftrightarrow> (\<exists>x \<in> set xs. z \<in> set (f x))"
  by auto

lemma set_if_Nil: "z \<in> set (if c then xs else []) \<longleftrightarrow> c \<and> z \<in> set xs" "z \<in> set (if c then [] else xs) \<longleftrightarrow> \<not> c \<and> z \<in> set xs"
  by auto

lemma set_case_option: "z \<in> set (case a of None \<Rightarrow> [] | Some x \<Rightarrow> f x) \<longleftrightarrow> (\<exists>x. a = Some x \<and> z \<in> set (f x))"
  by (cases a) simp_all

lemma edge_between_mem [simp]: "(x, y) \<in> set (edge_between a b) \<longleftrightarrow> a = Some x \<and> b = Some y"
  by (auto simp: edge_between_def split: option.splits)

lemma deps_of_key: "dep \<in> set (deps_of I u) \<Longrightarrow> has_key (sched_deps (gi_schedule I)) u"
  by (cases "map_of (sched_deps (gi_schedule I)) u") (simp_all add: deps_of_def succs_def has_key_def)

lemma first_up_key: "first_up (sched_deps (gi_schedule (I :: graph_input))) S u up \<Longrightarrow> has_key (sched_deps (gi_schedule I)) u"
  by (subst (asm) first_up_iff) (auto intro: deps_of_key [unfolded deps_of_def])

lemma phase_to_dep_cases: "phase_to_dep I u \<in> {None, Some TPRun, Some TPAnalyze}"
  by (auto simp: phase_to_dep_def Let_def split: option.splits)

abbreviation ordered :: "graph_input \<Rightarrow> bool" where
  "ordered I \<equiv> distinct (node_order I)"

lemma index_facts [simp]:
  assumes "ordered I"
  shows "node_indices (initialize_graph I) k = at I k" "phases_of (initialize_graph I) u = node_phases I u"
    and "map_of (runnable_indices (initialize_graph I)) u = at I (TPRun, u)"
    and "map_of (analyzeable_indices (initialize_graph I)) u = at I (TPAnalyze, u)"
    and "set (renderable_ids (initialize_graph I)) = {u. at I (TPRender, u) \<noteq> None}"
    and "dom (map_of (runnable_indices (initialize_graph I))) = {u. at I (TPRun, u) \<noteq> None}"
  using initialized(3,4) [OF assms] by (auto simp: at_def views_ok_def)

lemma in_order: "ordered I \<Longrightarrow> at I (p, u) = Some i \<Longrightarrow> u \<in> set (node_order I) \<and> p \<in> set (node_phases I u)"
  using at_task(1) at_exists [of I p u] by auto

lemma transition_edges_iff:
  assumes "ordered I"
  shows "(x, y) \<in> set (transition_edges I (initialize_graph I)) \<longleftrightarrow>
    (\<exists>p q u. (p, q) \<in> set (zip (node_phases I u) (tl (node_phases I u))) \<and> at I (p, u) = Some x \<and> at I (q, u) = Some y)"
  using assms in_order [OF assms] unfolding transition_edges_def by auto

lemma seed_edges_iff:
  assumes "ordered I"
  shows "(x, y) \<in> set (task_edges (built (initialize_graph I))) \<longleftrightarrow>
    (\<exists>seed u. (\<exists>dep \<in> set (deps_of I u). overlapping_source_to_seed I dep = Some seed) \<and>
      at I (TPRun, seed) = Some x \<and> at I (TPRun, u) = Some y)"
  using in_order [OF assms] unfolding initialized(7) [OF assms] overlapping_source_seed_edges_def initialized(8) [OF assms]
    concat_map_mem set_case_option edge_between_mem by blast

lemma test_edges_iff:
  assumes "ordered I"
  shows "(x, y) \<in> set (add_test_to_model_dependencies I (initialize_graph I)) \<longleftrightarrow>
    (\<exists>test model. guards I test model \<and> at I (TPRun, test) = Some x \<and> at I (TPRun, model) = Some y)"
proof -
  have up: "x \<in> set (find_all_upstream_deps u (sched_deps (gi_schedule I))) \<longleftrightarrow> (u, x) \<in> ancestry I" for x u
    unfolding set_find_all_upstream_deps reach_def
    by (auto simp: trancl_unfold_left edges_def)
  have excl: "is_data_test u \<Longrightarrow> \<not> is_blockable u" for u
    by (auto simp: is_data_test_def is_blockable_def starts_with_Cons)
  show ?thesis using excl assms unfolding add_test_to_model_dependencies_def Let_def guards_def
    by (auto simp: up is_data_test_def is_blockable_def list_all_iff split: if_splits) blast+
qed

text \<open>The edges of one phase of one node.\<close>

lemma unit_test_edges_iff:
  assumes "ordered I"
  shows "(x, y) \<in> set (unit_test_edges I (initialize_graph I) u p) \<longleftrightarrow>
    p = TPRender \<and> at I (p, u) = Some y \<and>
      ((\<exists>dep \<in> set (deps_of I u). at I (ready_phase I dep, dep) = Some x) \<or>
       (\<exists>parent \<in> set (unit_test_render_parent_runs I u). at I (TPRun, parent) = Some x)) \<or>
    p = TPRun \<and> (\<exists>dep ds. deps_of I u = dep # ds \<and> at I (p, u) = Some x \<and> at I (p, dep) = Some y)"
proof -
  have r: "ready_phase I dep \<in> set (node_phases I dep)" if "at I (ready_phase I dep, dep) = Some z" for dep z
    using in_order [OF assms that] by blast
  have q: "(if TPAnalyze \<in> set (node_phases I dep) then TPAnalyze else TPRender) = ready_phase I dep" for dep
    by (simp add: ready_phase_def)
  show ?thesis
  proof (cases p)
    case TPRender
    then show ?thesis using r assms unfolding unit_test_edges_def Let_def
      by (simp add: q split del: if_split) (auto split: if_split_asm)
  next
    case TPRun
    then show ?thesis using assms in_order [OF assms] unfolding unit_test_edges_def Let_def
      by (cases "deps_of I u") (auto split: if_split_asm)
  qed (simp_all add: unit_test_edges_def)
qed

lemma plain_edges_iff:
  assumes "ordered I" and "acyclic (edges (succs (sched_deps (gi_schedule I))))" and "at I (p, u) = Some z"
  shows "(x, y) \<in> set (plain_edges I (initialize_graph I) u p) \<longleftrightarrow> y = z \<and>
    (p = TPRender \<and> (\<exists>dep \<in> set (deps_of I u). ephemeral_node I dep \<and> at I (p, dep) = Some x) \<or>
     p \<noteq> TPRender \<and> \<not> (p = TPAnalyze \<and> in_baseline_closure (gi_buckets I) u \<and> \<not> infer_schemas I) \<and>
        (\<exists>up. first_up (sched_deps (gi_schedule I)) {v. p \<in> set (node_phases I v)} u up \<and> at I (p, up) = Some x))"
proof -
  have keys: "set (map fst (filter (\<lambda>(_, ps). p \<in> set ps) (node_to_phases (initialize_graph I)))) = {v. p \<in> set (node_phases I v)}"
  proof -
    have "v \<in> set (map fst (filter (\<lambda>(_, ps). p \<in> set ps) (node_to_phases (initialize_graph I)))) \<longleftrightarrow>
        p \<in> set (phases_of (initialize_graph I) v)" for v
      using bmap_wf_map_of [OF initialized(5) [OF assms(1)], of v] by (force simp: phases_of_def split: option.splits)
    then show ?thesis using assms(1) by auto
  qed
  have "u \<in> {v. p \<in> set (node_phases I v)}" using assms(3) in_order [OF assms(1)] by simp
  then have ups: "set (succs (compute_first_upstream_for_phase I (initialize_graph I) p) u) =
      {up. first_up (sched_deps (gi_schedule I)) {v. p \<in> set (node_phases I v)} u up}"
    unfolding compute_first_upstream_for_phase_def set_succs_restrict [OF assms(2)] keys by simp
  show ?thesis
  proof (cases "p = TPRender")
    case True
    then show ?thesis using assms(1,3) unfolding plain_edges_def Let_def by (auto split: if_split_asm)
  next
    case False
    then show ?thesis using assms(1,3) unfolding plain_edges_def Let_def
      by (cases "p = TPAnalyze \<and> in_baseline_closure (gi_buckets I) u \<and> \<not> infer_schemas I") (auto simp: ups)
  qed
qed

lemma dependency_edges_iff:
  assumes "ordered I"
  shows "(x, y) \<in> set (dependency_edges I (initialize_graph I)) \<longleftrightarrow>
    (\<exists>u p z. has_key (sched_deps (gi_schedule I)) u \<and> at I (p, u) = Some z \<and>
      (if is_unit_test u then (x, y) \<in> set (unit_test_edges I (initialize_graph I) u p)
       else (x, y) \<in> set (plain_edges I (initialize_graph I) u p)))"
proof -
  have "(x, y) \<in> set (dependency_edges I (initialize_graph I)) \<longleftrightarrow>
    (\<exists>u \<in> set (node_order I). has_key (sched_deps (gi_schedule I)) u \<and> (\<exists>p \<in> set (node_phases I u). at I (p, u) \<noteq> None \<and>
      (x, y) \<in> set (if starts_with u ''unit_test'' then unit_test_edges I (initialize_graph I) u p
         else plain_edges I (initialize_graph I) u p)))"
    unfolding dependency_edges_def concat_map_mem set_if_Nil index_facts [OF assms] by (rule refl)
  also have "\<dots> \<longleftrightarrow> (\<exists>u p. has_key (sched_deps (gi_schedule I)) u \<and> at I (p, u) \<noteq> None \<and>
      (x, y) \<in> set (if starts_with u ''unit_test'' then unit_test_edges I (initialize_graph I) u p
         else plain_edges I (initialize_graph I) u p))"
    using in_order [OF assms] by blast
  finally show ?thesis unfolding is_unit_test_def by simp
qed

lemma render_edges_iff:
  assumes "ordered I"
  shows "(x, y) \<in> set (render_edges I (initialize_graph I)) \<longleftrightarrow>
    (\<exists>u. \<not> starts_with u ''unit_test.'' \<and> at I (TPRender, u) = Some y \<and> (\<exists>dep \<in> set (deps_of I u).
       phase_to_dep I u = Some TPRun \<and> at I (TPRun, or_seed I dep) = Some x \<or>
       phase_to_dep I u = Some TPAnalyze \<and> \<not> in_baseline_closure (gi_buckets I) dep \<and> at I (TPAnalyze, dep) = Some x))"
proof -
  have "(x, y) \<in> set (render_edges_of I (initialize_graph I) u) \<longleftrightarrow>
      at I (TPRender, u) = Some y \<and> (\<exists>dep \<in> set (deps_of I u).
        phase_to_dep I u = Some TPRun \<and> at I (TPRun, or_seed I dep) = Some x \<or>
         phase_to_dep I u = Some TPAnalyze \<and> \<not> in_baseline_closure (gi_buckets I) dep \<and> at I (TPAnalyze, dep) = Some x)" for u
    using phase_to_dep_cases [of I u] assms in_order [OF assms] by (auto simp: render_edges_of_def Let_def) blast+
  then show ?thesis using assms unfolding render_edges_def by auto
qed

section \<open>All edges\<close>

definition graph_edges :: "graph_input \<Rightarrow> (nat \<times> nat) set" where
  "graph_edges I = set (task_edges (built (initialize_graph I))) \<union> set (all_edges I (initialize_graph I))"

lemmas edge_groups = transition_edges_iff seed_edges_iff test_edges_iff render_edges_iff dependency_edges_iff

lemma waits_edge:
  assumes o: "ordered I" and d: "acyclic (edges (succs (sched_deps (gi_schedule I))))"
    and "waits I a b" and x: "at I a = Some x" and y: "at I b = Some y"
  shows "(x, y) \<in> graph_edges I"
  using assms(3)
proof cases
  case (unit_render u dep)
  then have "(x, y) \<in> set (dependency_edges I (initialize_graph I))"
    using x y deps_of_key [of dep I u] by (auto simp: dependency_edges_iff [OF o] unit_test_edges_iff [OF o] intro!: exI [of _ u])
  then show ?thesis by (simp add: graph_edges_def all_edges_def)
next
  case (unit_parent u parent)
  then have "(x, y) \<in> set (dependency_edges I (initialize_graph I))"
    using x y by (auto simp: dependency_edges_iff [OF o] unit_test_edges_iff [OF o] intro!: exI [of _ u])
  then show ?thesis by (simp add: graph_edges_def all_edges_def)
next
  case (unit_run u dep ds)
  then have "(x, y) \<in> set (dependency_edges I (initialize_graph I))"
    using x y deps_of_key [of dep I u]
    unfolding dependency_edges_iff [OF o] unit_test_edges_iff [OF o] by (intro exI [of _ u] exI [of _ TPRun]) auto
  then show ?thesis by (simp add: graph_edges_def all_edges_def)
next
  case (inlined u dep)
  then have "(x, y) \<in> set (plain_edges I (initialize_graph I) u TPRender)" using x y plain_edges_iff [OF o d, of TPRender u] by auto
  then have "(x, y) \<in> set (dependency_edges I (initialize_graph I))"
    unfolding dependency_edges_iff [OF o] using inlined y deps_of_key [of dep I u] by auto
  then show ?thesis by (simp add: graph_edges_def all_edges_def)
next
  case (upstream u p up)
  then have "(x, y) \<in> set (plain_edges I (initialize_graph I) u p)" using x y plain_edges_iff [OF o d, of p u] by auto
  then have "(x, y) \<in> set (dependency_edges I (initialize_graph I))"
    unfolding dependency_edges_iff [OF o] using upstream(2,3) y first_up_key [OF upstream(6)]
    by (intro exI [of _ u] exI [of _ p]) simp
  then show ?thesis by (simp add: graph_edges_def all_edges_def)
next
  case seed_run
  then show ?thesis using x y unfolding graph_edges_def Un_iff seed_edges_iff [OF o] by blast
next
  case next_phase
  then have "(x, y) \<in> set (transition_edges I (initialize_graph I))" using x y unfolding transition_edges_iff [OF o] by blast
  then show ?thesis by (simp add: graph_edges_def all_edges_def)
next
  case test_first
  then have "(x, y) \<in> set (add_test_to_model_dependencies I (initialize_graph I))" using x y unfolding test_edges_iff [OF o] by blast
  then show ?thesis by (simp add: graph_edges_def all_edges_def)
next
  case (render_run u dep)
  then have "(x, y) \<in> set (render_edges I (initialize_graph I))" using x y unfolding render_edges_iff [OF o] by blast
  then show ?thesis by (simp add: graph_edges_def all_edges_def)
next
  case (render_analyze u dep)
  then have "(x, y) \<in> set (render_edges I (initialize_graph I))" using x y unfolding render_edges_iff [OF o] by blast
  then show ?thesis by (simp add: graph_edges_def all_edges_def)
qed

lemma edge_waits:
  assumes o: "ordered I" and d: "acyclic (edges (succs (sched_deps (gi_schedule I))))"
    and "(x, y) \<in> graph_edges I"
  shows "\<exists>a b. waits I a b \<and> at I a = Some x \<and> at I b = Some y"
proof -
  consider "(x, y) \<in> set (task_edges (built (initialize_graph I)))" | "(x, y) \<in> set (transition_edges I (initialize_graph I))"
    | "(x, y) \<in> set (dependency_edges I (initialize_graph I))" | "(x, y) \<in> set (render_edges I (initialize_graph I))"
    | "(x, y) \<in> set (add_test_to_model_dependencies I (initialize_graph I))"
    using assms(3) by (auto simp: graph_edges_def all_edges_def)
  then show ?thesis
  proof cases
    case 1
    then show ?thesis unfolding seed_edges_iff [OF o] by (blast intro: waits.seed_run)
  next
    case 2
    then show ?thesis unfolding transition_edges_iff [OF o] by (blast intro: waits.next_phase)
  next
    case 3
    then obtain u p z where u: "has_key (sched_deps (gi_schedule I)) u" "at I (p, u) = Some z"
        "if is_unit_test u then (x, y) \<in> set (unit_test_edges I (initialize_graph I) u p)
         else (x, y) \<in> set (plain_edges I (initialize_graph I) u p)" unfolding dependency_edges_iff [OF o] by blast
    show ?thesis
    proof (cases "is_unit_test u")
      case True
      with u(3) show ?thesis unfolding unit_test_edges_iff [OF o] if_True
        using waits.unit_render [OF True] waits.unit_parent [OF True u(1)] waits.unit_run [OF True] by metis
    next
      case False
      with u(3) show ?thesis unfolding plain_edges_iff [OF o d u(2)] if_False
        using waits.inlined [OF False] waits.upstream [OF False, of p] u(2) by simp blast
    qed
  next
    case 4
    then show ?thesis unfolding render_edges_iff [OF o] by (blast intro: waits.render_run waits.render_analyze)
  next
    case 5
    then show ?thesis unfolding test_edges_iff [OF o] by (blast intro: waits.test_first)
  qed
qed

end
