(* ===== verification/Task_Graph_Factory.thy ===== *)
theory Task_Graph_Factory imports Task_Graph_Nodes begin

text \<open>
  What the graph builder relies on from the factory of tasks, as a locale: the tasks of a node are tasks of
  that node, one for each phase, and each receiver belongs to an earlier phase that has a task. The factory the
  repository has fulfils it.
\<close>

lemma lookup_node:
  assumes "nodes_wf ns" and "map_of m uid = Some n" and "set m \<subseteq> set (iter ns)"
  shows "get_node ns uid = Some n"
  using assms map_of_SomeD iter_get_node by (metis subsetD)

lemma lookups:
  assumes "nodes_wf ns"
  shows "renderable_task ns uid = Some n \<Longrightarrow> get_node ns uid = Some n"
    and "showable_task ns uid = Some n \<Longrightarrow> get_node ns uid = Some n"
    and "runnable_remote_task ns uid = Some n \<Longrightarrow> get_node ns uid = Some n"
  unfolding renderable_task_def showable_task_def runnable_remote_task_def or_else_def
  by (auto split: option.splits elim!: lookup_node [OF assms] simp: iter_def)

lemma get_node_id: "nodes_wf ns \<Longrightarrow> get_node ns uid = Some n \<Longrightarrow> unique_id n = uid"
  using iter_get_node [of ns uid n] by (auto simp: nodes_wf_def)

section \<open>The contract\<close>

text \<open>What a list of phases and tasks of one node fulfils.\<close>

definition resource_fits :: "NodeType \<Rightarrow> (TP \<times> task) list \<Rightarrow> bool" where
  "resource_fits r pts \<longleftrightarrow> (\<forall>(p, t) \<in> set pts. task_resource t = r)"

definition work_fits :: "string \<Rightarrow> (TP \<times> task) list \<Rightarrow> bool" where
  "work_fits uid pts \<longleftrightarrow> (\<forall>(p, t) \<in> set pts. work_node_id t = uid \<and> task_phase t = Some p \<and> task_type t \<noteq> ''barrier'') \<and>
     (\<forall>(p, t) \<in> set pts. \<forall>(q, t') \<in> set pts. task_type t = task_type t' \<longrightarrow> p = q)"

definition receivers_fit :: "(TP \<times> task) list \<Rightarrow> bool" where
  "receivers_fit pts \<longleftrightarrow> (\<forall>(p, t) \<in> set pts. \<forall>q. result_receiver t = Some q \<longrightarrow> q \<in> fst ` set pts \<and> phase_no q < phase_no p)"

definition node_tasks_ok :: "string \<Rightarrow> (TP \<times> task) list \<Rightarrow> bool" where
  "node_tasks_ok uid pts \<longleftrightarrow> work_fits uid pts \<and> (\<exists>r. resource_fits r pts) \<and> receivers_fit pts"

text \<open>The tasks of a node and the receivers they hand on.\<close>

lemma handed_on_ok:
  assumes n: "unique_id n = uid" and r: "r \<in> {None, Some n}" and s: "s \<in> {None, Some n}"
    and a: "a = None \<or> (\<exists>t. a = Some t \<and> work_node_id t = uid \<and> task_resource t = resource_type n \<and> task_phase t = Some TPAnalyze \<and>
      result_receiver t = rx \<and> task_type t \<notin> {''render'', ''run'', ''show'', ''barrier''})"
    and x: "x = None \<or> x = Some (run_task n rx1)"
    and rx: "rx = None \<or> rx = Some TPRender \<and> r \<noteq> None" "rx1 = None \<or> rx1 = rx \<or> rx1 = Some TPAnalyze \<and> a \<noteq> None"
      "rx2 = None \<or> rx2 = rx1"
  shows "node_tasks_ok uid (phase_tasks \<lparr>renderable = map_option render_task r, analyzeable = a, runnable = x,
    showable = map_option (\<lambda>n. show_task n rx2) s\<rparr>)" (is "node_tasks_ok uid ?pts")
proof -
  have t: "work_node_id t = uid \<and> task_phase t = Some p \<and> task_resource t = resource_type n \<and> task_type t \<noteq> ''barrier'' \<and>
      (p = TPRender \<and> task_type t = ''render'' \<or> p = TPAnalyze \<and> task_type t \<notin> {''render'', ''run'', ''show''} \<or>
       p = TPRun \<and> task_type t = ''run'' \<or> p = TPShow \<and> task_type t = ''show'')" if "(p, t) \<in> set ?pts" for p t
    using that n r s a x unfolding phase_tasks_mem
    by (auto simp: render_task_def run_task_def show_task_def)
  have "p = q" if "(p, u) \<in> set ?pts" "(q, v) \<in> set ?pts" "task_type u = task_type v" for p q u v
    using t [OF that(1)] t [OF that(2)] that(3) by auto
  then have "work_fits uid ?pts" unfolding work_fits_def using t by blast
  moreover have "resource_fits (resource_type n) ?pts" unfolding resource_fits_def using t by blast
  moreover have "receivers_fit ?pts"
    unfolding receivers_fit_def
  proof (clarify)
    fix p t q assume "(p, t) \<in> set ?pts" and q: "result_receiver t = Some q"
    then have "p = TPAnalyze \<and> rx = Some q \<or> p = TPRun \<and> rx1 = Some q \<or> p = TPShow \<and> rx2 = Some q"
      using a x unfolding phase_tasks_mem by (auto simp: render_task_def run_task_def show_task_def)
    then have "(q = TPRender \<and> r \<noteq> None \<or> q = TPAnalyze \<and> a \<noteq> None) \<and> phase_no q < phase_no p" using rx by auto
    then show "q \<in> fst ` set ?pts \<and> phase_no q < phase_no p"
      using phase_tasks_mem [of q] by (force simp: image_iff)
  qed
  ultimately show ?thesis unfolding node_tasks_ok_def by blast
qed

locale tasks_contract =
  fixes F :: tasks_factory
  assumes runs_node: "nodes_wf ns \<Longrightarrow> runnable_task F uid ns ps execute = Some n \<Longrightarrow> get_node ns uid = Some n"
    and analyzes_node: "nodes_wf ns \<Longrightarrow> analyzeable_task F ns uid ps = Some n \<Longrightarrow> get_node ns uid = Some n"
    and analyzes: "analyzeable_task F ns uid ps = Some n \<Longrightarrow> \<exists>t. analyze_task F n rx sends = Some t \<and> work_node_id t = unique_id n \<and> task_resource t = resource_type n \<and>
      task_phase t = Some TPAnalyze \<and> result_receiver t = rx \<and> task_type t \<notin> {''render'', ''run'', ''show'', ''barrier''}"
    and group_tasks: "resource_type (aggregated_test grp) = TestNode \<Longrightarrow>
      node_tasks_ok (group_unique_id grp) (phase_tasks (tasks_for_generic_test_group F ps grp))"
begin

lemma node_tasks:
  assumes wf: "nodes_wf ns" and "\<And>a grp. aggregation = Some a \<Longrightarrow> generic_test_group_for_node a uid = Some grp \<Longrightarrow>
      group_unique_id grp = uid \<and> resource_type (aggregated_test grp) = TestNode"
  shows "node_tasks_ok uid (phase_tasks (tasks_for_node F uid ns sched execute ps aggregation rdeps))"
proof (cases "Option.bind aggregation (\<lambda>a. generic_test_group_for_node a uid)")
  case (Some grp)
  then show ?thesis using assms(2) group_tasks [of grp ps] by (auto simp: tasks_for_node_def bind_eq_Some_conv)
next
  case None
  define r where "r = (if TPRender \<in> set ps then renderable_task ns uid else None)"
  define a where "a = (if TPAnalyze \<in> set ps then analyzeable_task F ns uid ps else None)"
  define x where "x = runnable_task F uid ns ps execute"
  define s where "s = (if TPShow \<in> set ps then showable_task ns uid else None)"
  define runs where "runs = (\<not> (list_all (\<lambda>u. starts_with u ''unit_test.'') (selected_nodes sched) \<and>
      has_only_unit_test_children sched rdeps uid) \<and> uid \<in> set (selected_nodes sched))"
  define rx where "rx = (if r \<noteq> None \<and> (a \<noteq> None \<or> x \<noteq> None) then Some TPRender else None)"
  have e: "tasks_for_node F uid ns sched execute ps aggregation rdeps =
      (case analyze_phase F a (x \<noteq> None \<or> s \<noteq> None) rx of (analyze, rx) \<Rightarrow>
         case (if runs then run_phase ns uid execute x rx else (None, rx)) of (run, rx) \<Rightarrow>
           \<lparr>renderable = map_option render_task r, analyzeable = analyze, runnable = run, showable = map_option (\<lambda>n. show_task n rx) s\<rparr>)"
    unfolding tasks_for_node_def None option.case Let_def r_def a_def x_def s_def rx_def runs_def by (rule refl)
  have n: "r \<in> {None, get_node ns uid}" "a \<in> {None, get_node ns uid}" "x \<in> {None, get_node ns uid}" "s \<in> {None, get_node ns uid}"
    using lookups [OF wf, of uid] analyzes_node [OF wf, of uid ps] runs_node [OF wf, of uid ps execute]
    by (auto simp: r_def a_def x_def s_def split: option.splits) (metis option.exhaust)+
  obtain ta rx1 where ta: "analyze_phase F a (x \<noteq> None \<or> s \<noteq> None) rx = (ta, rx1)" by (cases "analyze_phase F a (x \<noteq> None \<or> s \<noteq> None) rx")
  obtain tr rx2 where tr: "(if runs then run_phase ns uid execute x rx1 else (None, rx1)) = (tr, rx2)"
    by (cases "if runs then run_phase ns uid execute x rx1 else (None, rx1)")
  show ?thesis
  proof (cases "get_node ns uid")
    case None
    then have "phase_tasks (tasks_for_node F uid ns sched execute ps aggregation rdeps) = []"
      using n by (simp add: e analyze_phase_def run_phase_def phase_tasks_simps)
    then show ?thesis by (simp add: node_tasks_ok_def work_fits_def resource_fits_def receivers_fit_def)
  next
    case (Some m)
    have id: "unique_id m = uid" by (rule get_node_id [OF wf Some])
    have a: "a = None \<or> (analyzeable_task F ns uid ps = Some m \<and> a = Some m)" using n(2) Some by (auto simp: a_def split: if_splits)
    have A: "ta = None \<or> (\<exists>t. ta = Some t \<and> work_node_id t = uid \<and> task_resource t = resource_type m \<and> task_phase t = Some TPAnalyze \<and>
        result_receiver t = rx \<and> task_type t \<notin> {''render'', ''run'', ''show'', ''barrier''})"
      and R1: "rx1 = None \<or> rx1 = rx \<or> rx1 = Some TPAnalyze \<and> ta \<noteq> None"
      using a ta analyzes [of ns uid ps m rx "x \<noteq> None \<or> s \<noteq> None"] id by (auto simp: analyze_phase_def split: if_split_asm)
    have X: "tr = None \<or> tr = Some (run_task m rx1)" and R2: "rx2 = None \<or> rx2 = rx1"
      using tr n(3) Some by (auto simp: run_phase_def Let_def split: if_splits option.splits)
    have R: "rx = None \<or> rx = Some TPRender \<and> r \<noteq> None" by (simp add: rx_def)
    have "node_tasks_ok uid (phase_tasks \<lparr>renderable = map_option render_task r, analyzeable = ta, runnable = tr,
        showable = map_option (\<lambda>n. show_task n rx2) s\<rparr>)"
      by (rule handed_on_ok [OF id _ _ A X R R1 R2]) (use n Some in auto)
    then show ?thesis unfolding e ta tr prod.case .
  qed
qed

end

section \<open>The factory of the repository\<close>

lemma default_group_tasks:
  assumes "resource_type (aggregated_test grp) = TestNode"
  shows "node_tasks_ok (group_unique_id grp) (phase_tasks (tasks_for_generic_test_group default_factory ps grp))"
  using assms unfolding node_tasks_ok_def
  by (auto simp: default_factory_def renderable_test_group_task_def runnable_test_group_task_def phase_tasks_simps
      work_fits_def resource_fits_def receivers_fit_def)

interpretation default: tasks_contract default_factory
proof
  show "nodes_wf ns \<Longrightarrow> runnable_task default_factory uid ns ps execute = Some n \<Longrightarrow> get_node ns uid = Some n" for ns uid ps execute n
    using lookups(3) by (auto simp: default_factory_def split: Execute.splits if_splits)
qed (simp_all add: default_group_tasks, simp_all add: default_factory_def)

section \<open>The tasks of the graph\<close>

text \<open>What a builder is given: the schedule names each node once, ids are unique, and a group of tests has the
  id it is filed under.\<close>

definition aggregation_ok :: "graph_input \<Rightarrow> bool" where
  "aggregation_ok I \<longleftrightarrow> (\<forall>a u grp. gi_aggregation I = Some a \<and> u \<in> set (node_order I) \<and>
     generic_test_group_for_node a u = Some grp \<longrightarrow> group_unique_id grp = u \<and> resource_type (aggregated_test grp) = TestNode)"

definition tasks_ok :: "graph_input \<Rightarrow> bool" where
  "tasks_ok I \<longleftrightarrow> distinct (node_order I) \<and> nodes_wf (gi_nodes I) \<and> tasks_contract (gi_factory I) \<and> aggregation_ok I \<and>
     ''barrier'' \<notin> set (running_experimentals I)"

lemma tasks_at_ok:
  assumes "tasks_ok I" and "u \<in> set (node_order I)"
  shows "node_tasks_ok u (tasks_at I u)"
proof (cases "has_key (checks (gi_nodes I)) u \<or> map_of (experimentals (gi_nodes I)) u = None")
  case True
  have "node_tasks_ok u []" by (simp add: node_tasks_ok_def work_fits_def resource_fits_def receivers_fit_def)
  moreover have "node_tasks_ok u (phase_tasks (tasks_for_node (gi_factory I) u (gi_nodes I) (gi_schedule I) (gi_execute I)
      (expected_node_phases I u) (gi_aggregation I) (build_reverse_deps (sched_deps (gi_schedule I)))))"
    by (rule tasks_contract.node_tasks) (use assms in \<open>auto simp: tasks_ok_def aggregation_ok_def\<close>)
  ultimately show ?thesis using True by (auto simp: tasks_at_def tasks_of_def)
next
  case False
  then obtain n where n: "map_of (experimentals (gi_nodes I)) u = Some n" "\<not> has_key (checks (gi_nodes I)) u" by auto
  have "get_node (gi_nodes I) u = Some n" by (rule lookup_node [OF _ n(1)]) (use assms in \<open>auto simp: tasks_ok_def iter_def\<close>)
  then have "unique_id n = u" using get_node_id assms by (auto simp: tasks_ok_def)
  then show ?thesis using n assms
    by (auto simp: tasks_at_def tasks_of_def phase_tasks_simps experimental_task_def node_tasks_ok_def work_fits_def
        resource_fits_def receivers_fit_def tasks_ok_def split: option.splits if_splits)
qed

text \<open>The key of a task determines its phase and its node.\<close>

lemma task_facts:
  assumes "tasks_ok I" and "at I (p, u) = Some i"
  shows "work_node_id (all_tasks I ! i) = u" "task_phase (all_tasks I ! i) = Some p" "task_type (all_tasks I ! i) \<noteq> ''barrier''"
proof -
  have o: "distinct (node_order I)" using assms(1) by (simp add: tasks_ok_def)
  have "work_fits u (tasks_at I u)" using tasks_at_ok [OF assms(1)] at_task(1) [OF o assms(2)] by (simp add: node_tasks_ok_def)
  then show "work_node_id (all_tasks I ! i) = u" "task_phase (all_tasks I ! i) = Some p" "task_type (all_tasks I ! i) \<noteq> ''barrier''"
    using at_task(3) [OF o assms(2)] by (auto simp: work_fits_def)
qed

lemma task_keys_distinct:
  assumes "tasks_ok I"
  shows "distinct (map task_key (all_tasks I))"
  unfolding distinct_conv_nth
proof (clarify)
  fix i j assume ij: "i < length (map task_key (all_tasks I))" "j < length (map task_key (all_tasks I))" "i \<noteq> j"
    and eq: "map task_key (all_tasks I) ! i = map task_key (all_tasks I) ! j"
  have o: "distinct (node_order I)" using assms by (simp add: tasks_ok_def)
  obtain p u where i: "at I (p, u) = Some i" using at_onto [OF o, of i] ij(1) by auto
  obtain q v where j: "at I (q, v) = Some j" using at_onto [OF o, of j] ij(2) by auto
  have same: "work_node_id (all_tasks I ! i) = work_node_id (all_tasks I ! j)" "task_type (all_tasks I ! i) = task_type (all_tasks I ! j)"
    using eq ij by (simp_all add: task_key_def)
  then have uv: "u = v" using task_facts(1) [OF assms i] task_facts(1) [OF assms j] by simp
  have "work_fits u (tasks_at I u)" using tasks_at_ok [OF assms] at_task(1) [OF o i] by (simp add: node_tasks_ok_def)
  then have "p = q" using at_task(3) [OF o i] at_task(3) [OF o j] same(2) uv by (auto simp: work_fits_def)
  then show False using i j uv ij(3) by simp
qed

end
