(* ===== verification/Task_Graph_Order.thy ===== *)
theory Task_Graph_Order imports Task_Graph_Edges Task_Graph_Factory begin

text \<open>
  The graph has no cycle: a number for each task, from how much is upstream of its node, that every edge
  increases. A unit test counts as a part of the node it blocks, and a data test comes before the nodes
  with the same things upstream.
\<close>

section \<open>The walk to the nearest parents\<close>

lemma or_seed_cases: "or_seed I p = p \<or> p \<in> set (overlapping_sources (gi_schedule I)) \<and> or_seed I p \<in> dom (map_of (seeds (gi_nodes I)))"
proof (cases "overlapping_source_to_seed I p")
  case (Some seed)
  have dom: "fold (\<lambda>(seed_uid, n) m. case relation_name n of None \<Rightarrow> m | Some r \<Rightarrow> m(r \<mapsto> seed_uid)) xs m r = Some s \<Longrightarrow>
      s \<in> fst ` set xs \<or> m r = Some s" for xs m r s
    by (induction xs arbitrary: m) (fastforce split: option.splits if_splits)+
  from Some show ?thesis
    using dom [of "seeds (gi_nodes I)" "\<lambda>_. None"]
    by (auto simp: overlapping_source_to_seed_def or_seed_def Let_def bind_eq_Some_conv dom_map_of_conv_image_fst split: if_splits)
qed (simp add: or_seed_def)

lemma parent_walk_upstream:
  "q \<in> set (parent_walk I parents visited stack) \<Longrightarrow>
   q \<in> set parents \<or> (\<exists>p \<in> reach (deps_of I) (set stack). q = or_seed I p)"
proof (induction I parents visited stack rule: parent_walk.induct)
  case (1 I parents visited stack)
  show ?case
  proof (cases "vec_pop stack")
    case None
    then show ?thesis using "1.prems" by (simp add: parent_walk.simps [of I parents])
  next
    case (Some pr)
    obtain p rest where pr: "pr = (p, rest)" by (cases pr)
    note pop = Some [unfolded pr]
    have s: "set stack = insert p (set rest)" using pop by (cases stack rule: rev_cases) (auto simp: vec_pop_def split: if_splits)
    have base: "reach (deps_of I) (set rest) \<subseteq> reach (deps_of I) (set stack)" "p \<in> reach (deps_of I) (set stack)"
      using s reach_mono [of "set rest" "set stack"] reach_base [of "set stack" "deps_of I"] by auto
    have deeper: "reach (deps_of I) (set (rest @ deps_of I p)) \<subseteq> reach (deps_of I) (set stack)"
      using reach_step [OF base(2)] base(1) reach_base [of "set stack" "deps_of I"] s
      by (intro reach_least) (auto dest: reach_step)
    show ?thesis
    proof (cases "p \<in> set visited")
      case True
      then show ?thesis using "1.IH"(1) [OF pop refl] "1.prems" pop base(1)
        by (auto simp: parent_walk.simps [of I parents])
    next
      case new: False
      show ?thesis
      proof (cases "ephemeral_node I p")
        case True
        then show ?thesis using "1.IH"(2) [OF pop refl new True] "1.prems" pop new deeper
          by (auto simp: parent_walk.simps [of I parents])
      next
        case False
        then show ?thesis using "1.IH"(3) [OF pop refl new False] "1.prems" pop new base
          by (auto simp: parent_walk.simps [of I parents])
      qed
    qed
  qed
qed

lemma parent_walk_steps:
  "vec_pop stack = None \<Longrightarrow> parent_walk I parents visited stack = parents"
  "vec_pop stack = Some (p, rest) \<Longrightarrow> parent_walk I parents visited stack =
     (if p \<in> set visited then parent_walk I parents visited rest
      else if ephemeral_node I p then parent_walk I parents (p # visited) (rest @ deps_of I p)
      else parent_walk I (bs_insert (or_seed I p) parents) (p # visited) rest)"
  by (subst parent_walk.simps, simp)+

lemma parent_walk_keeps: "set parents \<subseteq> set (parent_walk I parents visited stack)"
proof (induction I parents visited stack rule: parent_walk.induct)
  case (1 I parents visited stack)
  show ?case
  proof (cases "vec_pop stack")
    case (Some pr)
    then obtain p rest where pop: "vec_pop stack = Some (p, rest)" by (cases pr) simp
    show ?thesis using "1.IH" [OF pop refl] by (auto simp: parent_walk_steps(2) [OF pop])
  qed (simp add: parent_walk_steps(1))
qed

lemma parent_walk_finds:
  "p \<in> set stack \<Longrightarrow> p \<notin> set visited \<Longrightarrow> \<not> ephemeral_node I p \<Longrightarrow> or_seed I p \<in> set (parent_walk I parents visited stack)"
proof (induction I parents visited stack rule: parent_walk.induct)
  case (1 I parents visited stack)
  obtain q rest where pop: "vec_pop stack = Some (q, rest)" using "1.prems"(1) by (cases stack rule: rev_cases) (auto simp: vec_pop_simps)
  have s: "set stack = insert q (set rest)" using pop by (cases stack rule: rev_cases) (auto simp: vec_pop_def split: if_splits)
  show ?case
  proof (cases "q = p")
    case True
    then show ?thesis using "1.prems" parent_walk_keeps [of "bs_insert (or_seed I p) parents" I "p # visited" rest]
      by (simp add: parent_walk_steps(2) [OF pop])
  next
    case False
    then show ?thesis using "1.IH" [OF pop refl] "1.prems" s by (auto simp: parent_walk_steps(2) [OF pop])
  qed
qed

section \<open>The schedule\<close>

text \<open>
  What the builder is given: an acyclic schedule; nothing depends on a unit test, and its first dependency is
  the node it blocks: the others are upstream of it, and the node it tests is one of them; seeds depend on nothing.
\<close>

definition unit_test_ok :: "graph_input \<Rightarrow> string \<Rightarrow> bool" where
  "unit_test_ok I u \<longleftrightarrow> starts_with u ''unit_test.'' \<and>
     (\<forall>d ds. deps_of I u = d # ds \<longrightarrow> d \<notin> set (overlapping_sources (gi_schedule I)) \<and> (\<forall>e \<in> set ds. (d, e) \<in> ancestry I)) \<and>
     (\<forall>m. Option.bind (map_of (unit_tests (gi_nodes I)) u) tested_node_unique_id = Some m \<longrightarrow> m \<in> set (deps_of I u))"

definition schedule_ok :: "graph_input \<Rightarrow> bool" where
  "schedule_ok I \<longleftrightarrow> distinct (node_order I) \<and> acyclic (edges (succs (sched_deps (gi_schedule I)))) \<and>
     (\<forall>u d. d \<in> set (deps_of I u) \<longrightarrow> \<not> is_unit_test d) \<and> (\<forall>u \<in> set (node_order I). is_unit_test u \<longrightarrow> unit_test_ok I u) \<and>
     (\<forall>s \<in> dom (map_of (seeds (gi_nodes I))). deps_of I s = [] \<and> starts_with s ''seed.'')"

definition blocked_node :: "graph_input \<Rightarrow> string \<Rightarrow> string" where
  "blocked_node I u = (case deps_of I u of d # _ \<Rightarrow> if is_unit_test u then d else u | [] \<Rightarrow> u)"

definition level :: "graph_input \<Rightarrow> string \<Rightarrow> nat" where
  "level I u = 2 * rank_of (sched_deps (gi_schedule I)) u + (if is_data_test u then 0 else 1)"

fun step_no :: "bool \<Rightarrow> TP \<Rightarrow> nat" where
  "step_no unit_test TPRender = (if unit_test then 2 else 0)"
| "step_no unit_test TPAnalyze = (if unit_test then 3 else 1)"
| "step_no unit_test TPRun = (if unit_test then 4 else 5)"
| "step_no unit_test TPCompare = 6"
| "step_no unit_test TPShow = 7"

definition task_rank :: "graph_input \<Rightarrow> TP \<times> string \<Rightarrow> nat" where
  "task_rank I a = 8 * level I (blocked_node I (snd a)) + step_no (is_unit_test (snd a)) (fst a)"

lemma step_no_mono: "phase_no p < phase_no q \<Longrightarrow> step_no b p < step_no b q"
  by (cases p; cases q) simp_all

lemma step_no_bound: "step_no b p < 8"
  by (cases p) simp_all

lemma above_dep: "d \<in> set (deps_of I u) \<Longrightarrow> (u, d) \<in> ancestry I"
  by (auto simp: deps_of_def)

lemma seed_not_test: "starts_with s ''seed.'' \<Longrightarrow> \<not> is_unit_test s \<and> \<not> is_data_test s"
  by (auto simp: is_unit_test_def is_data_test_def starts_with_Cons)

lemma rank_of_drops:
  assumes "schedule_ok I" and "(u, a) \<in> ancestry I"
  shows "rank_of (sched_deps (gi_schedule I)) a < rank_of (sched_deps (gi_schedule I)) u"
  using assms(2) rank_drops [of "sched_deps (gi_schedule I)"] assms(1)
  by (induction rule: trancl_induct) (fastforce simp: schedule_ok_def dest: less_trans)+

lemma level_drops: "schedule_ok I \<Longrightarrow> (u, a) \<in> ancestry I \<Longrightarrow> level I a < level I u"
  using rank_of_drops by (fastforce simp: level_def)

lemma above_not_unit: "schedule_ok I \<Longrightarrow> (u, a) \<in> ancestry I \<Longrightarrow> \<not> is_unit_test a"
  by (auto simp: schedule_ok_def deps_of_def dest!: tranclD2)

lemma rank_plain: "\<not> is_unit_test u \<Longrightarrow> task_rank I (p, u) = 8 * level I u + step_no False p"
  by (simp add: task_rank_def blocked_node_def split: list.splits)

lemma rank_unit: "is_unit_test u \<Longrightarrow> deps_of I u = d # ds \<Longrightarrow> task_rank I (p, u) = 8 * level I d + step_no True p"
  by (simp add: task_rank_def blocked_node_def)

lemma rank_level: "level I v < level I u \<Longrightarrow> 8 * level I v + step_no b p < 8 * level I u + step_no b' q"
  using step_no_bound [of b p] by linarith

text \<open>What stands in for a dependency is below whatever the dependency is below.\<close>

lemma or_seed_level:
  assumes ok: "schedule_ok I" and "(u, p) \<in> ancestry I"
  shows "level I (or_seed I p) < level I u \<and> \<not> is_unit_test (or_seed I p)"
proof -
  note below = level_drops [OF assms] above_not_unit [OF assms]
  show ?thesis
  proof (cases "or_seed I p = p")
    case False
    then have "or_seed I p \<in> dom (map_of (seeds (gi_nodes I)))" using or_seed_cases [of I p] by blast
    then have s: "deps_of I (or_seed I p) = []" "starts_with (or_seed I p) ''seed.''" using ok by (auto simp: schedule_ok_def)
    have "{z. (or_seed I p, z) \<in> ancestry I} = {}" using s(1) by (auto simp: deps_of_def dest: tranclD)
    then have "level I (or_seed I p) = 1" using seed_not_test [OF s(2)] by (simp add: level_def rank_of_def)
    moreover have "1 < level I u" using below(1) rank_of_drops [OF assms] by (simp add: level_def)
    ultimately show ?thesis using seed_not_test [OF s(2)] by simp
  qed (use below in simp)
qed

section \<open>Every edge goes up\<close>

lemma zip_tl_sorted: "sorted_wrt P xs \<Longrightarrow> (p, q) \<in> set (zip xs (tl xs)) \<Longrightarrow> P p q"
  by (auto simp: set_zip nth_tl sorted_wrt_nth_less)

lemma node_phases_sorted: "sorted_wrt (\<lambda>p q. phase_no p < phase_no q) (node_phases I u)"
  using phase_tasks_sorted by (simp add: node_phases_def tasks_at_def)

lemma ready_phase_step: "\<not> is_unit_test d \<Longrightarrow> step_no (is_unit_test d) (ready_phase I d) < 2"
  by (simp add: ready_phase_def)

lemma waits_up:
  assumes ok: "schedule_ok I" and "waits I a b" and order: "snd a \<in> set (node_order I)" "snd b \<in> set (node_order I)"
  shows "task_rank I a < task_rank I b"
  using assms(2)
proof cases
  case (next_phase p q u)
  have "step_no (is_unit_test u) p < step_no (is_unit_test u) q"
    by (rule step_no_mono [OF zip_tl_sorted [OF node_phases_sorted next_phase(3)]])
  then show ?thesis using next_phase by (simp add: task_rank_def)
next
  case (seed_run dep u seed)
  have s: "or_seed I dep = seed" using seed_run(4) by (simp add: or_seed_def)
  have over: "dep \<in> set (overlapping_sources (gi_schedule I))" using seed_run(4) by (auto simp: overlapping_source_to_seed_def Let_def split: if_splits)
  have "level I seed < level I (blocked_node I u) \<and> \<not> is_unit_test seed"
  proof (cases "is_unit_test u")
    case True
    obtain d ds where d: "deps_of I u = d # ds" using seed_run(3) by (cases "deps_of I u") auto
    then have "dep \<in> set ds" "(d, dep) \<in> ancestry I" using True ok over seed_run(2,3) order(2) d by (auto simp: schedule_ok_def unit_test_ok_def)
    then show ?thesis using or_seed_level [OF ok, of d dep] s True d by (simp add: blocked_node_def)
  next
    case False
    then show ?thesis using or_seed_level [OF ok above_dep [OF seed_run(3)]] s by (simp add: blocked_node_def split: list.splits)
  qed
  then show ?thesis using seed_run(1,2) rank_level rank_plain [of seed I TPRun] by (simp add: task_rank_def)
next
  case (unit_render u dep)
  obtain d ds where d: "deps_of I u = d # ds" using unit_render(4) by (cases "deps_of I u") auto
  have n: "\<not> is_unit_test dep" using above_not_unit [OF ok above_dep [OF unit_render(4)]] .
  consider "dep = d" | "level I dep < level I d"
    using d unit_render(2,3,4) order(2) ok level_drops [OF ok] by (auto simp: schedule_ok_def unit_test_ok_def)
  then show ?thesis
    using unit_render(1,2) rank_unit [OF unit_render(3) d] rank_plain [OF n] ready_phase_step [OF n, of I] n rank_level
    by cases auto
next
  case (unit_parent u parent)
  then obtain m where m: "Option.bind (map_of (unit_tests (gi_nodes I)) u) tested_node_unique_id = Some m"
      "parent \<in> set (parent_walk I [] [] (deps_of I m))"
    by (cases "Option.bind (map_of (unit_tests (gi_nodes I)) u) tested_node_unique_id") (auto simp: unit_test_render_parent_runs_def)
  then have t: "m \<in> set (deps_of I u)" using ok unit_parent(2,3) order(2) by (auto simp: schedule_ok_def unit_test_ok_def)
  then obtain d ds where d: "deps_of I u = d # ds" by (cases "deps_of I u") auto
  obtain p where p: "p \<in> reach (deps_of I) (set (deps_of I m))" "parent = or_seed I p"
    using parent_walk_upstream [OF m(2)] by auto
  have "(m, p) \<in> ancestry I" using p(1) by (auto simp: reach_def trancl_unfold_left deps_of_def edges_def)
  moreover have "m = d \<or> (d, m) \<in> ancestry I" using t d unit_parent(2,3) order(2) ok by (auto simp: schedule_ok_def unit_test_ok_def)
  ultimately have "(d, p) \<in> ancestry I" by (auto intro: trancl_trans)
  then have l: "level I parent < level I d" "\<not> is_unit_test parent" using or_seed_level [OF ok] p(2) by auto
  then show ?thesis using unit_parent(1,2) rank_unit [OF unit_parent(3) d] rank_plain [OF l(2)] rank_level by simp
next
  case (unit_run u dep ds)
  have n: "\<not> is_unit_test dep" using above_not_unit [OF ok above_dep, of dep u] unit_run(4) by simp
  show ?thesis using unit_run(1,2) rank_unit [OF unit_run(3,4)] rank_plain [OF n] by simp
next
  case (inlined u dep)
  then show ?thesis using level_drops [OF ok above_dep [OF inlined(4)]] above_not_unit [OF ok above_dep [OF inlined(4)]] rank_plain by simp
next
  case (upstream u p up)
  have up: "(u, up) \<in> ancestry I" using first_up_path [OF upstream(6)] .
  then show ?thesis using upstream(1,2) level_drops [OF ok up] rank_plain [OF above_not_unit [OF ok up]] rank_plain [OF upstream(3)] by simp
next
  case (render_run u dep)
  have u: "\<not> is_unit_test u" using render_run(2,3) order(2) ok by (auto simp: schedule_ok_def unit_test_ok_def)
  then show ?thesis using render_run(1,2) or_seed_level [OF ok above_dep [OF render_run(4)]] rank_plain rank_level by simp
next
  case (render_analyze u dep)
  have u: "\<not> is_unit_test u" using render_analyze(2,3) order(2) ok by (auto simp: schedule_ok_def unit_test_ok_def)
  then show ?thesis using render_analyze(1,2) level_drops [OF ok above_dep [OF render_analyze(4)]]
      rank_plain [OF above_not_unit [OF ok above_dep [OF render_analyze(4)]]] rank_plain [OF u] rank_level by simp
next
  case (test_first test model)
  have g: "is_data_test test" "is_blockable model" "set (deps_of I test) \<inter> set (deps_of I model) \<noteq> {}"
      "(test, model) \<notin> ancestry I" "\<forall>d \<in> set (deps_of I test). d = model \<or> (model, d) \<in> ancestry I"
    using test_first(3) by (simp_all add: guards_def)
  have u: "\<not> is_unit_test test" "\<not> is_unit_test model" "\<not> is_data_test model"
    using g(1,2) by (auto simp: is_unit_test_def is_data_test_def is_blockable_def starts_with_Cons)
  have d: "(model, d) \<in> ancestry I" if "d \<in> set (deps_of I test)" for d
    using above_dep [OF that] g(4) g(5) [rule_format, OF that] by (cases "d = model") simp_all
  have "{z. (test, z) \<in> ancestry I} \<subseteq> {z. (model, z) \<in> ancestry I}"
  proof (clarify)
    fix z assume "(test, z) \<in> ancestry I"
    from tranclD [OF this] obtain y where y: "(test, y) \<in> edges (succs (sched_deps (gi_schedule I)))"
        "(y, z) \<in> (edges (succs (sched_deps (gi_schedule I))))\<^sup>*" by blast
    then have "(model, y) \<in> ancestry I" using d [of y] by (simp add: deps_of_def)
    then show "(model, z) \<in> ancestry I" using y(2) by (rule trancl_rtrancl_trancl)
  qed
  then have "rank_of (sched_deps (gi_schedule I)) test \<le> rank_of (sched_deps (gi_schedule I)) model"
    unfolding rank_of_def by (rule card_mono [OF finite_below])
  then have "level I test < level I model" using g(1) u(3) by (simp add: level_def)
  then show ?thesis using test_first(1,2) rank_plain u(1,2) by simp
qed

text \<open>The graph without the barrier is acyclic.\<close>

lemma graph_edges_acyclic:
  assumes "schedule_ok I"
  shows "acyclic (graph_edges I)"
proof -
  have o: "ordered I" and d: "acyclic (edges (succs (sched_deps (gi_schedule I))))" using assms by (simp_all add: schedule_ok_def)
  define key where "key i = fst (entries I (node_order I) ! i)" for i
  have k: "at I a = Some i \<Longrightarrow> key i = a" for a i using at_iff [OF o, of a i] by (simp add: key_def)
  have "task_rank I (key x) < task_rank I (key y)" if "(x, y) \<in> graph_edges I" for x y
  proof -
    from edge_waits [OF o d that] obtain a b where ab: "waits I a b" "at I a = Some x" "at I b = Some y" by blast
    have "snd a \<in> set (node_order I)" "snd b \<in> set (node_order I)"
      using ab(2,3) at_task(1) [OF o, of "fst a" "snd a"] at_task(1) [OF o, of "fst b" "snd b"] by simp_all
    then show ?thesis using waits_up [OF assms ab(1)] k [OF ab(2)] k [OF ab(3)] by simp
  qed
  then have "acyclic ((graph_edges I)\<inverse>)" by (intro acyclicI_order [where f = "\<lambda>i. task_rank I (key i)"]) auto
  then show ?thesis by (simp only: acyclic_converse)
qed

end
