(* ===== verification/Task_Graph_Correct.thy ===== *)
theory Task_Graph_Correct imports Task_Graph_Order Visitor_Contract begin

text \<open>
  The built graph as the visitor meets it: its tasks and edges, the paths between the phases of a node and
  between the runs of dependent nodes, and the order in which a visit takes what a path leads to.
\<close>

section \<open>The built graph\<close>

definition sound_input :: "graph_input \<Rightarrow> bool" where
  "sound_input I \<longleftrightarrow> tasks_ok I \<and> schedule_ok I \<and> \<not> needs_barrier I"

lemma sound_input_parts:
  assumes "sound_input I"
  shows "tasks_ok I" "schedule_ok I" "ordered I" "acyclic (edges (succs (sched_deps (gi_schedule I))))"
  using assms by (simp_all add: sound_input_def schedule_ok_def)

lemma built_parts:
  assumes ok: "tasks_ok I" and static: "\<not> needs_barrier I"
  shows "\<exists>g. build_phased_task_graph I = Inr (g, nodes_with_no_tasks (initialize_graph I)) \<and> weights g = all_tasks I \<and>
    edge_rel g = graph_edges I \<and> distinct (task_edges g)"
proof -
  have order: "ordered I" using ok by (simp add: tasks_ok_def)
  let ?g = "add_edges (all_edges I (initialize_graph I)) (built (initialize_graph I))"
  have w: "weights ?g = all_tasks I" by (simp add: all_tasks_def)
  have e: "edge_rel ?g = graph_edges I" by (auto simp: edge_rel_def graph_edges_def)
  have d: "distinct (task_edges ?g)" using initialized(6) [OF order] by simp
  have "assert_graph ?g = Inr ()" using d task_keys_distinct [OF ok] w by (simp add: assert_graph_def)
  then have "build_phased_task_graph I = Inr (?g, nodes_with_no_tasks (initialize_graph I))"
    using static by (simp add: build_phased_task_graph_def insert_barrier_def Let_def)
  then show ?thesis using w e d by blast
qed

lemma built_graph:
  assumes "sound_input I" and "build_phased_task_graph I = Inr (g, idle)"
  shows "weights g = all_tasks I" "edge_rel g = graph_edges I" "distinct (task_edges g)"
    and "idle = nodes_with_no_tasks (initialize_graph I)"
  using built_parts [of I] assms by (auto simp: sound_input_def)

lemma graph_edges_range:
  assumes "ordered I" "acyclic (edges (succs (sched_deps (gi_schedule I))))"
  shows "graph_edges I \<subseteq> {..< length (all_tasks I)} \<times> {..< length (all_tasks I)}"
proof (clarify)
  fix x y assume "(x, y) \<in> graph_edges I"
  then obtain a b where "at I a = Some x" "at I b = Some y" using edge_waits [OF assms] by blast
  then show "x \<in> {..< length (all_tasks I)} \<and> y \<in> {..< length (all_tasks I)}"
    using at_iff [OF assms(1)] by simp
qed

lemma built_feeds:
  assumes "sound_input I" and "build_phased_task_graph I = Inr (g, idle)"
  shows "feeds g = edge_rel g"
proof -
  note parts = sound_input_parts [OF assms(1)] and g = built_graph [OF assms]
  have "\<not> is_barrier g y" if "(x, y) \<in> edge_rel g" for x y
  proof -
    have "(x, y) \<in> graph_edges I" using that g(2) by simp
    then obtain p u where "at I (p, u) = Some y" using edge_waits [OF parts(3,4), of x y] by auto
    then show ?thesis using task_facts(3) [OF parts(1)] g(1) by (simp add: is_barrier_def)
  qed
  then show ?thesis by (auto simp: feeds_def)
qed

text \<open>All tasks of a data test are tasks of a test.\<close>

lemma built_uniform:
  assumes "sound_input I" and "build_phased_task_graph I = Inr (g, idle)"
  shows "tests_uniform g"
  unfolding tests_uniform_def
proof (intro allI impI)
  fix d e assume de: "d < length (weights g)" "e < length (weights g)" and t: "is_test g d \<and> work_of g e = work_of g d"
  note parts = sound_input_parts [OF assms(1)] and g = built_graph [OF assms]
  obtain p u where d: "at I (p, u) = Some d" using at_onto [OF parts(3)] de(1) g(1) by metis
  obtain q v where e: "at I (q, v) = Some e" using at_onto [OF parts(3)] de(2) g(1) by metis
  have "v = u" using t task_facts(1) [OF parts(1) d] task_facts(1) [OF parts(1) e] g(1) by (simp add: work_of_def)
  obtain r where "resource_fits r (tasks_at I u)"
    using tasks_at_ok [OF parts(1) at_task(1) [OF parts(3) d]] by (auto simp: node_tasks_ok_def)
  then have r: "task_resource t = r" if "(p, t) \<in> set (tasks_at I u)" for p t using that by (auto simp: resource_fits_def)
  have "task_resource (all_tasks I ! e) = task_resource (all_tasks I ! d)"
    using r [OF at_task(3) [OF parts(3) d]] r [OF at_task(3) [OF parts(3) e [unfolded \<open>v = u\<close>]]] by simp
  then show "is_test g e" using t task_facts(3) [OF parts(1) e] g(1) by (simp add: is_test_def is_barrier_def)
qed

section \<open>Paths\<close>

text \<open>From an earlier phase of a node to a later one.\<close>

lemma zip_tl_path:
  assumes "i < j" "j < length xs" and "\<And>p q. (p, q) \<in> set (zip xs (tl xs)) \<Longrightarrow> (f p, f q) \<in> R"
  shows "(f (xs ! i), f (xs ! j)) \<in> R\<^sup>+"
  using assms(1,2)
proof (induction j)
  case (Suc j)
  have "(xs ! j, xs ! Suc j) \<in> set (zip xs (tl xs))" using Suc.prems(2) by (auto simp: set_zip nth_tl intro!: exI [of _ j])
  then have "(f (xs ! j), f (xs ! Suc j)) \<in> R" by (rule assms(3))
  then show ?case using Suc by (cases "i = j") (auto intro: trancl_into_trancl)
qed simp

lemma phase_path:
  assumes ok: "tasks_ok I" "acyclic (edges (succs (sched_deps (gi_schedule I))))" and g: "weights g = all_tasks I" "edge_rel g = graph_edges I"
    and at: "at I (p, u) = Some x" "at I (q, u) = Some y" and less: "phase_no p < phase_no q"
  shows "(x, y) \<in> (same_work g)\<^sup>+"
proof -
  have order: "ordered I" using ok(1) by (simp add: tasks_ok_def)
  let ?ps = "node_phases I u"
  obtain i j where ij: "i < length ?ps" "?ps ! i = p" "j < length ?ps" "?ps ! j = q"
    using in_order [OF order at(1)] in_order [OF order at(2)] by (metis in_set_conv_nth)
  have "i < j" using sorted_wrt_nth_less [OF node_phases_sorted [of I u], of j i] ij less by (metis less_asym linorder_neqE_nat less_irrefl)
  moreover have "(the (at I (a, u)), the (at I (b, u))) \<in> same_work g" if "(a, b) \<in> set (zip ?ps (tl ?ps))" for a b
  proof -
    have "a \<in> set ?ps" "b \<in> set ?ps" using that by (cases ?ps; auto dest: set_zip_leftD set_zip_rightD)+
    then obtain m n where mn: "at I (a, u) = Some m" "at I (b, u) = Some n" using at_exists [OF order] by blast
    have "(m, n) \<in> graph_edges I" by (rule waits_edge [OF order ok(2) waits.next_phase [OF that] mn])
    then show ?thesis using mn g task_facts(1) [OF ok(1) mn(1)] task_facts(1) [OF ok(1) mn(2)]
      by (simp add: same_work_def work_of_def)
  qed
  ultimately have "(the (at I (?ps ! i, u)), the (at I (?ps ! j, u))) \<in> (same_work g)\<^sup>+"
    using zip_tl_path [of i j ?ps "\<lambda>a. the (at I (a, u))" "same_work g"] ij(3) by blast
  then show ?thesis using ij at by simp
qed

text \<open>From the run of a node to the runs of the nodes that depend on it.\<close>

lemma run_path:
  assumes ok: "sound_input I" "build_phased_task_graph I = Inr (g, idle)"
    and at: "at I (TPRun, v) = Some x" "at I (TPRun, u) = Some y" and dep: "(u, v) \<in> ancestry I" and n: "\<not> is_unit_test u"
  shows "(x, y) \<in> (edge_rel g)\<^sup>+"
proof -
  note parts = sound_input_parts [OF ok(1)] and g = built_graph [OF ok]
  define S where "S = filter (\<lambda>u. TPRun \<in> set (node_phases I u)) (node_order I)"
  have S: "set S = {u. TPRun \<in> set (node_phases I u)}" by (auto simp: S_def node_phases_def split: if_splits)
  let ?r = "restrict_with_transitive (sched_deps (gi_schedule I)) S"
  have "v \<in> set S" "u \<in> set S" using in_order [OF parts(3)] at by (auto simp: S)
  then have "(u, v) \<in> (edges (succs ?r))\<^sup>+" using restrict_order [OF parts(4) _ _ dep] by blast
  then have "at I (TPRun, v) = Some x \<longrightarrow> (x, the (at I (TPRun, u))) \<in> (graph_edges I)\<^sup>+ \<and> (u, v) \<in> ancestry I" for x
    using n
  proof (induction arbitrary: x rule: converse_trancl_induct)
    case (base u)
    have up: "first_up (sched_deps (gi_schedule I)) {v. TPRun \<in> set (node_phases I v)} u v" "u \<in> set S"
      using base(1) by (auto simp: set_succs_restrict [OF parts(4)] S split: if_splits)
    then obtain k where k: "at I (TPRun, u) = Some k" using at_exists [OF parts(3), of TPRun u] by (auto simp: S)
    show ?case using waits_edge [OF parts(3,4) waits.upstream [OF base(2) _ _ up(1)] _ k] first_up_path [OF up(1)] k by auto
  next
    case (step u w)
    have up: "first_up (sched_deps (gi_schedule I)) {v. TPRun \<in> set (node_phases I v)} u w" "u \<in> set S"
      using step.hyps(1) by (auto simp: set_succs_restrict [OF parts(4)] S split: if_splits)
    have w: "\<not> is_unit_test w" "w \<in> set S" using above_not_unit [OF parts(2) first_up_path [OF up(1)]] first_up_included [OF up(1)] by (simp_all add: S)
    obtain k l where kl: "at I (TPRun, u) = Some k" "at I (TPRun, w) = Some l"
      using at_exists [OF parts(3)] up(2) w(2) by (auto simp: S) blast
    have "(l, k) \<in> graph_edges I" using waits_edge [OF parts(3,4) waits.upstream [OF step.prems _ _ up(1)] kl(2,1)] by simp
    then show ?case using step.IH [OF w(1), of x] kl first_up_path [OF up(1)] by (auto intro: trancl_into_trancl trancl_trans)
  qed
  then show ?thesis using at g(2) by simp
qed

section \<open>The order of a visit\<close>

lemma log_ok_prefix: "log_ok g (l @ l') \<Longrightarrow> log_ok g l"
  by (induction l' rule: rev_induct) (simp_all flip: append_assoc)

text \<open>When a task starts, everything that a path leads from has ended.\<close>

lemma started_after:
  assumes "fit E g" and "visit E strategy g = (r, s)" and l: "visit_log s = before @ TaskStarted j n # after"
    and "(i, j) \<in> (edge_rel g)\<^sup>+"
  shows "i \<in> ended_in before"
proof -
  have "log_ok g ((before @ [TaskStarted j n]) @ after)" using visit_facts(1) [OF assms(1,2)] l by simp
  then have "log_ok g (before @ [TaskStarted j n])" by (rule log_ok_prefix)
  then have "i \<in> ended_in (before @ [TaskStarted j n])" by (rule log_ok_upstream [OF _ assms(4)]) simp
  then show ?thesis by simp
qed

text \<open>The later phases of a skipped task are skipped with it.\<close>

lemma skipped_together:
  assumes "skip_inv E g s" and "TaskSkipped j k \<in> set (visit_log s)" and "(j, i) \<in> (feeds g)\<^sup>+" and "(j, i) \<in> (same_work g)\<^sup>+"
    and "tests_uniform g"
  shows "i \<in> dom (skips s)"
proof -
  have "skips s j = Some k" using assms(1,2) unfolding skip_inv_def by blast
  then obtain c where c: "TaskFinished c (outcome E c) \<in> set (visit_log s)" "causes E g c j k"
    using assms(1) unfolding skip_inv_def by blast
  show ?thesis
  proof (cases "propagates E g c \<and> j \<in> blocked g c")
    case True
    then have "i \<in> blocked g c" using assms(3) by (auto simp: blocked_def)
    then show ?thesis using assms(1) c(1) True unfolding skip_inv_def by blast
  next
    case False
    then have r: "reuses E c" "j \<in> reused_by g c" using c(2) by (auto simp: causes_def)
    have "(j, i) \<in> (same_work g)\<^sup>*" using assms(4) by (rule trancl_into_rtrancl)
    then have "i \<in> reused_by g c" using r(2) by (auto simp: reused_by_def intro: rtrancl_trans)
    then show ?thesis using assms(1,5) c(1) r(1) unfolding skip_inv_def by blast
  qed
qed

end
