(* ===== verification/Task_Graph_Contract.thy ===== *)
theory Task_Graph_Contract imports Task_Graph_Correct Node_Match_Contract begin

text \<open>
  What the graph of tasks promises the visitor and, through it, the run of a project: it is built, has
  exactly the tasks and edges of its nodes and no cycle; runs and tests come in the order of the dependencies;
  and no task waits for the result of a task that was skipped.
\<close>

section \<open>An example\<close>

text \<open>A model, a model on top of it with a unit test, and a data test of the first.\<close>

definition build_nodes :: nodes where
  "build_nodes = empty_nodes \<lparr>
     models := [(''model.p.a'', sample_node ''model.p.a'' ''a''), (''model.p.b'', sample_node ''model.p.b'' ''b'')],
     tests := [(''test.p.t'', sample_node ''test.p.t'' ''t'' \<lparr>resource_type := TestNode\<rparr>)],
     unit_tests := [(''unit_test.p.u'', sample_node ''unit_test.p.u'' ''u''
       \<lparr>resource_type := UnitTestNode, tested_node_unique_id := Some ''model.p.b''\<rparr>)]\<rparr>"

definition build_schedule_of :: "string deps \<Rightarrow> string list \<Rightarrow> Schedule" where
  "build_schedule_of d us = \<lparr>sched_deps = d, sorted_nodes = us, all_selected_nodes = us, selected_nodes = us,
     frontier_nodes = [], overlapping_sources = [], sched_select = None, sched_exclude = None\<rparr>"

definition input_of :: "nodes \<Rightarrow> Schedule \<Rightarrow> graph_input" where
  "input_of ns sched = \<lparr>gi_schedule = sched, gi_factory = default_factory, gi_nodes = ns, gi_execute = ExecuteRemote,
     gi_phases = [TPRender, TPAnalyze, TPRun], gi_buckets = default_buckets, infer_schemas = False,
     gi_aggregation = None, running_experimentals = []\<rparr>"

definition build_input :: graph_input where
  "build_input = input_of build_nodes (build_schedule_of
     [(''model.p.b'', [''model.p.a'']), (''test.p.t'', [''model.p.a'']), (''unit_test.p.u'', [''model.p.b''])]
     [''model.p.a'', ''model.p.b'', ''test.p.t'', ''unit_test.p.u''])"

definition build_graph :: task_graph where
  "build_graph = (case build_phased_task_graph build_input of Inr (g, _) \<Rightarrow> g | Inl _ \<Rightarrow> \<lparr>weights = [], task_edges = []\<rparr>)"

lemma build_result: "build_phased_task_graph build_input = Inr (build_graph, [])"
proof -
  have "(case build_phased_task_graph build_input of Inr (g, ids) \<Rightarrow> ids = [] | Inl _ \<Rightarrow> False)" by code_simp
  then show ?thesis unfolding build_graph_def by (auto split: sum.splits)
qed

lemma build_facts:
  "task_edges build_graph = [(0, 1), (2, 3), (4, 5), (6, 7), (1, 3), (1, 5), (2, 6), (1, 6), (7, 3), (1, 2), (1, 4), (5, 3)]"
  "length (weights build_graph) = 8" "result_receiver (weights build_graph ! 1) = Some TPRender"
  "at build_input (TPRun, ''model.p.a'') = Some 1" "at build_input (TPRun, ''model.p.b'') = Some 3"
  "at build_input (TPRun, ''test.p.t'') = Some 5" "at build_input (TPRender, ''model.p.a'') = Some 0"
  by code_simp+

lemma build_nodes_wf: "nodes_wf build_nodes"
  by (simp add: nodes_wf_def iter_def build_nodes_def empty_nodes_def sample_node_def)

lemma input_tasks_ok: "nodes_wf ns \<Longrightarrow> distinct (sorted_nodes sched) \<Longrightarrow> tasks_ok (input_of ns sched)"
  using default.tasks_contract_axioms by (simp add: tasks_ok_def input_of_def aggregation_ok_def)

lemma input_no_barrier: "\<not> needs_barrier (input_of ns sched)"
  by (simp add: needs_barrier_def input_of_def default_buckets_def is_strict_static_analysis_def normalize_static_analysis_kind_def)

lemma build_deps: "deps_of build_input u = (if u = ''model.p.b'' then [''model.p.a''] else if u = ''test.p.t'' then [''model.p.a'']
    else if u = ''unit_test.p.u'' then [''model.p.b''] else [])"
  by (simp add: deps_of_def succs_def build_input_def input_of_def build_schedule_of_def)

lemma build_depends: "edges (succs (sched_deps (gi_schedule build_input))) =
    {(''model.p.b'', ''model.p.a''), (''test.p.t'', ''model.p.a''), (''unit_test.p.u'', ''model.p.b'')}"
  using build_deps by (auto simp: edges_def deps_of_def split: if_splits)

lemma build_sound: "sound_input build_input"
proof -
  have "acyclic (edges (succs (sched_deps (gi_schedule build_input))))"
  proof -
    define f where "f u = (if u = ''model.p.a'' then 2 else if u = ''model.p.b'' then 1 else 0 :: nat)" for u :: string
    show ?thesis unfolding build_depends by (rule acyclicI_order [where f = "\<lambda>u. - int (f u)"]) (auto simp: f_def)
  qed
  moreover have "\<not> is_unit_test d" if "d \<in> set (deps_of build_input u)" for u d
    using that by (auto simp: build_deps is_unit_test_def starts_with_def split: if_splits)
  moreover have "unit_test_ok build_input ''unit_test.p.u''"
    by (simp add: unit_test_ok_def build_deps starts_with_def) (simp add: build_input_def input_of_def build_nodes_def build_schedule_of_def)
  moreover have "node_order build_input = [''model.p.a'', ''model.p.b'', ''test.p.t'', ''unit_test.p.u'']"
      "seeds (gi_nodes build_input) = []"
    by (simp_all add: build_input_def input_of_def build_schedule_of_def build_nodes_def empty_nodes_def)
  ultimately have "schedule_ok build_input"
    by (auto simp: schedule_ok_def is_unit_test_def starts_with_def)
  moreover have "tasks_ok build_input" unfolding build_input_def
    by (rule input_tasks_ok [OF build_nodes_wf]) (simp add: build_schedule_of_def)
  ultimately show ?thesis using input_no_barrier by (simp add: sound_input_def build_input_def)
qed

text \<open>A visit of the graph in which the run of the data test fails.\<close>

definition build_env :: visit_env where
  "build_env =
     \<lparr>toposort = (\<lambda>_. Inr [0, 1, 2, 6, 4, 5, 7, 3]), externals = (\<lambda>_. [0]), hash_order = id, span_error = (\<lambda>_. None),
      outcome = (\<lambda>i. if i = 5 then Inr Errored else Inr Succeeded), arrival = (\<lambda>_. 0), token = (\<lambda>_. False),
      fail_fast_flag = False, run_cache_service_requested = False, enable_data_tests = None\<rparr>"

lemma build_fit: "fit build_env build_graph"
proof -
  have e: "edge_rel build_graph = {(0, 1), (2, 3), (4, 5), (6, 7), (1, 3), (1, 5), (2, 6), (1, 6), (7, 3), (1, 2), (1, 4), (5, 3)}"
    by (simp add: edge_rel_def build_facts(1))
  have p: "preds build_graph i = (if i = 1 then {0} else if i = 2 then {1} else if i = 3 then {2, 1, 7, 5} else if i = 4 then {1}
      else if i = 5 then {4, 1} else if i = 6 then {2, 1} else if i = 7 then {6} else {})" for i
    unfolding preds_def e by auto
  have "topo_order build_graph [0, 1, 2, 6, 4, 5, 7, 3]"
    unfolding topo_order_def build_facts(2) by (auto simp: p less_Suc_eq numeral_eq_Suc)
  moreover have "{i. i < 8 \<and> preds build_graph i = {}} = {0}"
    by (auto simp: p less_Suc_eq numeral_eq_Suc split: if_splits)
  ultimately have "library_ok build_env build_graph"
    unfolding library_ok_def build_facts(2) by (simp add: build_env_def)
  moreover have "graph_ok build_graph" unfolding graph_ok_def e build_facts(2) by simp
  moreover have "distinct (task_edges build_graph)" by (simp add: build_facts(1))
  moreover have "hash_ok build_env" by (simp add: hash_ok_def build_env_def)
  ultimately show ?thesis by (simp add: fit_def)
qed

definition build_log :: "visit_event list" where
  "build_log =
     [TaskStarted 0 1, TaskFinished 0 (Inr Succeeded), TaskStarted 1 1, TaskFinished 1 (Inr Succeeded), TaskStarted 4 1,
      TaskStarted 2 2, TaskFinished 4 (Inr Succeeded), TaskStarted 5 1, TaskFinished 2 (Inr Succeeded), TaskStarted 6 2,
      TaskFinished 5 (Inr Errored), TaskFinished 6 (Inr Succeeded), TaskStarted 7 1, TaskFinished 7 (Inr Succeeded),
      TaskSkipped 3 (FailedUpstream ''test.p.t'')]"

lemma build_visit:
  obtains s where "visit build_env Parallel build_graph = (Inr (), s)" "visit_log s = build_log"
proof -
  have "fst (visit_parallel build_env build_graph) = Inr ()" "visit_log (snd (visit_parallel build_env build_graph)) = build_log"
    by code_simp+
  then show ?thesis by (intro that [of "snd (visit_parallel build_env build_graph)"]) (simp_all add: visit_parallel_def prod_eq_iff)
qed

section \<open>The graph\<close>

text \<open>C4 A graph is built, without the panic of its assertions, and it has no cycle: every edge leads
  between two of its tasks and occurs once, and no two tasks have the same id and type.\<close>

theorem task_graph_built:
  assumes "sound_input I"
  shows "\<exists>g idle. build_phased_task_graph I = Inr (g, idle) \<and> graph_ok g \<and> acyclic (edge_rel g) \<and> distinct (task_edges g) \<and>
    distinct (map task_key (weights g))"
proof -
  note parts = sound_input_parts [OF assms]
  obtain g idle where g: "build_phased_task_graph I = Inr (g, idle)"
    using built_parts [of I] assms by (auto simp: sound_input_def)
  note b = built_graph [OF assms g]
  have "graph_ok g" using graph_edges_range [OF parts(3,4)] b by (simp add: graph_ok_def)
  moreover have "acyclic (edge_rel g)" using graph_edges_acyclic [OF parts(2)] b by simp
  moreover have "distinct (map task_key (weights g))" using task_keys_distinct [OF parts(1)] b by simp
  ultimately show ?thesis using g b(3) by blast
qed

theorem task_graph_built_witness:
  "\<exists>g. build_phased_task_graph build_input = Inr (g, []) \<and> acyclic (edge_rel g) \<and> length (weights g) = 8"
  using task_graph_built [OF build_sound] build_result build_facts(2) by auto

text \<open>C10 The graph has one task for each phase of each scheduled node, an edge between two tasks exactly
  where one waits for the other, and it reports the selected nodes that have no task.\<close>

theorem task_graph_exact:
  assumes "sound_input I" and "build_phased_task_graph I = Inr (g, idle)"
  shows "(\<forall>x y. (x, y) \<in> edge_rel g \<longleftrightarrow> (\<exists>a b. waits I a b \<and> at I a = Some x \<and> at I b = Some y)) \<and>
    (\<forall>i < length (weights g). \<exists>p u. at I (p, u) = Some i) \<and>
    (\<forall>p u i. at I (p, u) = Some i \<longrightarrow> i < length (weights g) \<and> (p, weights g ! i) \<in> set (tasks_at I u)) \<and>
    (\<forall>u \<in> set (node_order I). \<forall>(p, t) \<in> set (tasks_at I u). at I (p, u) \<noteq> None) \<and>
    set idle = {u \<in> set (node_order I). \<not> has_key (checks (gi_nodes I)) u \<and> tasks_at I u = [] \<and> u \<in> set (selected_nodes (gi_schedule I))}"
proof (intro conjI allI impI ballI)
  note parts = sound_input_parts [OF assms(1)] and b = built_graph [OF assms]
  show "(x, y) \<in> edge_rel g \<longleftrightarrow> (\<exists>a b. waits I a b \<and> at I a = Some x \<and> at I b = Some y)" for x y
    using waits_edge [OF parts(3,4)] edge_waits [OF parts(3,4)] b(2) by blast
  show "\<exists>p u. at I (p, u) = Some i" if "i < length (weights g)" for i
    using at_onto [OF parts(3), of i] that b(1) by metis
  show "i < length (weights g)" "(p, weights g ! i) \<in> set (tasks_at I u)" if "at I (p, u) = Some i" for p u i
    using at_task(2,3) [OF parts(3) that] b(1) by simp_all
  show "case pt of (p, t) \<Rightarrow> at I (p, u) \<noteq> None" if "u \<in> set (node_order I)" "pt \<in> set (tasks_at I u)" for u pt
    using that at_exists [OF parts(3), of "fst pt" u] by (auto simp: node_phases_def split: prod.splits)
  show "set idle = {u \<in> set (node_order I). \<not> has_key (checks (gi_nodes I)) u \<and> tasks_at I u = [] \<and> u \<in> set (selected_nodes (gi_schedule I))}"
    using idle_nodes b(4) by simp
qed

theorem task_graph_exact_witness:
  "\<exists>a b. waits build_input a b \<and> at build_input a = Some 5 \<and> at build_input b = Some 3"
  using task_graph_exact [OF build_sound build_result, THEN conjunct1, rule_format, of 5 3]
  by (simp add: edge_rel_def build_facts(1))

section \<open>The visit of the graph\<close>

text \<open>C9 A node starts to run only after the runs of all nodes it depends on, through any number of nodes
  without a run, have finished or were skipped; unit tests, which run before what they test, are exempt.\<close>

theorem runs_follow_dependencies:
  assumes "sound_input I" and "build_phased_task_graph I = Inr (g, idle)" and "fit E g" and "visit E strategy g = (r, s)"
    and "(u, v) \<in> ancestry I" and "\<not> is_unit_test u" and "at I (TPRun, v) = Some i" and "at I (TPRun, u) = Some j"
    and "visit_log s = before @ TaskStarted j n # after"
  shows "i \<in> ended_in before"
  using started_after [OF assms(3,4,9) run_path [OF assms(1,2,7,8,5,6)]] .

theorem runs_follow_witness: "1 \<in> ended_in (take 7 build_log)"
proof -
  obtain s where s: "visit build_env Parallel build_graph = (Inr (), s)" "visit_log s = build_log" by (rule build_visit)
  have "(''test.p.t'', ''model.p.a'') \<in> ancestry build_input"
    by (rule above_dep) (simp add: build_deps)
  moreover have "\<not> is_unit_test ''test.p.t''" by (simp add: is_unit_test_def starts_with_def)
  moreover have "visit_log s = take 7 build_log @ TaskStarted 5 1 # drop 8 build_log" by (simp add: s(2) build_log_def)
  ultimately show ?thesis
    using runs_follow_dependencies [OF build_sound build_result build_fit s(1) _ _ build_facts(4,6)] by blast
qed

text \<open>C5 A task that waits on a channel for the result of an earlier phase starts only after the task of
  that phase was run and has finished: no started task waits for one that a failure or a reuse skipped.\<close>

theorem receivers_have_results:
  assumes "sound_input I" and "build_phased_task_graph I = Inr (g, idle)" and "fit E g" and "visit E strategy g = (r, s)"
    and "visit_log s = before @ TaskStarted i n # after" and "result_receiver (weights g ! i) = Some q"
  shows "\<exists>j < length (weights g). work_of g j = work_of g i \<and> task_phase (weights g ! j) = Some q \<and>
    (\<exists>x. TaskFinished j x \<in> set before)"
proof -
  note parts = sound_input_parts [OF assms(1)] and b = built_graph [OF assms(1,2)]
  have start: "i \<in> started_in (visit_log s)" by (auto simp: started_in_def assms(5))
  then have "i < length (weights g)" using log_ok_range [OF visit_facts(1) [OF assms(3,4)]] by auto
  then obtain p u where i: "at I (p, u) = Some i" using at_onto [OF parts(3)] b(1) by metis
  have "receivers_fit (tasks_at I u)" using tasks_at_ok [OF parts(1) at_task(1) [OF parts(3) i]] by (simp add: node_tasks_ok_def)
  then have q: "q \<in> fst ` set (tasks_at I u)" "phase_no q < phase_no p"
    using at_task(3) [OF parts(3) i] assms(6) b(1) by (auto simp: receivers_fit_def)
  then obtain j where j: "at I (q, u) = Some j"
    using at_exists [OF parts(3), of q u] at_task(1) [OF parts(3) i] by (auto simp: node_phases_def)
  have path: "(j, i) \<in> (same_work g)\<^sup>+" by (rule phase_path [OF parts(1,4) b(1,2) j i q(2)])
  have sub: "same_work g \<subseteq> feeds g" using built_feeds [OF assms(1,2)] by (auto simp: same_work_def)
  have feeds: "(j, i) \<in> (feeds g)\<^sup>+" using trancl_mono [OF path sub] .
  then have "j \<in> ended_in before"
    using started_after [OF assms(3-5)] built_feeds [OF assms(1,2)] by simp
  then consider x where "TaskFinished j x \<in> set before" | k where "TaskSkipped j k \<in> set before" by (auto simp: ended_in_def)
  then have "\<exists>x. TaskFinished j x \<in> set before"
  proof cases
    case (2 k)
    then have "i \<in> dom (skips s)" using skipped_together [OF visit_facts(2) [OF assms(3,4)] _ feeds path] built_uniform [OF assms(1,2)] assms(5) by auto
    then show ?thesis using visit_facts(2) [OF assms(3,4)] start by (auto simp: skip_inv_def)
  qed blast
  then show ?thesis using at_task(2) [OF parts(3) j] task_facts [OF parts(1) j] task_facts(1) [OF parts(1) i] b(1)
    by (auto simp: work_of_def)
qed

theorem receivers_witness:
  "\<exists>j < 8. task_phase (weights build_graph ! j) = Some TPRender \<and> (\<exists>x. TaskFinished j x \<in> set (take 2 build_log))"
proof -
  obtain s where s: "visit build_env Parallel build_graph = (Inr (), s)" "visit_log s = build_log" by (rule build_visit)
  have "visit_log s = take 2 build_log @ TaskStarted 1 1 # drop 3 build_log" by (simp add: s(2) build_log_def)
  from receivers_have_results [OF build_sound build_result build_fit s(1) this build_facts(3)] show ?thesis
    unfolding build_facts(2) by blast
qed

text \<open>C11 When the run of a test fails, the models and snapshots it guards are not started, and a visit that
  succeeds has skipped them: those that depend on something it tests when all it tests is upstream of them, and,
  for a unit test, its first dependency.\<close>

theorem failed_test_blocks:
  assumes "sound_input I" and "build_phased_task_graph I = Inr (g, idle)" and "fit E g" and "visit E strategy g = (r, s)"
    and "guards I test model \<or> is_unit_test test \<and> (\<exists>ds. deps_of I test = model # ds)"
    and "at I (TPRun, test) = Some i" and "at I (TPRun, model) = Some j"
    and "TaskFinished i q \<in> set (visit_log s)" and "propagates E g i"
  shows "j \<notin> started_in (visit_log s) \<and> (r = Inr () \<longrightarrow> (\<exists>reason. TaskSkipped j reason \<in> set (visit_log s)))"
proof -
  note parts = sound_input_parts [OF assms(1)] and b = built_graph [OF assms(1,2)]
  have "waits I (TPRun, test) (TPRun, model)" using assms(5) waits.test_first waits.unit_run by blast
  then have "(i, j) \<in> edge_rel g" using waits_edge [OF parts(3,4) _ assms(6,7)] b(2) by simp
  then have "j \<in> blocked g i" using built_feeds [OF assms(1,2)] by (auto simp: blocked_def)
  then have "j \<in> dom (skips s)" using visit_facts(2) [OF assms(3,4)] assms(8,9) unfolding skip_inv_def by blast
  then show ?thesis using marked_never_starts [OF assms(3,4)] at_task(2) [OF parts(3) assms(7)] b(1) by simp
qed

theorem failed_test_witness: "3 \<notin> started_in build_log \<and> (\<exists>reason. TaskSkipped 3 reason \<in> set build_log)"
proof -
  obtain s where s: "visit build_env Parallel build_graph = (Inr (), s)" "visit_log s = build_log" by (rule build_visit)
  have up: "(''test.p.t'', ''model.p.b'') \<notin> ancestry build_input"
  proof
    assume "(''test.p.t'', ''model.p.b'') \<in> ancestry build_input"
    from tranclD2 [OF this] have "(''test.p.t'', ''unit_test.p.u'') \<in> (edges (succs (sched_deps (gi_schedule build_input))))\<^sup>*"
      unfolding build_depends by auto
    then show False unfolding build_depends by (cases rule: rtranclE) auto
  qed
  have "guards build_input ''test.p.t'' ''model.p.b''"
    using up above_dep [of "''model.p.a''" build_input "''model.p.b''"]
    by (simp add: guards_def build_deps) (simp add: is_data_test_def is_blockable_def starts_with_def)
  moreover have "propagates build_env build_graph 5" by code_simp
  moreover have "TaskFinished 5 (Inr Errored) \<in> set (visit_log s)" by (simp add: s(2) build_log_def)
  ultimately show ?thesis
    using failed_test_blocks [OF build_sound build_result build_fit s(1) _ build_facts(6,5)] s(2) by auto
qed

section \<open>Unit tests of versions\<close>

text \<open>C12 The run of a unit test comes before the run of its first dependency, the least id, although it
  waits for the parents of the model it tests: when that model depends on the first dependency, the graph has
  a cycle through it, and nothing is run.\<close>

theorem unit_test_cycle:
  assumes "tasks_ok I" and "acyclic (edges (succs (sched_deps (gi_schedule I))))" and "\<not> needs_barrier I"
    and "build_phased_task_graph I = Inr (g, idle)" and "is_unit_test u" and "deps_of I u = d # ds"
    and "map_of (unit_tests (gi_nodes I)) u = Some ut" and "tested_node_unique_id ut = Some m" and "d \<in> set (deps_of I m)"
    and "\<not> ephemeral_node I d" and "d \<notin> set (overlapping_sources (gi_schedule I))"
    and "at I (TPRender, u) = Some x" and "at I (TPRun, u) = Some y" and "at I (TPRun, d) = Some z"
  shows "(z, z) \<in> (edge_rel g)\<^sup>+"
proof -
  have order: "ordered I" using assms(1) by (simp add: tasks_ok_def)
  have g: "weights g = all_tasks I" "edge_rel g = graph_edges I" using built_parts [OF assms(1,3)] assms(4) by auto
  have "or_seed I d = d" using or_seed_cases [of I d] assms(11) by blast
  then have "d \<in> set (unit_test_render_parent_runs I u)"
    using parent_walk_finds [of d "deps_of I m" "[]" I "[]"] assms(7-10) by (simp add: unit_test_render_parent_runs_def)
  moreover have "has_key (sched_deps (gi_schedule I)) u" using deps_of_key [of d I u] assms(6) by simp
  ultimately have "(z, x) \<in> edge_rel g"
    using waits_edge [OF order assms(2) waits.unit_parent [OF assms(5)] assms(14,12)] g(2) by simp
  moreover have "(x, y) \<in> (edge_rel g)\<^sup>+"
  proof (rule trancl_mono)
    show "(x, y) \<in> (same_work g)\<^sup>+" by (rule phase_path [OF assms(1,2) g assms(12,13)]) simp
  qed (auto simp: same_work_def)
  moreover have "(y, z) \<in> edge_rel g" using waits_edge [OF order assms(2) waits.unit_run [OF assms(5,6)] assms(13,14)] g(2) by simp
  ultimately show ?thesis by (meson trancl_into_trancl trancl_into_trancl2)
qed

text \<open>Version 2 selects from the latest version 10; the unit test of version 2 depends on both.\<close>

definition versions_input :: graph_input where
  "versions_input = input_of
     (empty_nodes \<lparr>
       models := [(''model.p.x.v10'', sample_node ''model.p.x.v10'' ''x''), (''model.p.x.v2'', sample_node ''model.p.x.v2'' ''x'')],
       unit_tests := [(''unit_test.p.u.v2'', sample_node ''unit_test.p.u.v2'' ''u''
         \<lparr>resource_type := UnitTestNode, tested_node_unique_id := Some ''model.p.x.v2''\<rparr>)]\<rparr>)
     (build_schedule_of [(''model.p.x.v2'', [''model.p.x.v10'']), (''unit_test.p.u.v2'', [''model.p.x.v10'', ''model.p.x.v2''])]
       [''model.p.x.v10'', ''model.p.x.v2'', ''unit_test.p.u.v2''])"

theorem unit_test_cycle_witness: "\<exists>g. build_phased_task_graph versions_input = Inr (g, []) \<and> (1, 1) \<in> (edge_rel g)\<^sup>+"
proof -
  have ok: "tasks_ok versions_input" unfolding versions_input_def
    by (rule input_tasks_ok) (simp_all add: build_schedule_of_def nodes_wf_def iter_def empty_nodes_def sample_node_def)
  have static: "\<not> needs_barrier versions_input" unfolding versions_input_def by (rule input_no_barrier)
  have "(case build_phased_task_graph versions_input of Inr (g, ids) \<Rightarrow> ids = [] | Inl _ \<Rightarrow> False)" by code_simp
  then obtain g where g: "build_phased_task_graph versions_input = Inr (g, [])" by (auto split: sum.splits)
  have e: "edges (succs (sched_deps (gi_schedule versions_input))) =
      {(''model.p.x.v2'', ''model.p.x.v10''), (''unit_test.p.u.v2'', ''model.p.x.v10''), (''unit_test.p.u.v2'', ''model.p.x.v2'')}"
    by (auto simp: edges_def succs_def versions_input_def input_of_def build_schedule_of_def split: if_splits)
  define f :: "string \<Rightarrow> int" where "f u = (if u = ''model.p.x.v10'' then 0 else if u = ''model.p.x.v2'' then 1 else 2)" for u
  have dag: "acyclic (edges (succs (sched_deps (gi_schedule versions_input))))"
    unfolding e by (rule acyclicI_order [where f = f]) (auto simp: f_def)
  have "deps_of versions_input ''unit_test.p.u.v2'' = ''model.p.x.v10'' # [''model.p.x.v2'']"
      "is_unit_test ''unit_test.p.u.v2''" "\<not> ephemeral_node versions_input ''model.p.x.v10''"
      "''model.p.x.v10'' \<in> set (deps_of versions_input ''model.p.x.v2'')"
      "''model.p.x.v10'' \<notin> set (overlapping_sources (gi_schedule versions_input))"
      "at versions_input (TPRender, ''unit_test.p.u.v2'') = Some 4" "at versions_input (TPRun, ''unit_test.p.u.v2'') = Some 5"
      "at versions_input (TPRun, ''model.p.x.v10'') = Some 1"
    by code_simp+
  moreover have "map_of (unit_tests (gi_nodes versions_input)) ''unit_test.p.u.v2'' = Some (sample_node ''unit_test.p.u.v2'' ''u''
         \<lparr>resource_type := UnitTestNode, tested_node_unique_id := Some ''model.p.x.v2''\<rparr>)"
    by (simp add: versions_input_def input_of_def)
  ultimately have "(1, 1) \<in> (edge_rel g)\<^sup>+" using unit_test_cycle [OF ok dag static g] by simp
  then show ?thesis using g by blast
qed

end
