(* ===== verification/Spec2Isabelle.thy ===== *)
theory Spec2Isabelle
  imports Dag_Contract Semver_Contract Selector_Contract Node_Match_Contract Selection_Contract
    Selection_Override Command_Line_Contract Schedule_Change_Contract Task_Cell_Contract Pool_Contract
    Visitor_Contract Task_Graph_Contract
begin

text \<open>
  \<^bold>\<open>The program.\<close> The repository is the Rust implementation of dbt: it loads a project of SQL models,
  tests, seeds, snapshots and so on, resolves the references between them to a dependency graph,
  selects a part of that graph by the expressions of the command line and of the selector file, puts
  it in an order and runs it against a warehouse, on a pool of threads of its own. This development
  models the core between the resolved nodes and the schedule of a run, the version resolution of
  packages, the graph of tasks a schedule becomes and the visitor that runs it, and the thread pool with its tasks.

  \<^bold>\<open>Parts and theories.\<close>

  \<^item> \<^theory_text>\<open>Dbt_Prelude\<close>: results (a sum whose left side is a reported error or a panic), characters and
    strings, ordered sets and maps (\<open>bset\<close>, \<open>bmap\<close>: the strictly sorted lists a \<^verbatim>\<open>BTreeSet\<close> and a
    \<^verbatim>\<open>BTreeMap\<close> iterate over), three-valued comparisons with the locale \<open>total_comparison\<close>.
  \<^item> \<^theory_text>\<open>Dag_Reach\<close>, \<^theory_text>\<open>Dag_Order\<close>, \<^theory_text>\<open>Dag_Cycles\<close> (\<^verbatim>\<open>crates/dbt-dag/src/deps_mgmt.rs\<close>): traversals,
    reversal, restriction with transitive edges; Kahn's algorithm with its heap; depth-first cycle
    search, cutting of cycles, levels. A graph is the map of a node to what it depends on. The locale
    \<open>worklist\<close> holds the invariant of every traversal and is interpreted for the queue and the stack
    the code uses. \<^theory_text>\<open>Dag_Closure\<close> and \<^theory_text>\<open>Dag_Contract\<close> state the results over the edge relation.
  \<^item> \<^theory_text>\<open>Semver\<close>, \<^theory_text>\<open>Semver_Correct\<close>, \<^theory_text>\<open>Semver_Contract\<close> (\<^verbatim>\<open>crates/dbt-deps/src/semver.rs\<close>): versions,
    requirements, their reduction, resolution and the installable list.
  \<^item> \<^theory_text>\<open>Selector_Syntax\<close> and its \<^theory_text>\<open>_Correct\<close> and \<^theory_text>\<open>_Contract\<close> theories
    (\<^verbatim>\<open>crates/dbt-common/src/node_selector.rs\<close>): criteria, expressions, the command line parser and printer.
  \<^item> \<^theory_text>\<open>Selector_Yaml\<close>, \<^theory_text>\<open>Selector_Yaml_Correct\<close>, \<^theory_text>\<open>Selector_Yaml_Contract\<close>
    (\<^verbatim>\<open>crates/dbt-selector-parser/src/parser.rs\<close>, \<^verbatim>\<open>crates/dbt-parser/src/resolve/resolve_selectors.rs\<close>): the
    trees of the selector file, their translation to expressions, the choice between an explicit selector,
    the default selector and the command line, and how definitions are written to the manifest.
  \<^item> \<^theory_text>\<open>Command_Line\<close>, \<^theory_text>\<open>Command_Line_Contract\<close> (\<^verbatim>\<open>crates/dbt-clap-core/src/lib.rs\<close>,
    \<^verbatim>\<open>crates/dbt-common/src/io_args.rs\<close>, \<^verbatim>\<open>dirty_select_expression\<close> of \<^verbatim>\<open>dbt-metadata\<close>): the expressions made of
    the selection flags, with their validation, the test mode, the restriction of \<^verbatim>\<open>source freshness\<close> and
    \<^verbatim>\<open>--dirty\<close>, up to the selection the scheduler resolves.
  \<^item> \<^theory_text>\<open>Nodes\<close> (\<^verbatim>\<open>crates/dbt-schemas/src/schemas/nodes.rs\<close>): the maps of resolved nodes with lookup and
    iteration. A node is a record of the answers the selection and the scheduler ask of it.
  \<^item> \<^theory_text>\<open>Node_Match\<close>, \<^theory_text>\<open>Node_Match_Contract\<close> (\<^verbatim>\<open>crates/dbt-scheduler/src/node_selector.rs\<close>): which nodes and
    columns a criterion and an expression match.
  \<^item> \<^theory_text>\<open>Selection\<close>, \<^theory_text>\<open>Selection_Correct\<close>, \<^theory_text>\<open>Selection_Eval\<close>, \<^theory_text>\<open>Selection_Contract\<close> (first half of
    \<^verbatim>\<open>crates/dbt-scheduler/src/schedule.rs\<close> after the schedule itself): graph operators, indirect selection of tests,
    the recursive evaluator \<^verbatim>\<open>eval_selector\<close> with its stack of named selectors. \<open>denote\<close> is the set
    semantics of an expression, and \<open>eval_denote\<close> the refinement of it by the pairs of sets the code carries.
  \<^item> \<^theory_text>\<open>Selection_Override\<close> (\<^verbatim>\<open>crates/dbt-schemas/src/schemas/selection_override.rs\<close>): an externally
    supplied selection, its statistics and its reconciliation with what ran.
  \<^item> \<^theory_text>\<open>Schedule\<close>, \<^theory_text>\<open>Schedule_Change\<close> (\<^verbatim>\<open>schedule.rs\<close> of \<^verbatim>\<open>dbt-scheduler\<close> and of \<^verbatim>\<open>dbt-dag\<close>): from the nodes
    to the schedule, and the changes for sidecar and local execution. \<^theory_text>\<open>Schedule_Correct\<close> has the lemmas
    of the single steps, \<^theory_text>\<open>Schedule_Invariant\<close> those of the whole, \<^theory_text>\<open>Schedule_Contract\<close> and
    \<^theory_text>\<open>Schedule_Change_Contract\<close> the properties, on two small projects as concrete instances.
  \<^item> \<^theory_text>\<open>Machine\<close>: threads that take steps on a shared state. The locale \<open>safe_thread\<close> is what makes a thread
    end: an invariant under which every step succeeds and a rank that goes down.
  \<^item> \<^theory_text>\<open>Task_State\<close>, \<^theory_text>\<open>Task_State_Correct\<close> (\<^verbatim>\<open>crates/dbt-runtime/src/task/state.rs\<close>): the state of a task,
    packed into a 64-bit word, its transitions, the compare-and-exchange loop that applies them, and their
    refinement of transitions on a record (\<open>view\<close>). The locale \<open>flag\<close> has the laws of one bit of the word
    and is interpreted for the six flags.
  \<^item> \<^theory_text>\<open>Task_Cell\<close>, \<^theory_text>\<open>Task_Cell_Correct\<close>, \<^theory_text>\<open>Task_Cell_Contract\<close> (\<^verbatim>\<open>harness.rs\<close>, \<^verbatim>\<open>core.rs\<close>, \<^verbatim>\<open>mod.rs\<close> and
    \<^verbatim>\<open>join.rs\<close> beside it): a task shared by the thread that runs it and the one that joins it, as two
    program counters over the word, the stage and the waker; both are interpreted as \<open>safe_thread\<close>.
  \<^item> \<^theory_text>\<open>Pool\<close>, \<^theory_text>\<open>Pool_Correct\<close>, \<^theory_text>\<open>Pool_Contract\<close> (\<^verbatim>\<open>crates/dbt-runtime/src/pool.rs\<close>): the queue, the counters
    and the workers of the pool. Each critical section is a step of \<open>worker_step\<close>, \<open>spawn_task\<close> or
    \<open>pool_shutdown\<close>; \<open>pool_step\<close> is their interleaving, \<open>pool_inv\<close> what all of them keep, and a pool in its
    shutdown is a \<open>safe_thread\<close> again.
  \<^item> \<^theory_text>\<open>Visitor\<close> (\<^verbatim>\<open>crates/dbt-tasks-sa/src/visitor.rs\<close>): a visit of a task graph, in parallel or one task
    at a time, with the skips behind failed and reused tasks and the slots of running ones.
    \<^theory_text>\<open>Visitor_Walks\<close> has what the walks behind a task mark, \<^theory_text>\<open>Visitor_Correct\<close> the steps of a visit and the
    order of its log, \<^theory_text>\<open>Visitor_Skips\<close> the invariants of the skip map and the slots. The locale
    \<open>dispatcher\<close> in \<^theory_text>\<open>Visitor_Dispatch\<close> is the contract between the visitor and a strategy; in
    \<^theory_text>\<open>Visitor_Strategies\<close> it is interpreted for both, and \<^theory_text>\<open>Visitor_Contract\<close> states the properties.
  \<^item> \<^theory_text>\<open>Task_Graph\<close> (\<^verbatim>\<open>crates/dbt-tasks-sa/src/graph.rs\<close> and \<^verbatim>\<open>task.rs\<close>): from a schedule to the graph of tasks, the
    phases of each node and what each phase waits for. \<^theory_text>\<open>Task_Graph_Nodes\<close> says which tasks the graph has,
    \<^theory_text>\<open>Task_Graph_Edges\<close> which edges, as the relation \<open>waits\<close> on phases of nodes. The locale \<open>tasks_contract\<close> in
    \<^theory_text>\<open>Task_Graph_Factory\<close> is what the builder relies on from the factory of tasks, interpreted for the factory of
    the repository. \<^theory_text>\<open>Task_Graph_Order\<close> numbers the tasks so that every edge goes up, \<^theory_text>\<open>Task_Graph_Correct\<close> has
    the paths of the graph and the order of a visit, and \<^theory_text>\<open>Task_Graph_Contract\<close> the properties, of the graph
    and of a visit of it.

  \<^bold>\<open>How they interact.\<close> \<open>build_schedule\<close> derives the graph (\<open>derive_deps\<close>), evaluates the selectors
  (\<open>expand_selector\<close>, which matches nodes with \<open>filter_select_criteria\<close> and walks the graph), replaces the
  result by an override when there is one, drops what cannot run, adds ephemeral models upstream,
  computes the frontier, restricts the graph (\<open>restrict_with_transitive\<close>), sorts it
  (\<open>topological_sort\<close>) and reports its cycles (\<open>find_and_cut_cycles\<close>). The theorems on \<open>build_schedule\<close>
  rest on those of the parts. \<open>build_phased_task_graph\<close> turns the schedule into a graph of tasks, up to four phases
  for a node, and the visitor starts each task when those it depends on are done; the properties of
  \<^theory_text>\<open>Task_Graph_Contract\<close> are about the two together.

  \<^bold>\<open>Conventions.\<close> A panic is the value \<open>Inl (Panic msg)\<close>, an error \<open>Inl (Err code msg)\<close>; locations and the
  chains of causes of errors are left out, and so are the adapter type and the tracing spans, which
  no decision depends on. Hash maps are lists in the order the code iterates over them. A string is a
  list of code points below 256; lengths the code takes in bytes are taken in UTF-8 bytes (\<open>str_len\<close>).
  Functions of other crates are fields of the record \<open>env\<close> or arguments: glob matching, the identifier
  parser of a dialect, the SHA-256 digest. The cancellation token is a function from the number of the
  question to its answer.

  Threads are interleaved step by step, one atomic operation or one critical section each, in a sequentially
  consistent memory: the orderings of the atomic operations are not modelled. What a thread meets from
  outside, a panic of a task's function or of a waker, a spurious wake-up, a time-out, a refused thread, is
  an argument of the step, so the theorems hold for every choice of it.

  The visitor is one thread; what runs beside it reaches it as messages. The result of each task, the order
  in which running tasks complete and the order of hash sets are fields of \<open>visit_env\<close>, and so are the
  answers of the graph library: \<open>library_ok\<close> says that a topological order lists predecessors first, that
  a reported cycle is one, and that the external nodes are those without predecessors. Tasks return; one
  that blocks forever keeps the visit from ending, which the comment on the loop says too, and the property on
  reused tests is what the code does about it.

  Of the graph library the builder uses adding a node, which gets the next index, and \<^verbatim>\<open>update_edge\<close>, which adds an
  edge that is not there; they are taken as documented. The static analysis and the factory of tasks are
  interfaces with one implementation in the repository (\<open>default_buckets\<close>, \<open>default_factory\<close>; a debug assertion of the
  latter against other ways of execution is left out). The theorems on the graph hold for every factory that
  fulfils \<open>tasks_contract\<close> and for every static analysis that is not strict, with which the builder adds no
  barrier; \<open>schedule_ok\<close> is what they assume of unit tests and seeds, and \<open>unit_test_cycle\<close> shows what happens when
  the first dependency of a unit test is not what it seems.

  \<^bold>\<open>Bounds.\<close> Every loop of the code terminates as a HOL function, with a measure, except for two that
  take a bound: \<open>slice_with_compare\<close>, whose comparison may never be satisfied (with equality it returns,
  \<open>slice_cmp_loop_returns\<close>), and \<open>collect_ephemeral_upstream\<close>, whose recursion is bounded by the stack: one
  frame more than there are nodes is enough on acyclic projects (\<open>ephemeral_closure_ends\<close>), and no stack
  is enough on a circle of ephemeral models, which ends in the panic for an exhausted stack
  (\<open>ephemeral_cycle_overflows\<close>). Depths of graph operators are
  32-bit numbers, the panic on larger ones included. The state word of a task has 64 bits with the
  reference count in the upper 58; the counters of the pool count up without bound, as no process has
  \<open>2 ^ 64\<close> threads or queued tasks, and wrap when they are decremented at zero, which never happens
  (\<open>pool_counters_exact\<close>). A task cell is done after 12 steps of its owner and 14 of its handle, a
  shutdown after \<open>pool_work\<close> steps of the workers, tasks being steps that return. The loop of the visitor
  is total with the measure \<open>visit_left\<close>; its slots and counts of predecessors are 32-bit numbers in the code
  and unbounded here, as they stay below the numbers of tasks and edges (\<open>slots_lowest\<close>).

  \<^bold>\<open>Not modelled.\<close> The command line but for its selection flags, and the start of the process (generated
  argument structs); the reading of the index of dirty files, whose result is an argument; loading
  and YAML deserialization of projects; the template engine, which is vendored; the adapters, drivers and
  what a task of a run does, whose effects are those of a warehouse; the forming of aggregated test groups, the overrides of unit tests
  and the printing of a task graph; the spans, reports and log lines of the visitor; the wakers a task of the pool could
  hand out, which a blocking task never does, and the memory layout behind its raw pointers; the SQL front end; metadata stores,
  the documentation server, platform services, telemetry and terminal output; and the full manifest
  structs, of which the node record keeps what the modelled code reads.
\<close>

end
